(* ===== verification/Dex_Prelude.thy ===== *)
theory Dex_Prelude
  imports Main "HOL-Library.Word"
begin

text \<open>
  Shared vocabulary of the development: the machine integers of the crate, its error values,
  the standard-library and \<^verbatim>\<open>alloy::primitives\<close> arithmetic its code relies on, and the word
  lemmas every component uses.

  Unsigned integers are words of their width, so \<open>+\<close>, \<open>-\<close> and \<open>*\<close> wrap as the
  \<^verbatim>\<open>alloy::primitives::Uint\<close> operators do (and as Rust's primitive operators do with overflow
  checks off, the release profile: \<^verbatim>\<open>Cargo.toml\<close> sets none). Signed integers (\<open>i24\<close>, \<open>i32\<close>,
  \<open>i128\<close>) are \<open>int\<close> with the wrap-around written out by \<open>swrap\<close>; \<open>I256\<close> is its raw 256-bit
  word, read by \<open>sint\<close>.
\<close>

unbundle bit_operations_syntax

section \<open>Machine integers\<close>

type_synonym u8 = "8 word"
type_synonym u16 = "16 word"
type_synonym u24 = "24 word"
type_synonym u32 = "32 word"
type_synonym u64 = "64 word"
type_synonym u128 = "128 word"
type_synonym u160 = "160 word"
type_synonym u256 = "256 word"
type_synonym u512 = "512 word"
type_synonym i256 = "256 word"
type_synonym address = "160 word"

text \<open>Two's complement wrap-around of a signed integer of \<open>n\<close> bits.\<close>

definition swrap :: "nat \<Rightarrow> int \<Rightarrow> int" where
  "swrap n x = (x + 2 ^ (n - 1)) mod 2 ^ n - 2 ^ (n - 1)"

definition srange :: "nat \<Rightarrow> int \<Rightarrow> bool" where
  "srange n x \<longleftrightarrow> - (2 ^ (n - 1)) \<le> x \<and> x < 2 ^ (n - 1)"

text \<open>Rust's saturating signed arithmetic: clamp the exact result into the range.\<close>

definition sclamp :: "nat \<Rightarrow> int \<Rightarrow> int" where
  "sclamp n x = max (- (2 ^ (n - 1))) (min (2 ^ (n - 1) - 1) x)"

text \<open>Rust's \<open>/\<close> on signed integers truncates towards zero; \<open>%\<close> goes with it.\<close>

definition tdiv :: "int \<Rightarrow> int \<Rightarrow> int" where
  "tdiv a b = sgn a * sgn b * (\<bar>a\<bar> div \<bar>b\<bar>)"

definition trem :: "int \<Rightarrow> int \<Rightarrow> int" where
  "trem a b = a - b * tdiv a b"

section \<open>Errors as values\<close>

text \<open>
  One constructor for each failure the source can end with: an \<^verbatim>\<open>anyhow\<close> error carries the
  message's arguments that matter, \<open>Panic\<close> is a Rust panic (an arithmetic panic, an
  \<^verbatim>\<open>unwrap\<close>, a failed \<^verbatim>\<open>assert!\<close>, a failed integer conversion).
\<close>

datatype panic = DivByZero | UintConversion | UnwrapErr | AssertFailed string

datatype err =
    MulDivOverflow
  | LiquidityDeltaOverflow
  | InvalidTick int
  | InvalidSqrtPrice
  | InvalidSqrtPriceZero
  | TickOutOfBounds int
  | PriceOverflow
  | SafeCastToU160Overflow
  | InsufficientLiquidity
  | InvalidPriceOrLiquidity
  | InvalidPrice
  | TickNotFound
  | TickSpacingNotPositive int
  | RatioMin
  | RatioMax
  | RatioCurrent
  | NoProgress u128 int
  | AmountRemaining
  | FeeUnpredictable
  | TokenNotInPool
  | InvalidTickRange int int
  | BurnUninitializedLower int
  | BurnUninitializedUpper int
  | ZeroInput
  | ZeroOutput
  | InvalidReserves
  | StableNoConvergence
  | AmountTooLarge
  | ConversionExceeds string
  | FlashLoanFees
  | FlashLoanOverflow u32
  | NotImplemented
  | MissingTransactionHash
  | MissingLogIndex
  | ChannelClosed
  | DecodeFailed
  | CallFailed string
  | TransportError
  | Reverted u32
  | NoFactoriesFor u64
  | UnknownFactory address
  | FeeUndetermined address
  | ImplausibleFee u256
  | NotAnLBPair address
  | LBTreeContradiction address
  | BinDiscoveryFailed address
  | FetchRetriesExhausted address
  | Panic panic

type_synonym 'a res = "err + 'a"

abbreviation Ok :: "'a \<Rightarrow> 'a res" where
  "Ok x \<equiv> Inr x"

abbreviation Err :: "err \<Rightarrow> 'a res" where
  "Err e \<equiv> Inl e"

text \<open>The \<open>?\<close> operator: continue on success, return the error at once.\<close>

fun and_then :: "'a res \<Rightarrow> ('a \<Rightarrow> 'b res) \<Rightarrow> 'b res" where
  "and_then (Inl e) f = Inl e"
| "and_then (Inr x) f = f x"

lemma and_then_Ok_iff: "and_then m f = Inr y \<longleftrightarrow> (\<exists>x. m = Inr x \<and> f x = Inr y)"
  by (cases m) auto

lemma and_then_cong [fundef_cong]:
  "m = m' \<Longrightarrow> (\<And>x. m' = Inr x \<Longrightarrow> f x = f' x) \<Longrightarrow> and_then m f = and_then m' f'"
  by (cases m') auto

lemma and_then_Ok_E [elim!]:
  assumes "and_then m f = Inr y"
  obtains x where "m = Inr x" and "f x = Inr y"
  using assms by (auto simp: and_then_Ok_iff)

section \<open>Unsigned arithmetic of the source\<close>

definition U256_MAX :: u256 where
  "U256_MAX = - 1"

text \<open>Division panics on a zero divisor; \<^verbatim>\<open>div_ceil\<close> rounds up.\<close>

definition udiv :: "'n::len word \<Rightarrow> 'n word \<Rightarrow> 'n word res" where
  "udiv a b = (if b = 0 then Err (Panic DivByZero) else Ok (a div b))"

definition div_ceil :: "'n::len word \<Rightarrow> 'n word \<Rightarrow> 'n word res" where
  "div_ceil a b =
     (if b = 0 then Err (Panic DivByZero)
      else if a mod b = 0 then Ok (a div b) else Ok (a div b + 1))"

text \<open>\<^verbatim>\<open>Uint::mul_mod\<close>: the full product reduced by the modulus, 0 for modulus 0.\<close>

definition mul_mod :: "u256 \<Rightarrow> u256 \<Rightarrow> u256 \<Rightarrow> u256" where
  "mul_mod a b m = (if m = 0 then 0 else word_of_int ((uint a * uint b) mod uint m))"

definition saturating_add :: "'n::len word \<Rightarrow> 'n word \<Rightarrow> 'n word" where
  "saturating_add a b = (if uint a + uint b < 2 ^ LENGTH('n) then a + b else - 1)"

definition saturating_sub :: "'n::len word \<Rightarrow> 'n word \<Rightarrow> 'n word" where
  "saturating_sub a b = (if b \<le> a then a - b else 0)"

definition saturating_mul :: "'n::len word \<Rightarrow> 'n word \<Rightarrow> 'n word" where
  "saturating_mul a b = (if uint a * uint b < 2 ^ LENGTH('n) then a * b else - 1)"

definition checked_add :: "'n::len word \<Rightarrow> 'n word \<Rightarrow> 'n word option" where
  "checked_add a b = (if uint a + uint b < 2 ^ LENGTH('n) then Some (a + b) else None)"

definition checked_sub :: "'n::len word \<Rightarrow> 'n word \<Rightarrow> 'n word option" where
  "checked_sub a b = (if b \<le> a then Some (a - b) else None)"

text \<open>\<^verbatim>\<open>Uint::from_limbs\<close>: 64-bit limbs, the least significant first.\<close>

definition from_limbs :: "u64 list \<Rightarrow> u256" where
  "from_limbs ls = foldr (\<lambda>l acc. ucast l + push_bit 64 acc) ls 0"

text \<open>
  \<^verbatim>\<open>Uint::from\<close>/\<^verbatim>\<open>to\<close> between widths: the value must fit, else the conversion panics;
  \<^verbatim>\<open>try_into\<close> and \<^verbatim>\<open>uint_try_from\<close> return it as an error chosen by the caller.
\<close>

definition to_width :: "err \<Rightarrow> 'n::len word \<Rightarrow> 'm::len word res" where
  "to_width e x = (if uint x < 2 ^ LENGTH('m) then Ok (ucast x) else Err e)"

abbreviation to_uint :: "'n::len word \<Rightarrow> 'm::len word res" where
  "to_uint x \<equiv> to_width (Panic UintConversion) x"

section \<open>Word lemmas\<close>

named_theorems word_int "reading word operations as integer operations"

lemma uint_less: "uint (x :: 'n::len word) < 2 ^ LENGTH('n)"
  by simp

lemma uint_add_mod [word_int]: "uint (a + b) = (uint a + uint b) mod 2 ^ LENGTH('n)"
  for a b :: "'n::len word"
  by (simp add: uint_word_ariths)

lemma uint_sub_mod [word_int]: "uint (a - b) = (uint a - uint b) mod 2 ^ LENGTH('n)"
  for a b :: "'n::len word"
  by (simp add: uint_word_ariths)

lemma uint_mul_mod [word_int]: "uint (a * b) = (uint a * uint b) mod 2 ^ LENGTH('n)"
  for a b :: "'n::len word"
  by (simp add: uint_word_ariths)

lemma uint_add_exact: "uint a + uint b < 2 ^ LENGTH('n) \<Longrightarrow> uint (a + b) = uint a + uint b"
  for a b :: "'n::len word"
  by (simp add: word_int)

lemma uint_sub_exact: "b \<le> a \<Longrightarrow> uint (a - b) = uint a - uint b"
  for a b :: "'n::len word"
  by (rule uint_minus_simple_alt [THEN iffD1])

lemma uint_mul_exact: "uint a * uint b < 2 ^ LENGTH('n) \<Longrightarrow> uint (a * b) = uint a * uint b"
  for a b :: "'n::len word"
  by (simp add: word_int)

lemma uint_max: "uint (- 1 :: 'n::len word) = 2 ^ LENGTH('n) - 1"
  by (simp add: unsigned_minus_1_eq_mask mask_eq_exp_minus_1)

lemma word_eq_uint: "a = b \<longleftrightarrow> uint a = uint b" for a b :: "'n::len word"
  by (simp add: word_uint_eq_iff)

lemma uint_zero_iff: "uint a = 0 \<longleftrightarrow> a = 0" for a :: "'n::len word"
  by (simp add: uint_0_iff)

lemma uint_pos: "a \<noteq> 0 \<Longrightarrow> 0 < uint a" for a :: "'n::len word"
  using uint_zero_iff [of a] uint_ge_0 [of a] by linarith

lemma uint_saturating_add:
  "uint (saturating_add a b) = min (uint a + uint b) (2 ^ LENGTH('n) - 1)"
  for a b :: "'n::len word"
  by (simp add: saturating_add_def uint_add_exact uint_max)

lemma uint_saturating_sub: "uint (saturating_sub a b) = max (uint a - uint b) 0"
  for a b :: "'n::len word"
  by (auto simp: saturating_sub_def uint_sub_exact word_le_def max_def)

lemma uint_saturating_mul:
  "uint (saturating_mul a b) = min (uint a * uint b) (2 ^ LENGTH('n) - 1)"
  for a b :: "'n::len word"
  by (simp add: saturating_mul_def uint_mul_exact uint_max)

lemma uint_ucast_exact: "uint x < 2 ^ LENGTH('m) \<Longrightarrow> uint (ucast x :: 'm::len word) = uint x"
  for x :: "'n::len word"
  by (simp add: unsigned_ucast_eq take_bit_eq_mod)

lemma uint_ucast_up:
  "LENGTH('n) \<le> LENGTH('m) \<Longrightarrow> uint (ucast x :: 'm::len word) = uint x"
  for x :: "'n::len word"
  by (rule uint_ucast_exact, rule less_le_trans [OF uint_less]) (rule power_increasing, auto)

lemma to_width_Ok:
  "to_width e x = Ok y \<longleftrightarrow> uint x < 2 ^ LENGTH('m) \<and> uint y = uint x"
  for x :: "'n::len word" and y :: "'m::len word"
proof
  assume "uint x < 2 ^ LENGTH('m) \<and> uint y = uint x"
  then show "to_width e x = Ok y"
    by (simp add: to_width_def word_eq_uint uint_ucast_exact)
qed (auto simp: to_width_def uint_ucast_exact split: if_splits)

lemma to_width_Err: "to_width e x = (Err e' :: 'm::len word res) \<longleftrightarrow> e' = e \<and> 2 ^ LENGTH('m) \<le> uint x"
  for x :: "'n::len word"
  by (auto simp: to_width_def)

lemma udiv_Ok: "udiv a b = Ok q \<longleftrightarrow> b \<noteq> 0 \<and> uint q = uint a div uint b"
  for a b :: "'n::len word"
  by (auto simp: udiv_def word_eq_uint uint_div_distrib)

lemma le_div_int: "0 < b \<Longrightarrow> c \<le> a div b \<longleftrightarrow> c * b \<le> a" for a b c :: int
proof
  assume b: "0 < b" and "c \<le> a div b"
  then have "c * b \<le> a div b * b" by simp
  also have "\<dots> \<le> a" using b by (simp add: minus_mod_eq_div_mult [symmetric])
  finally show "c * b \<le> a" .
next
  assume b: "0 < b" and "c * b \<le> a"
  then have "c * b div b \<le> a div b" by (intro zdiv_mono1)
  with b show "c \<le> a div b" by simp
qed

lemma div_ceil_int: "0 < b \<Longrightarrow> (if a mod b = 0 then a div b else a div b + 1) = (a + b - 1) div b"
  for a b :: int
proof -
  assume b: "0 < b"
  have a: "a = b * (a div b) + a mod b" by simp
  have r: "0 \<le> a mod b" "a mod b < b" using b by simp_all
  have "a + b - 1 = (a mod b + b - 1) + b * (a div b)" using a by linarith
  then have "(a + b - 1) div b = (a mod b + b - 1 + b * (a div b)) div b" by (rule arg_cong)
  also have "\<dots> = a div b + (a mod b + b - 1) div b"
    using b by (subst div_mult_self2) auto
  finally have "(a + b - 1) div b = a div b + (a mod b + b - 1) div b" .
  moreover have "(a mod b + b - 1) div b = (if a mod b = 0 then 0 else 1)"
  proof (cases "a mod b = 0")
    case True
    then show ?thesis using b by simp
  next
    case False
    then have "(a mod b + b - 1) div b = (a mod b - 1 + b) div b" by (simp add: algebra_simps)
    also have "\<dots> = (a mod b - 1) div b + 1" using b by (subst div_add_self2) auto
    also have "\<dots> = 1" using r False by simp
    finally show ?thesis using False by simp
  qed
  ultimately show ?thesis by simp
qed

lemma div_ceil_Ok: "div_ceil a b = Ok q \<longleftrightarrow> b \<noteq> 0 \<and> uint q = (uint a + uint b - 1) div uint b"
  for a b :: "'n::len word"
proof (cases "b = 0")
  case True
  then show ?thesis by (simp add: div_ceil_def)
next
  case False
  then have b: "0 < uint b" by (rule uint_pos)
  have m: "a mod b = 0 \<longleftrightarrow> uint a mod uint b = 0"
    by (simp add: word_eq_uint uint_mod_distrib)
  have s: "uint (a div b + 1) = uint a div uint b + 1" if "uint a mod uint b \<noteq> 0"
  proof -
    have q: "0 \<le> uint a div uint b" using b by (simp add: pos_imp_zdiv_nonneg_iff)
    have r: "1 \<le> uint a mod uint b" using that b pos_mod_sign [of "uint b" "uint a"] by linarith
    have "uint a div uint b \<le> uint b * (uint a div uint b)"
      using mult_right_mono [of 1 "uint b" "uint a div uint b"] b q by simp
    moreover have "uint b * (uint a div uint b) + uint a mod uint b = uint a" by simp
    ultimately have "uint a div uint b + 1 \<le> uint a" using r by linarith
    also have "uint a < 2 ^ LENGTH('n)" by (rule uint_less)
    finally have "uint (a div b) + uint (1 :: 'n word) < 2 ^ LENGTH('n)"
      by (simp add: uint_div_distrib)
    from uint_add_exact [OF this] show ?thesis by (simp add: uint_div_distrib)
  qed
  show ?thesis
    using False div_ceil_int [OF b, of "uint a"] s m
    by (auto simp: div_ceil_def word_eq_uint uint_div_distrib)
qed

lemma uint_mul_mod_eq: "m \<noteq> 0 \<Longrightarrow> uint (mul_mod a b m) = (uint a * uint b) mod uint m"
proof -
  assume "m \<noteq> 0"
  then have m: "0 < uint m" by (rule uint_pos)
  have "(uint a * uint b) mod uint m < uint m" using m by simp
  also have "uint m < 2 ^ 256" using uint_less [of m] by simp
  finally show ?thesis
    using m \<open>m \<noteq> 0\<close> by (simp add: mul_mod_def uint_word_of_int)
qed

lemma uint_drop_bit: "uint (drop_bit n x) = uint x div 2 ^ n" for x :: "'n::len word"
  by (subst unsigned_drop_bit_eq) (simp add: drop_bit_eq_div take_bit_int_eq_self)

lemma drop_bit_word_of_int: "drop_bit n x = word_of_int (uint x div 2 ^ n)" for x :: "'n::len word"
  by (metis uint_drop_bit word_of_int_uint)

lemma push_bit_word_of_int: "push_bit n x = word_of_int (uint x * 2 ^ n)" for x :: "'n::len word"
  by (simp add: push_bit_eq_mult)

lemma uint_push_bit: "uint (push_bit n x) = uint x * 2 ^ n mod 2 ^ LENGTH('n)" for x :: "'n::len word"
  by (simp only: push_bit_word_of_int uint_word_of_int)

lemma uint_of_int: "0 \<le> v \<Longrightarrow> v < 2 ^ LENGTH('n) \<Longrightarrow> uint (word_of_int v :: 'n::len word) = v"
  by (simp add: uint_word_of_int)

section \<open>Division rounding up\<close>

text \<open>The ceiling of a quotient over the integers, by its order characterisation.\<close>

definition cdiv :: "int \<Rightarrow> int \<Rightarrow> int" where
  "cdiv a b = (a + b - 1) div b"

lemma cdiv_le: "0 < b \<Longrightarrow> cdiv a b \<le> c \<longleftrightarrow> a \<le> c * b"
proof -
  assume b: "0 < b"
  have "cdiv a b \<le> c \<longleftrightarrow> \<not> c + 1 \<le> (a + b - 1) div b" by (auto simp: cdiv_def)
  also have "\<dots> \<longleftrightarrow> \<not> (c + 1) * b \<le> a + b - 1" using b by (simp add: le_div_int)
  also have "\<dots> \<longleftrightarrow> a \<le> c * b" by (auto simp: algebra_simps)
  finally show ?thesis .
qed

lemma div_le_int: "0 < b \<Longrightarrow> a div b \<le> c \<longleftrightarrow> a < (c + 1) * b" for a b c :: int
  using le_div_int [of b "c + 1" a] by linarith

lemma le_cdiv: "0 < b \<Longrightarrow> c \<le> cdiv a b \<longleftrightarrow> (c - 1) * b < a"
  using cdiv_le [of b a "c - 1"] by linarith

lemma cdiv_mult_ge: "0 < b \<Longrightarrow> a \<le> cdiv a b * b"
  using cdiv_le [of b a "cdiv a b"] by simp

lemma cdiv_nonneg: "0 < b \<Longrightarrow> 0 \<le> a \<Longrightarrow> 0 \<le> cdiv a b"
  by (subst le_cdiv) simp_all

lemma cdiv_cdiv: "0 < a \<Longrightarrow> 0 < b \<Longrightarrow> cdiv (cdiv x b) a = cdiv x (a * b)"
proof -
  assume "0 < a" and "0 < b"
  then have "cdiv (cdiv x b) a \<le> c \<longleftrightarrow> cdiv x (a * b) \<le> c" for c
    by (simp add: cdiv_le mult.assoc)
  then show ?thesis by (meson order_antisym order_refl)
qed

lemma div_div_int: "0 < a \<Longrightarrow> 0 < b \<Longrightarrow> x div b div a = x div (a * b)" for a b x :: int
  by (simp add: zdiv_zmult2_eq mult.commute [of a])

lemma cdiv_div: "0 < b \<Longrightarrow> cdiv a b = (if a mod b = 0 then a div b else a div b + 1)"
  unfolding cdiv_def by (rule div_ceil_int [symmetric])

lemma div_ceil_cdiv: "div_ceil a b = Ok q \<longleftrightarrow> b \<noteq> 0 \<and> uint q = cdiv (uint a) (uint b)"
  for a b :: "'n::len word"
  by (simp add: div_ceil_Ok cdiv_def)

lemma div_ceil_eq: "b \<noteq> 0 \<Longrightarrow> div_ceil a b = Ok (word_of_int (cdiv (uint a) (uint b)))"
  for a b :: "'n::len word"
proof -
  assume b: "b \<noteq> 0"
  have "\<exists>q. div_ceil a b = Ok q" using b by (simp add: div_ceil_def)
  then obtain q where q: "div_ceil a b = Ok q" by blast
  then have "uint q = cdiv (uint a) (uint b)" using div_ceil_cdiv by blast
  then show ?thesis using q by (metis word_of_int_uint)
qed

lemma udiv_eq: "b \<noteq> 0 \<Longrightarrow> udiv a b = Ok (word_of_int (uint a div uint b))" for a b :: "'n::len word"
  by (simp add: udiv_def word_div_def)

section \<open>Signed lemmas\<close>

lemma swrap_id: "0 < n \<Longrightarrow> srange n x \<Longrightarrow> swrap n x = x"
proof -
  assume n: "0 < n" and r: "srange n x"
  have "(2::int) ^ n = 2 * 2 ^ (n - 1)" using n by (cases n) auto
  with r have "(x + 2 ^ (n - 1)) mod 2 ^ n = x + 2 ^ (n - 1)"
    by (simp add: srange_def)
  then show ?thesis by (simp add: swrap_def)
qed

lemma sint_swrap: "sint (word_of_int v :: 'n::len word) = swrap LENGTH('n) v"
  by (simp only: int_word_sint swrap_def)

lemma sint_of_int: "srange LENGTH('n) v \<Longrightarrow> sint (word_of_int v :: 'n::len word) = v"
  by (simp add: sint_swrap swrap_id)

lemma sclamp_id: "srange n x \<Longrightarrow> sclamp n x = x"
  by (auto simp: sclamp_def srange_def)

lemma swrap_range: "0 < n \<Longrightarrow> srange n (swrap n x)"
proof -
  assume n: "0 < n"
  have e: "(2::int) ^ n = 2 * 2 ^ (n - 1)" using n by (cases n) auto
  have "(x + 2 ^ (n - 1)) mod 2 ^ n < 2 ^ n" and "0 \<le> (x + 2 ^ (n - 1)) mod 2 ^ n" by simp_all
  with e show ?thesis by (simp add: swrap_def srange_def)
qed

lemma tdiv_trem: "a = b * tdiv a b + trem a b"
  by (simp add: trem_def)

lemma tdiv_floor: "0 < b \<Longrightarrow> (if a < 0 \<and> trem a b \<noteq> 0 then tdiv a b - 1 else tdiv a b) = a div b"
proof -
  assume b: "0 < b"
  show ?thesis
  proof (cases "a < 0")
    case False
    with b have "tdiv a b = a div b" by (cases "a = 0") (auto simp: tdiv_def)
    with False show ?thesis by simp
  next
    case True
    with b have t: "tdiv a b = - ((- a) div b)" by (simp add: tdiv_def)
    have "trem a b = - ((- a) mod b)"
      by (simp add: trem_def t minus_mult_div_eq_mod [symmetric])
    then have "trem a b \<noteq> 0 \<longleftrightarrow> a mod b \<noteq> 0"
      using b pos_mod_bound [of b a] by (auto simp: zmod_zminus1_eq_if simp del: pos_mod_bound)
    then show ?thesis
      using True b t by (auto simp: zdiv_zminus1_eq_if split: if_splits)
  qed
qed

end
