(* ===== verification/Full_Math.thy ===== *)
theory Full_Math
  imports Dex_Prelude
begin

text \<open>
  \<^verbatim>\<open>src/v3/full_math.rs\<close> and \<^verbatim>\<open>src/v3/unsafe_math.rs\<close>: 512-bit multiply-and-divide on 256-bit
  words. \<open>mul_div\<close> follows the source's Chinese-remainder and Newton-inverse algorithm step by
  step; the theorems show that it computes the exact quotient of the full product, and fails
  exactly when that quotient does not fit.
\<close>

section \<open>Definitions\<close>

definition Q96 :: u256 where
  "Q96 = 2 ^ 96"

text \<open>One Newton step of the inverse: \<^verbatim>\<open>inv *= TWO - denominator * inv\<close>.\<close>

definition newton_step :: "u256 \<Rightarrow> u256 \<Rightarrow> u256" where
  "newton_step d i = i * (2 - d * i)"

definition mul_div :: "u256 \<Rightarrow> u256 \<Rightarrow> u256 \<Rightarrow> u256 res" where
  "mul_div a b denominator =
     (let mm = mul_mod a b U256_MAX;
          prod_0 = a * b;
          prod_1 = mm - prod_0 - (if mm < prod_0 then 1 else 0)
      in if denominator \<le> prod_1 then Err MulDivOverflow
         else if prod_1 = 0 then udiv prod_0 denominator
         else
           let remainder = mul_mod a b denominator;
               prod_1 = prod_1 - (if remainder > prod_0 then 1 else 0);
               prod_0 = prod_0 - remainder;
               twos = (- denominator) AND denominator;
               denominator = denominator div twos;
               prod_0 = prod_0 div twos;
               twos = (- twos) div twos + 1;
               prod_0 = prod_0 OR prod_1 * twos;
               inv = (3 * denominator) XOR 2;
               inv = newton_step denominator inv;
               inv = newton_step denominator inv;
               inv = newton_step denominator inv;
               inv = newton_step denominator inv;
               inv = newton_step denominator inv;
               inv = newton_step denominator inv
           in Ok (prod_0 * inv))"

definition mul_div_rounding_up :: "u256 \<Rightarrow> u256 \<Rightarrow> u256 \<Rightarrow> u256 res" where
  "mul_div_rounding_up a b denominator =
     and_then (mul_div a b denominator) (\<lambda>result.
       if mul_mod a b denominator = 0 then Ok result
       else if result = U256_MAX then Err MulDivOverflow
       else Ok (result + 1))"

definition mul_div_q96 :: "u256 \<Rightarrow> u256 \<Rightarrow> u256 res" where
  "mul_div_q96 a b =
     (let prod0 = a * b;
          mm = mul_mod a b U256_MAX;
          prod1 = mm - prod0 - (if mm < prod0 then 1 else 0)
      in if prod1 \<ge> Q96 then Err MulDivOverflow
         else Ok (drop_bit 96 prod0 OR push_bit 160 prod1))"

text \<open>\<^verbatim>\<open>div_rounding_up\<close> of \<^verbatim>\<open>unsafe_math.rs\<close>.\<close>

definition div_rounding_up :: "u256 \<Rightarrow> u256 \<Rightarrow> u256 res" where
  "div_rounding_up a b =
     and_then (udiv a b) (\<lambda>quotient.
       let remainder = a mod b in
       if remainder = 0 then Ok quotient else Ok (quotient + 1))"

section \<open>The high word of the product\<close>

text \<open>
  A product \<open>p < (M - 1)\<^sup>2\<close>, \<open>M = 2 ^ 256\<close>, is recovered from its remainders modulo \<open>M\<close> and
  \<open>M - 1\<close>: the high word is their difference, less one when it borrows.
\<close>

lemma high_word_int:
  fixes p M :: int
  assumes M: "2 < M" and p0: "0 \<le> p" and p1: "p \<le> (M - 1) * (M - 1)"
  shows "(p mod (M - 1) - p mod M - (if p mod (M - 1) < p mod M then 1 else 0)) mod M = p div M"
proof -
  define h l where "h = p div M" and "l = p mod M"
  have pl: "p = h * M + l" by (simp add: h_def l_def)
  have l: "0 \<le> l" "l < M" using M by (simp_all add: l_def)
  have h: "0 \<le> h" using p0 M by (simp add: h_def pos_imp_zdiv_nonneg_iff)
  have "h * M \<le> (M - 1) * (M - 1)" using pl l p1 by linarith
  also have "\<dots> < (M - 1) * M" using M by (simp add: mult_strict_left_mono)
  finally have h1: "h < M - 1" using M by (simp add: mult_less_cancel_right)
  have e: "p = (h + l) + h * (M - 1)" using pl by (simp add: algebra_simps)
  have mm: "p mod (M - 1) = (h + l) mod (M - 1)" by (subst e) simp
  show ?thesis
  proof (cases "h + l < M - 1")
    case True
    then have "p mod (M - 1) = h + l" using mm h l by simp
    then show ?thesis using h h1 M by (simp flip: l_def h_def)
  next
    case False
    have "(h + l) mod (M - 1) = (h + l - (M - 1)) mod (M - 1)" by (simp add: mod_diff_right_eq)
    also have "\<dots> = h + l - (M - 1)" using False l h h1 by (intro mod_pos_pos_trivial) linarith+
    finally have v: "p mod (M - 1) = h + l - (M - 1)" using mm by simp
    then have lt: "p mod (M - 1) < l" using h1 by linarith
    have "p mod (M - 1) - l - 1 = h - M" using v by linarith
    moreover have "(h - M) mod M = h" using h h1 M by (simp add: mod_diff_right_eq)
    ultimately show ?thesis using lt by (simp flip: l_def h_def)
  qed
qed

lemma uint_prod_bound: "uint a * uint b \<le> (2 ^ 256 - 1) * (2 ^ 256 - 1)" for a b :: u256
  using uint_less [of a] uint_less [of b] by (intro mult_mono) auto

lemma U256_MAX_uint: "uint U256_MAX = 2 ^ 256 - 1"
  by (simp only: U256_MAX_def uint_max) simp

lemma U256_MAX_nonzero: "U256_MAX \<noteq> 0"
  by (simp add: U256_MAX_def)

definition prod_hi :: "u256 \<Rightarrow> u256 \<Rightarrow> u256" where
  "prod_hi a b = (let mm = mul_mod a b U256_MAX; p = a * b in mm - p - (if mm < p then 1 else 0))"

lemma prod_hi_fold:
  "mul_mod a b U256_MAX - a * b - (if mul_mod a b U256_MAX < a * b then 1 else 0) = prod_hi a b"
  by (simp add: prod_hi_def Let_def)

lemma uint_prod_hi: "uint (prod_hi a b) = uint a * uint b div 2 ^ 256"
proof -
  let ?p = "uint a * uint b" and ?M = "2 ^ 256 :: int"
  have mm: "uint (mul_mod a b U256_MAX) = ?p mod (?M - 1)"
    by (simp only: uint_mul_mod_eq [OF U256_MAX_nonzero] U256_MAX_uint)
  have lo: "uint (a * b) = ?p mod ?M" by (simp add: word_int)
  have "uint (prod_hi a b) =
      (?p mod (?M - 1) - ?p mod ?M - (if ?p mod (?M - 1) < ?p mod ?M then 1 else 0)) mod ?M"
    unfolding prod_hi_def Let_def
    by (cases "mul_mod a b U256_MAX < a * b")
      (simp_all add: uint_sub_mod mm lo word_less_def mod_diff_left_eq mod_diff_eq)
  also have "\<dots> = ?p div ?M"
    by (rule high_word_int) (use uint_prod_bound in auto)
  finally show ?thesis .
qed

lemma prod_hi_le_iff:
  assumes "d \<noteq> 0"
  shows "d \<le> prod_hi a b \<longleftrightarrow> 2 ^ 256 \<le> uint a * uint b div uint d"
proof -
  let ?p = "uint a * uint b"
  have d: "0 < uint d" using assms by (rule uint_pos)
  have "d \<le> prod_hi a b \<longleftrightarrow> uint d \<le> ?p div 2 ^ 256" by (simp add: word_le_def uint_prod_hi)
  also have "\<dots> \<longleftrightarrow> uint d * 2 ^ 256 \<le> ?p" by (subst le_div_int) auto
  also have "\<dots> \<longleftrightarrow> 2 ^ 256 \<le> ?p div uint d"
    using d by (simp add: mult.commute le_div_int)
  finally show ?thesis .
qed

section \<open>The power of two in the denominator\<close>

lemma lowbit_odd_int: "(- (2 * j + 1)) AND (2 * j + 1) = (1 :: int)"
proof -
  have a: "- (2 * j + 1) = 2 * NOT j + 1" by (simp add: not_int_def)
  have "(2 * NOT j + 1) AND (2 * j + 1) = 2 * (NOT j AND j) + (1 :: int)"
    by (simp add: and_rec [of "2 * NOT j + 1" "2 * j + 1"])
  then show ?thesis unfolding a by simp
qed

lemma odd_part:
  fixes x :: int
  assumes "0 < x"
  shows "\<exists>k j. x = 2 ^ k * (2 * j + 1)"
proof -
  have "\<exists>k j. int n = 2 ^ k * (2 * j + 1)" if "0 < n" for n :: nat
    using that
  proof (induction n rule: less_induct)
    case (less n)
    show ?case
    proof (cases "even n")
      case True
      then obtain m where m: "n = 2 * m" by (auto elim: evenE)
      with less.prems have "m < n" "0 < m" by simp_all
      with less.IH obtain k j where "int m = 2 ^ k * (2 * j + 1)" by blast
      with m have "int n = 2 ^ Suc k * (2 * j + 1)" by simp
      then show ?thesis by blast
    next
      case False
      then obtain m where "n = 2 * m + 1" by (auto elim: oddE)
      then have "int n = 2 ^ 0 * (2 * int m + 1)" by simp
      then show ?thesis by blast
    qed
  qed
  from this [of "nat x"] assms show ?thesis by simp
qed

lemma lowbit_word:
  fixes d :: "'n::len word"
  assumes "d \<noteq> 0"
  obtains k j where "k < LENGTH('n)" and "uint d = 2 ^ k * (2 * j + 1)" and "(- d) AND d = 2 ^ k"
proof -
  have "0 < uint d" using assms by (rule uint_pos)
  from odd_part [OF this] obtain k j where d: "uint d = 2 ^ k * (2 * j + 1)" by blast
  have j: "0 \<le> j" using d \<open>0 < uint d\<close> by (simp add: zero_less_mult_iff)
  have "(2::int) ^ k * 1 \<le> 2 ^ k * (2 * j + 1)" using j by (intro mult_left_mono) auto
  then have "(2::int) ^ k < 2 ^ LENGTH('n)" using d uint_less [of d] by linarith
  then have k: "k < LENGTH('n)" by simp
  have push: "2 ^ k * x = push_bit k x" for x :: int by (simp add: push_bit_eq_mult)
  have "(- uint d) AND uint d = 2 ^ k * (- (2 * j + 1)) AND 2 ^ k * (2 * j + 1)"
    by (simp only: d mult_minus_right)
  also have "\<dots> = push_bit k (- (2 * j + 1) AND (2 * j + 1))"
    by (simp only: push push_bit_and)
  also have "\<dots> = 2 ^ k" unfolding lowbit_odd_int by (simp add: push_bit_eq_mult)
  finally have i: "(- uint d) AND uint d = 2 ^ k" .
  have "(- d) AND d = word_of_int ((- uint d) AND uint d)"
    by (simp only: of_int_and_eq) simp
  then have "(- d) AND d = 2 ^ k" unfolding i by simp
  with k d show thesis by (rule that)
qed

lemma uint_two_power: "k < LENGTH('n) \<Longrightarrow> uint (2 ^ k :: 'n::len word) = 2 ^ k"
proof -
  assume k: "k < LENGTH('n)"
  have "(2 ^ k :: 'n word) = word_of_int (2 ^ k)" by simp
  then have "uint (2 ^ k :: 'n word) = 2 ^ k mod 2 ^ LENGTH('n)" by (simp only: uint_word_of_int)
  also have "\<dots> = 2 ^ k" using k by (intro mod_pos_pos_trivial) auto
  finally show ?thesis .
qed

lemma twos_complement:
  assumes "k < 256"
  shows "(- (2 ^ k)) div (2 ^ k) + 1 = (2 ^ (256 - k) :: u256)"
proof -
  have k: "k < LENGTH(256)" using assms by simp
  have e: "(2::int) ^ 256 = 2 ^ (256 - k) * 2 ^ k" using assms by (simp flip: power_add)
  have "uint (- (2 ^ k) :: u256) = 2 ^ 256 - 2 ^ k"
    using k by (simp add: uint_word_ariths uint_two_power zmod_zminus1_eq_if del: power_numeral)
  then have "uint ((- (2 ^ k)) div (2 ^ k) :: u256) = (2 ^ 256 - 2 ^ k) div 2 ^ k"
    by (simp only: uint_div_distrib uint_two_power [OF k])
  also have "\<dots> = 2 ^ (256 - k) - 1"
  proof -
    have "(2::int) ^ 256 - 2 ^ k = (2 ^ (256 - k) - 1) * 2 ^ k" unfolding e by (simp add: algebra_simps)
    then show ?thesis by (metis nonzero_mult_div_cancel_right power_not_zero zero_neq_numeral)
  qed
  finally have "(- (2 ^ k)) div (2 ^ k) = (word_of_int (2 ^ (256 - k) - 1) :: u256)"
    by (metis word_of_int_uint)
  then show ?thesis by simp
qed

section \<open>The inverse modulo 2 ^ 256\<close>

lemma inverse_seed_int: "odd D \<Longrightarrow> 16 dvd (1 - D * ((3 * D) XOR 2))" for D :: int
proof -
  assume o: "odd D"
  have t: "x mod 16 = take_bit 4 x" for x :: int by (simp add: take_bit_eq_mod)
  have x: "((3 * D) XOR 2) mod 16 = ((3 * (D mod 16)) mod 16) XOR 2"
    by (simp only: t take_bit_xor mod_mult_right_eq) (simp only: t [symmetric], simp add: mod_mult_right_eq)
  from o have "D mod 16 \<in> {1, 3, 5, 7, 9, 11, 13, 15}" by simp presburger
  then have "(D mod 16 * (((3 * (D mod 16)) mod 16) XOR 2)) mod 16 = 1" by auto
  then have "(D * ((3 * D) XOR 2)) mod 16 = 1" by (simp only: x [symmetric] mod_mult_eq)
  then have "(1::int) mod 16 = (D * ((3 * D) XOR 2)) mod 16" by simp
  then show ?thesis by (rule mod_eq_dvd_iff [THEN iffD1])
qed

lemma newton_step_residual: "1 - d * newton_step d i = (1 - d * i) ^ 2"
  unfolding newton_step_def by (simp add: power2_eq_square algebra_simps)

lemma inverse_correct:
  fixes d :: u256
  assumes "odd (uint d)"
  shows "d * (newton_step d (newton_step d (newton_step d (newton_step d (newton_step d
     (newton_step d ((3 * d) XOR 2))))))) = 1"
proof -
  let ?i = "(3 * d) XOR 2"
  obtain c where c: "1 - uint d * ((3 * uint d) XOR 2) = 16 * c"
    using inverse_seed_int [OF assms] by auto
  have "?i = word_of_int ((3 * uint d) XOR 2)" by (simp only: of_int_xor_eq) simp
  then have "1 - d * ?i = word_of_int (1 - uint d * ((3 * uint d) XOR 2))" by simp
  then have r: "1 - d * ?i = 16 * word_of_int c" unfolding c by simp
  have "(1 - d * ?i) ^ 64 = (16 ^ 64) * word_of_int c ^ 64"
    unfolding r by (simp only: power_mult_distrib)
  also have "(16 ^ 64 :: u256) = 0" by simp
  finally have z: "(1 - d * ?i) ^ 64 = 0" by simp
  have "1 - d * (newton_step d (newton_step d (newton_step d (newton_step d (newton_step d
     (newton_step d ?i)))))) = (1 - d * ?i) ^ 64"
    by (simp only: newton_step_residual power_mult [symmetric]) simp
  with z show ?thesis by (metis eq_iff_diff_eq_0)
qed

section \<open>The two words of the reduced product\<close>

text \<open>
  With \<open>p = h * 2 ^ 256 + l\<close> divisible by \<open>2 ^ k\<close>, shifting \<open>l\<close> down and or-ing in the low bits
  of \<open>h\<close> gives the low word of \<open>p div 2 ^ k\<close>.
\<close>

lemma shift_words:
  fixes h l :: u256
  assumes k: "k < 256" and p: "p = uint h * 2 ^ 256 + uint l" and dvd: "2 ^ k dvd p"
  shows "(l div 2 ^ k) OR h * 2 ^ (256 - k) = word_of_int (p div 2 ^ k)"
proof -
  have e: "(2::int) ^ 256 = 2 ^ (256 - k) * 2 ^ k" using k by (simp flip: power_add)
  have dl: "l div 2 ^ k = drop_bit k l" by (simp add: drop_bit_eq_div)
  have ph: "h * 2 ^ (256 - k) = push_bit (256 - k) h" by (simp add: push_bit_eq_mult)
  have "(l div 2 ^ k) AND h * 2 ^ (256 - k) = 0"
    unfolding dl ph by (rule bit_eqI) (auto simp: bit_simps dest: bit_imp_le_length)
  then have "(l div 2 ^ k) OR h * 2 ^ (256 - k) = l div 2 ^ k + h * 2 ^ (256 - k)"
    by (simp add: disjunctive_add_eq_or)
  also have "\<dots> = word_of_int (uint l div 2 ^ k + uint h * 2 ^ (256 - k))"
  proof -
    have "uint (l div 2 ^ k) = uint l div 2 ^ k" using k by (simp add: uint_div_distrib uint_two_power)
    then have "l div 2 ^ k = word_of_int (uint l div 2 ^ k)" by (metis word_of_int_uint)
    then show ?thesis by simp
  qed
  also have "uint l div 2 ^ k + uint h * 2 ^ (256 - k) = p div 2 ^ k"
  proof -
    have "p = uint l + uint h * 2 ^ (256 - k) * 2 ^ k" unfolding p e by simp
    then show ?thesis by simp
  qed
  finally show ?thesis .
qed

lemma reduced_product:
  fixes a b d :: u256
  assumes d: "d \<noteq> 0"
  defines "r \<equiv> mul_mod a b d"
  shows "uint (prod_hi a b - (if r > a * b then 1 else 0)) * 2 ^ 256 + uint (a * b - r)
    = uint a * uint b - (uint a * uint b) mod uint d"
proof -
  let ?p = "uint a * uint b" and ?M = "2 ^ 256 :: int"
  have d0: "0 < uint d" using d by (rule uint_pos)
  have r: "uint r = ?p mod uint d" unfolding r_def using d by (rule uint_mul_mod_eq)
  have lo: "uint (a * b) = ?p mod ?M" by (simp add: word_int)
  have hi: "uint (prod_hi a b) = ?p div ?M" by (rule uint_prod_hi)
  have p: "?p = ?p div ?M * ?M + ?p mod ?M" by (rule div_mult_mod_eq [symmetric])
  have rp: "?p mod uint d \<le> ?p" using d0 by (intro zmod_le_nonneg_dividend) simp
  show ?thesis
  proof (cases "r > a * b")
    case False
    then have "uint (a * b - r) = uint (a * b) - uint r" by (intro uint_sub_exact) simp
    with False p show ?thesis by (simp only: r lo hi if_False diff_zero)
  next
    case True
    then have lt: "?p mod ?M < uint r" by (simp add: word_less_def lo)
    have "0 \<noteq> ?p div ?M"
    proof
      assume "0 = ?p div ?M"
      with p have "?p mod ?M = ?p" by (metis add_0 mult_zero_left)
      with lt rp r show False by simp
    qed
    moreover have "0 \<le> ?p div ?M" by (simp add: pos_imp_zdiv_nonneg_iff)
    ultimately have "1 \<le> ?p div ?M" by linarith
    then have "uint (prod_hi a b - 1) = ?p div ?M - 1"
      by (subst uint_sub_exact) (simp_all add: word_le_def hi)
    moreover have "uint (a * b - r) = ?p mod ?M - uint r + ?M"
      using lt uint_less [of r] mod_pos_pos_trivial [of "?p mod ?M - uint r + ?M" ?M]
      by (simp add: uint_sub_mod lo)
    ultimately show ?thesis using True p by (simp only: if_True r) (simp add: algebra_simps)
  qed
qed

section \<open>Correctness\<close>

lemma mul_div_wide:
  assumes d: "d \<noteq> 0" and lt: "prod_hi a b < d" and nz: "prod_hi a b \<noteq> 0"
  shows "mul_div a b d = Ok (word_of_int (uint a * uint b div uint d))"
proof -
  let ?p = "uint a * uint b"
  define q where "q = ?p div uint d"
  define r where "r = mul_mod a b d"
  define h where "h = prod_hi a b - (if r > a * b then 1 else 0)"
  define l where "l = a * b - r"
  from lowbit_word [OF d] obtain k j where k: "k < 256"
    and dk: "uint d = 2 ^ k * (2 * j + 1)" and twos: "(- d) AND d = 2 ^ k" by auto
  have p: "uint d * q = uint h * 2 ^ 256 + uint l"
    using reduced_product [OF d, of a b]
    by (simp add: h_def l_def r_def q_def minus_mod_eq_mult_div)
  have ku: "k < LENGTH(256)" using k by simp
  have d': "uint (d div 2 ^ k) = 2 * j + 1"
    by (simp only: uint_div_distrib uint_two_power [OF ku] dk) simp
  then have inv: "(d div 2 ^ k) * (newton_step (d div 2 ^ k) (newton_step (d div 2 ^ k)
     (newton_step (d div 2 ^ k) (newton_step (d div 2 ^ k) (newton_step (d div 2 ^ k)
     (newton_step (d div 2 ^ k) ((3 * (d div 2 ^ k)) XOR 2))))))) = 1"
    by (intro inverse_correct) simp
  have "(l div 2 ^ k) OR h * 2 ^ (256 - k) = word_of_int ((uint d * q) div 2 ^ k)"
    using k p by (rule shift_words) (simp add: dk)
  also have "(uint d * q) div 2 ^ k = q * (2 * j + 1)" by (simp add: dk mult.assoc)
  also have "word_of_int (q * (2 * j + 1)) = word_of_int q * (d div 2 ^ k)"
    by (simp only: d' [symmetric] of_int_mult) simp
  finally have w: "(l div 2 ^ k) OR h * 2 ^ (256 - k) = word_of_int q * (d div 2 ^ k)" .
  have "mul_div a b d = Ok (((l div 2 ^ k) OR h * 2 ^ (256 - k)) *
     (newton_step (d div 2 ^ k) (newton_step (d div 2 ^ k) (newton_step (d div 2 ^ k)
     (newton_step (d div 2 ^ k) (newton_step (d div 2 ^ k)
     (newton_step (d div 2 ^ k) ((3 * (d div 2 ^ k)) XOR 2))))))))"
    using nz not_le [THEN iffD2, OF lt] unfolding mul_div_def Let_def prod_hi_fold twos twos_complement [OF k]
      h_def l_def r_def
    by (simp only: if_False)
  then show ?thesis unfolding w mult.assoc inv by (simp add: q_def)
qed

lemma mul_div_eq:
  "mul_div a b d =
     (if d = 0 \<or> 2 ^ 256 \<le> uint a * uint b div uint d then Err MulDivOverflow
      else Ok (word_of_int (uint a * uint b div uint d)))"
proof -
  show ?thesis
  proof (cases "d \<le> prod_hi a b")
    case True
    then have "mul_div a b d = Err MulDivOverflow" unfolding mul_div_def Let_def prod_hi_fold by simp
    moreover have "d = 0 \<or> 2 ^ 256 \<le> uint a * uint b div uint d"
      using True prod_hi_le_iff [of d a b] by auto
    ultimately show ?thesis by simp
  next
    case False
    then have d: "d \<noteq> 0" by auto
    with False prod_hi_le_iff [OF d, of a b] have fits: "\<not> 2 ^ 256 \<le> uint a * uint b div uint d" by simp
    show ?thesis
    proof (cases "prod_hi a b = 0")
      case True
      then have "uint a * uint b div 2 ^ 256 = 0" using uint_prod_hi [of a b] by simp
      then have "uint a * uint b < 2 ^ 256"
        by (smt (verit) pos_imp_zdiv_pos_iff zero_less_power)
      then have "uint (a * b) = uint a * uint b" by (intro uint_mul_exact) simp
      then have "a * b div d = word_of_int (uint a * uint b div uint d)"
        by (metis uint_div_distrib word_of_int_uint)
      moreover have "mul_div a b d = udiv (a * b) d"
        using False True unfolding mul_div_def Let_def prod_hi_fold by simp
      ultimately show ?thesis using d fits by (simp add: udiv_def)
    next
      case nz: False
      show ?thesis using d fits mul_div_wide [OF d _ nz] False by simp
    qed
  qed
qed

lemma mul_div_Ok:
  "mul_div a b d = Ok q \<longleftrightarrow> d \<noteq> 0 \<and> uint q = uint a * uint b div uint d"
proof (cases "d = 0")
  case True
  then show ?thesis by (simp add: mul_div_eq)
next
  case False
  then have "0 \<le> uint a * uint b div uint d"
    by (simp add: pos_imp_zdiv_nonneg_iff uint_pos)
  then show ?thesis
    using False uint_less [of q] by (auto simp: mul_div_eq word_eq_uint uint_word_of_int)
qed

lemma mul_div_rounding_up_Ok:
  "mul_div_rounding_up a b d = Ok q \<longleftrightarrow>
     d \<noteq> 0 \<and> uint q = (uint a * uint b + uint d - 1) div uint d"
proof (cases "d = 0")
  case True
  then show ?thesis by (simp add: mul_div_rounding_up_def mul_div_eq)
next
  case False
  let ?p = "uint a * uint b"
  have d: "0 < uint d" using False by (rule uint_pos)
  have m: "mul_mod a b d = 0 \<longleftrightarrow> ?p mod uint d = 0"
    using uint_mul_mod_eq [OF False, of a b] by (simp add: word_eq_uint)
  have q0: "0 \<le> ?p div uint d" using d by (simp add: pos_imp_zdiv_nonneg_iff)
  have c: "(?p + uint d - 1) div uint d = (if ?p mod uint d = 0 then ?p div uint d else ?p div uint d + 1)"
    using div_ceil_int [OF d, of ?p] by simp
  show ?thesis
  proof (cases "2 ^ 256 \<le> ?p div uint d")
    case True
    then show ?thesis using False c uint_less [of q]
      by (auto simp: mul_div_rounding_up_def mul_div_eq)
  next
    case fits: False
    define r where "r = (word_of_int (?p div uint d) :: u256)"
    have r: "uint r = ?p div uint d" using fits q0 by (simp add: r_def uint_word_of_int)
    have e: "mul_div a b d = Ok r" using False fits by (simp add: mul_div_eq r_def)
    have s: "uint (r + 1) = uint r + 1" if "r \<noteq> U256_MAX"
      using that uint_less [of r] U256_MAX_uint by (intro uint_add_exact [THEN trans]) (auto simp: word_eq_uint)
    show ?thesis
      using False e m c s r U256_MAX_uint uint_less [of q]
      by (auto simp: mul_div_rounding_up_def word_eq_uint)
  qed
qed

lemma mul_div_q96_eq:
  "mul_div_q96 a b =
     (if 2 ^ 352 \<le> uint a * uint b then Err MulDivOverflow
      else Ok (word_of_int (uint a * uint b div 2 ^ 96)))"
proof -
  let ?p = "uint a * uint b"
  have q: "uint Q96 = 2 ^ 96" unfolding Q96_def by (rule uint_two_power) simp
  have le: "Q96 \<le> prod_hi a b \<longleftrightarrow> 2 ^ 352 \<le> ?p"
    by (simp add: word_le_def q uint_prod_hi le_div_int flip: power_add)
  have p: "?p = uint (prod_hi a b) * 2 ^ 256 + uint (a * b)"
    by (simp only: uint_prod_hi word_int) (simp add: minus_mod_eq_div_mult [symmetric])
  have e: "drop_bit 96 (a * b) OR push_bit 160 (prod_hi a b) = word_of_int (?p div 2 ^ 96)"
  proof -
    have "drop_bit 96 (a * b) AND push_bit 160 (prod_hi a b) = 0"
      by (rule bit_eqI) (auto simp: bit_simps dest: bit_imp_le_length)
    then have "drop_bit 96 (a * b) OR push_bit 160 (prod_hi a b)
        = drop_bit 96 (a * b) + push_bit 160 (prod_hi a b)"
      by (simp add: disjunctive_add_eq_or)
    also have "\<dots> = word_of_int (uint (a * b) div 2 ^ 96 + uint (prod_hi a b) * 2 ^ 160)"
      by (simp only: drop_bit_word_of_int push_bit_word_of_int of_int_add)
    also have "uint (a * b) div 2 ^ 96 + uint (prod_hi a b) * 2 ^ 160 = ?p div 2 ^ 96"
    proof -
      have "?p = uint (a * b) + uint (prod_hi a b) * 2 ^ 160 * 2 ^ 96" unfolding p by simp
      then show ?thesis by simp
    qed
    finally show ?thesis .
  qed
  show ?thesis unfolding mul_div_q96_def Let_def prod_hi_fold le e by simp
qed

lemma mul_div_q96_Ok:
  "mul_div_q96 a b = Ok q \<longleftrightarrow> uint q = uint a * uint b div 2 ^ 96"
proof -
  have "uint a * uint b div 2 ^ 96 < 2 ^ 256 \<longleftrightarrow> uint a * uint b < 2 ^ 352"
    using le_div_int [of "2 ^ 96" "2 ^ 256" "uint a * uint b"] by (simp flip: power_add not_le)
  moreover have "0 \<le> uint a * uint b div 2 ^ 96" by (subst pos_imp_zdiv_nonneg_iff) simp_all
  ultimately show ?thesis using uint_less [of q]
    by (auto simp: mul_div_q96_eq word_eq_uint uint_word_of_int)
qed

lemma mul_div_cdiv:
  "mul_div_rounding_up a b d = Ok q \<longleftrightarrow> d \<noteq> 0 \<and> uint q = cdiv (uint a * uint b) (uint d)"
  by (simp add: mul_div_rounding_up_Ok cdiv_def)

lemma mul_div_rounding_up_eq:
  "mul_div_rounding_up a b d =
     (if d = 0 \<or> 2 ^ 256 \<le> cdiv (uint a * uint b) (uint d) then Err MulDivOverflow
      else Ok (word_of_int (cdiv (uint a * uint b) (uint d))))"
proof (cases "mul_div_rounding_up a b d")
  case (Inl e)
  then have "e = MulDivOverflow"
    by (auto simp: mul_div_rounding_up_def mul_div_eq split: if_splits)
  moreover have "2 ^ 256 \<le> cdiv (uint a * uint b) (uint d)" if "d \<noteq> 0"
  proof (rule ccontr)
    assume "\<not> 2 ^ 256 \<le> cdiv (uint a * uint b) (uint d)"
    moreover have "0 \<le> cdiv (uint a * uint b) (uint d)" using that by (simp add: cdiv_nonneg uint_pos)
    ultimately have "uint (word_of_int (cdiv (uint a * uint b) (uint d)) :: u256) = cdiv (uint a * uint b) (uint d)"
      by (simp add: uint_word_of_int)
    with that have "mul_div_rounding_up a b d = Ok (word_of_int (cdiv (uint a * uint b) (uint d)))"
      unfolding mul_div_cdiv by simp
    with Inl show False by simp
  qed
  ultimately show ?thesis using Inl by auto
next
  case (Inr q)
  then have q: "d \<noteq> 0" "uint q = cdiv (uint a * uint b) (uint d)" by (simp_all add: mul_div_cdiv)
  have "uint q < 2 ^ LENGTH(256)" by (rule uint_less)
  then have "\<not> (d = 0 \<or> 2 ^ 256 \<le> cdiv (uint a * uint b) (uint d))"
    using q(1) unfolding q(2) by simp
  moreover have "mul_div_rounding_up a b d = Ok (word_of_int (cdiv (uint a * uint b) (uint d)))"
    unfolding q(2) [symmetric] word_of_int_uint by (rule Inr)
  ultimately show ?thesis by (simp only: if_False)
qed

section \<open>Properties\<close>

text \<open>C39: \<open>mul_div\<close> returns the exact floor of the full 512-bit product over the divisor, and
  fails exactly when the divisor is zero or that floor does not fit in 256 bits.\<close>

theorem mul_div_exact:
  "mul_div a b d =
     (if d = 0 \<or> 2 ^ 256 \<le> uint a * uint b div uint d then Err MulDivOverflow
      else Ok (word_of_int (uint a * uint b div uint d)))"
  by (rule mul_div_eq)

text \<open>\<open>mul_div_rounding_up\<close> returns the exact ceiling of the full product over the divisor, and
  an overflow error exactly when the divisor is zero or that ceiling does not fit.\<close>

theorem mul_div_rounding_up_exact:
  "mul_div_rounding_up a b d =
     (if d = 0 \<or> 2 ^ 256 \<le> cdiv (uint a * uint b) (uint d) then Err MulDivOverflow
      else Ok (word_of_int (cdiv (uint a * uint b) (uint d))))"
  by (rule mul_div_rounding_up_eq)

text \<open>\<open>mul_div_q96\<close> returns the exact product shifted right by 96 bits, for every
  product below \<open>2 ^ 352\<close>, and an overflow error for every other.\<close>

theorem mul_div_q96_exact:
  "mul_div_q96 a b =
     (if 2 ^ 352 \<le> uint a * uint b then Err MulDivOverflow
      else Ok (word_of_int (uint a * uint b div 2 ^ 96)))"
  by (rule mul_div_q96_eq)

end
