(* ===== verification/Bit_Math.thy ===== *)
theory Bit_Math
  imports Full_Math
begin

text \<open>
  The small numeric helpers of the V3 code: \<^verbatim>\<open>src/v3/bit_math.rs\<close> (most and least significant
  bit), \<^verbatim>\<open>src/v3/liquidity_math.rs\<close> (\<^verbatim>\<open>add_delta\<close>), \<^verbatim>\<open>src/v3/nearest_usable_tick.rs\<close> and the tick and
  word conversions of \<^verbatim>\<open>src/v3/utils.rs\<close>.
\<close>

section \<open>Most and least significant bit\<close>

function bit_count :: "int \<Rightarrow> nat" where
  "bit_count n = (if n \<le> 0 then 0 else Suc (bit_count (n div 2)))"
  by pat_completeness auto
termination
  by (relation "measure nat") auto

declare bit_count.simps [simp del]

text \<open>\<^verbatim>\<open>Uint::leading_zeros\<close> and \<^verbatim>\<open>Uint::trailing_zeros\<close>.\<close>

definition leading_zeros :: "'n::len word \<Rightarrow> nat" where
  "leading_zeros x = LENGTH('n) - bit_count (uint x)"

function low_zeros :: "int \<Rightarrow> nat" where
  "low_zeros n = (if n \<le> 0 \<or> odd n then 0 else Suc (low_zeros (n div 2)))"
  by pat_completeness auto
termination
  by (relation "measure nat") auto

declare low_zeros.simps [simp del]

definition trailing_zeros :: "'n::len word \<Rightarrow> nat" where
  "trailing_zeros x = (if x = 0 then LENGTH('n) else low_zeros (uint x))"

text \<open>\<^verbatim>\<open>BITS - 1 - x.leading_zeros()\<close> on \<^verbatim>\<open>usize\<close>: it wraps for \<open>x = 0\<close> (and panics in a debug build).\<close>

definition most_significant_bit :: "'n::len word \<Rightarrow> u64" where
  "most_significant_bit x = of_nat LENGTH('n) - 1 - of_nat (leading_zeros x)"

definition least_significant_bit :: "'n::len word \<Rightarrow> nat" where
  "least_significant_bit x = trailing_zeros x"

lemma bit_count_bounds:
  "0 < n \<Longrightarrow> 2 ^ (bit_count n - 1) \<le> n \<and> n < 2 ^ bit_count n \<and> 0 < bit_count n"
proof (induction n rule: bit_count.induct)
  case (1 n)
  have s: "bit_count n = Suc (bit_count (n div 2))" using "1.prems" by (subst bit_count.simps) simp
  show ?case
  proof (cases "n div 2 \<le> 0")
    case True
    with "1.prems" have "n = 1" by linarith
    then show ?thesis by (simp add: bit_count.simps)
  next
    case False
    with "1.prems" "1.IH" have ih: "2 ^ (bit_count (n div 2) - 1) \<le> n div 2"
      "n div 2 < 2 ^ bit_count (n div 2)" "0 < bit_count (n div 2)" by auto
    have "(2::int) ^ bit_count (n div 2) = 2 * 2 ^ (bit_count (n div 2) - 1)"
      using ih(3) by (cases "bit_count (n div 2)") auto
    moreover have "n < 2 * 2 ^ bit_count (n div 2)" using ih(2) by linarith
    moreover have "2 * 2 ^ (bit_count (n div 2) - 1) \<le> n" using ih(1) by linarith
    ultimately have "n < 2 ^ bit_count n" and "2 ^ (bit_count n - 1) \<le> n"
      unfolding s by simp_all
    then show ?thesis by (simp add: s)
  qed
qed

lemma bit_count_le: "n < 2 ^ k \<Longrightarrow> bit_count n \<le> k"
proof (cases "0 < n")
  case True
  assume "n < 2 ^ k"
  with bit_count_bounds [OF True] have "(2::int) ^ (bit_count n - 1) < 2 ^ k" by linarith
  then have "bit_count n - 1 < k" by (rule power_less_imp_less_exp [rotated]) simp
  then show ?thesis by linarith
qed (simp add: bit_count.simps)

lemma bit_count_uint: "bit_count (uint x) \<le> LENGTH('n)" for x :: "'n::len word"
  by (rule bit_count_le) simp

lemma msb_nat:
  fixes x :: "'n::len word"
  assumes "x \<noteq> 0" and "LENGTH('n) < 2 ^ 64"
  shows "unat (most_significant_bit x) = bit_count (uint x) - 1"
proof -
  have p: "0 < bit_count (uint x)" using bit_count_bounds [OF uint_pos [OF assms(1)]] by blast
  have le: "bit_count (uint x) \<le> LENGTH('n)" by (rule bit_count_uint)
  have "most_significant_bit x = of_nat (bit_count (uint x) - 1)"
    using p le by (simp add: most_significant_bit_def leading_zeros_def)
  moreover have "bit_count (uint x) - 1 < 2 ^ 64" using le assms(2) by linarith
  ultimately show ?thesis by (simp add: unat_of_nat)
qed

section \<open>Liquidity deltas\<close>

text \<open>\<^verbatim>\<open>u128::checked_add_signed\<close>, an error when the exact sum leaves the range.\<close>

definition add_delta :: "u128 \<Rightarrow> int \<Rightarrow> u128 res" where
  "add_delta x y =
     (if 0 \<le> uint x + y \<and> uint x + y < 2 ^ 128 then Ok (word_of_int (uint x + y))
      else Err LiquidityDeltaOverflow)"

lemma add_delta_Ok: "add_delta x y = Ok z \<longleftrightarrow> uint z = uint x + y"
proof -
  have u: "uint (word_of_int v :: u128) = v" if "0 \<le> v" "v < 2 ^ 128" for v
    using that by (simp add: uint_word_of_int)
  show ?thesis
  proof (cases "0 \<le> uint x + y \<and> uint x + y < 2 ^ 128")
    case True
    then show ?thesis using u [of "uint x + y"] by (simp only: add_delta_def if_True) (metis sum.inject(2) word_of_int_uint)
  next
    case False
    then have "add_delta x y = Err LiquidityDeltaOverflow" by (simp only: add_delta_def if_False)
    moreover have "uint z \<noteq> uint x + y" proof
      assume z: "uint z = uint x + y"
      have "0 \<le> uint z" and "uint z < 2 ^ 128" using uint_less [of z] by simp_all
      with z False show False by simp
    qed
    ultimately show ?thesis by simp
  qed
qed

section \<open>Usable ticks and bitmap words\<close>

definition MAX_TICK :: int where
  "MAX_TICK = 887272"

definition MIN_TICK :: int where
  "MIN_TICK = - MAX_TICK"

definition nearest_usable_tick :: "int \<Rightarrow> int \<Rightarrow> int res" where
  "nearest_usable_tick tick tick_spacing =
     (if \<not> tick_spacing > 0 then Err (Panic (AssertFailed ''TICK_SPACING''))
      else if \<not> (MIN_TICK \<le> tick \<and> tick \<le> MAX_TICK) then Err (Panic (AssertFailed ''TICK_BOUND''))
      else
        let floored_quotient =
              (if tick < 0 \<and> trem tick tick_spacing \<noteq> 0 then tdiv tick tick_spacing - 1
               else tdiv tick tick_spacing);
            floor_remainder = tick - floored_quotient * tick_spacing;
            rounded = (floored_quotient
                + tdiv (floor_remainder + tdiv tick_spacing 2) tick_spacing) * tick_spacing;
            result = (if rounded < MIN_TICK then rounded + tick_spacing
                      else if rounded > MAX_TICK then rounded - tick_spacing
                      else rounded)
        in if srange 24 result then Ok result else Err (Panic UnwrapErr))"

text \<open>\<^verbatim>\<open>tick_to_word\<close> (and the method of the same name of the pool) and \<^verbatim>\<open>word_to_tick_range\<close>, on \<^verbatim>\<open>i32\<close>.\<close>

definition tick_to_word :: "int \<Rightarrow> int \<Rightarrow> int res" where
  "tick_to_word tick tick_spacing =
     (if tick_spacing = 0 then Err (Panic DivByZero)
      else
        let compressed = tdiv tick tick_spacing;
            compressed = (if tick < 0 \<and> trem tick tick_spacing \<noteq> 0 then compressed - 1 else compressed)
        in Ok (drop_bit 8 (swrap 32 compressed)))"

definition word_to_tick_range :: "int \<Rightarrow> int \<Rightarrow> int \<times> int" where
  "word_to_tick_range word tick_spacing =
     (let min_tick = swrap 32 (swrap 32 (push_bit 8 word) * tick_spacing);
          max_tick = swrap 32 (swrap 32 (push_bit 8 (swrap 32 (word + 1))) * tick_spacing - 1)
      in (min_tick, max_tick))"

lemma tdiv_pos: "0 \<le> a \<Longrightarrow> 0 < b \<Longrightarrow> tdiv a b = a div b"
  by (cases "a = 0") (simp_all add: tdiv_def)

lemma floor_rem: "a - a div b * b = a mod b" for a b :: int
  by (simp add: minus_div_mult_eq_mod)

text \<open>The rounded tick, in terms of floor division: the nearest multiple, halves rounding up.\<close>

lemma nearest_usable_tick_eq:
  assumes "0 < s" and "MIN_TICK \<le> t" and "t \<le> MAX_TICK"
  defines "rounded \<equiv> (t div s + (t mod s + s div 2) div s) * s"
  shows "nearest_usable_tick t s =
     (let result = (if rounded < MIN_TICK then rounded + s else if rounded > MAX_TICK then rounded - s else rounded)
      in if srange 24 result then Ok result else Err (Panic UnwrapErr))"
proof -
  have "0 \<le> t mod s + s div 2" using assms(1) by (simp add: pos_imp_zdiv_nonneg_iff)
  then show ?thesis
    using assms(1-3) unfolding nearest_usable_tick_def rounded_def
    by (simp add: Let_def tdiv_floor [OF assms(1)] floor_rem tdiv_pos)
qed

lemma rounded_near:
  fixes t s :: int
  assumes "0 < s"
  shows "2 * \<bar>t - (t div s + (t mod s + s div 2) div s) * s\<bar> \<le> s"
proof -
  have m: "0 \<le> t mod s" "t mod s < s" using assms by simp_all
  show ?thesis
  proof (cases "t mod s + s div 2 < s")
    case True
    then have "(t mod s + s div 2) div s = 0"
      using m assms by (intro div_pos_pos_trivial) (simp_all add: pos_imp_zdiv_nonneg_iff)
    then have e: "t - (t div s + (t mod s + s div 2) div s) * s = t mod s" by (simp add: floor_rem)
    show ?thesis unfolding e using True m by linarith
  next
    case False
    have "(t mod s + s div 2) div s = 1"
    proof -
      have "(t mod s + s div 2) div s = (t mod s + s div 2 - s + s) div s" by simp
      also have "\<dots> = (t mod s + s div 2 - s) div s + 1" using assms by (subst div_add_self2) auto
      also have "(t mod s + s div 2 - s) div s = 0"
        using False m assms by (intro div_pos_pos_trivial) linarith+
      finally show ?thesis by simp
    qed
    then have e: "t - (t div s + (t mod s + s div 2) div s) * s = t mod s - s"
      using floor_rem [of t s] by (simp add: distrib_right)
    have "2 * \<bar>m - s\<bar> \<le> s" if "2 * h \<le> s" "s \<le> m + h" "m < s" for m h :: int
      using that by simp
    from this [of "s div 2" "t mod s"] show ?thesis unfolding e using False m by simp
  qed
qed

section \<open>Properties\<close>

text \<open>For a positive spacing and a tick in bounds, whatever \<open>nearest_usable_tick\<close>
  returns is a multiple of the spacing, and it is a nearest one unless the nearest lies
  outside the tick range, in which case it is the neighbour one spacing inside.\<close>

theorem nearest_usable_tick_nearest:
  assumes "0 < s" and "nearest_usable_tick t s = Ok r"
  shows "s dvd r \<and> MIN_TICK \<le> t \<and> t \<le> MAX_TICK \<and>
    (2 * \<bar>t - r\<bar> \<le> s \<or> r - s < MIN_TICK \<and> 2 * \<bar>t - (r - s)\<bar> \<le> s
       \<or> MAX_TICK < r + s \<and> 2 * \<bar>t - (r + s)\<bar> \<le> s)"
proof -
  obtain m where m: "m = (t div s + (t mod s + s div 2) div s) * s" by blast
  have b: "MIN_TICK \<le> t" "t \<le> MAX_TICK"
    using assms by (auto simp: nearest_usable_tick_def split: if_splits)
  have r: "r = (if m < MIN_TICK then m + s else if m > MAX_TICK then m - s else m)"
    using assms(2) unfolding nearest_usable_tick_eq [OF assms(1) b] m [symmetric] Let_def
    by (metis sum.inject(2) sum.distinct(1))
  have n: "2 * \<bar>t - m\<bar> \<le> s" unfolding m by (rule rounded_near [OF assms(1)])
  have d: "s dvd m" unfolding m by simp
  consider "r = m" | "r = m + s" "m < MIN_TICK" | "r = m - s" "m > MAX_TICK"
    using r by metis
  then show ?thesis using n d b by cases simp_all
qed

theorem nearest_usable_tick_nearest_witness:
  "nearest_usable_tick 95 60 = Ok 120 \<and> (60 :: int) dvd 120"
proof -
  have e: "nearest_usable_tick 95 60 = Ok 120" by code_simp
  with nearest_usable_tick_nearest [OF _ e] show ?thesis by simp
qed

end
