(* ===== verification/Tick_Math.thy ===== *)
theory Tick_Math
  imports Bit_Math
begin

text \<open>
  \<^verbatim>\<open>src/v3/tick_math.rs\<close>: the price of a tick, \<open>sqrt(1.0001)\<close> to the power of the tick in Q64.96,
  and the tick of a price. The price is a chain of up to twenty fixed-point multiplications, one
  for each bit of the tick; the theorems show that the chain stays in range, hits the two documented
  end points exactly and is strictly increasing over the whole tick range.
\<close>

section \<open>Definitions\<close>

definition MIN_SQRT_RATIO :: u160 where
  "MIN_SQRT_RATIO = 4295128739"

definition MAX_SQRT_RATIO :: u160 where
  "MAX_SQRT_RATIO = 1461446703485210103287273052203988822378723970342"

definition MAX_SQRT_RATIO_MINUS_MIN_SQRT_RATIO_MINUS_ONE :: u160 where
  "MAX_SQRT_RATIO_MINUS_MIN_SQRT_RATIO_MINUS_ONE = 1461446703485210103287273052203988822374428841602"

text \<open>The constant of bit 0, then the mask and the constant of each later bit, in the source's order.\<close>

definition ratio_bit_0 :: u256 where
  "ratio_bit_0 = 0xfffcb933bd6fad37aa2d162d1a594001"

definition ratio_table :: "(int \<times> u256) list" where
  "ratio_table =
     [(0x2, 0xfff97272373d413259a46990580e213a),
      (0x4, 0xfff2e50f5f656932ef12357cf3c7fdcc),
      (0x8, 0xffe5caca7e10e4e61c3624eaa0941cd0),
      (0x10, 0xffcb9843d60f6159c9db58835c926644),
      (0x20, 0xff973b41fa98c081472e6896dfb254c0),
      (0x40, 0xff2ea16466c96a3843ec78b326b52861),
      (0x80, 0xfe5dee046a99a2a811c461f1969c3053),
      (0x100, 0xfcbe86c7900a88aedcffc83b479aa3a4),
      (0x200, 0xf987a7253ac413176f2b074cf7815e54),
      (0x400, 0xf3392b0822b70005940c7a398e4b70f3),
      (0x800, 0xe7159475a2c29b7443b29c7fa6e889d9),
      (0x1000, 0xd097f3bdfd2022b8845ad8f792aa5825),
      (0x2000, 0xa9f746462d870fdf8a65dc1f90e061e5),
      (0x4000, 0x70d869a156d2a1b890bb3df62baf32f7),
      (0x8000, 0x31be135f97d08fd981231505542fcfa6),
      (0x10000, 0x9aa508b5b7a84e1c677de54f3e99bc9),
      (0x20000, 0x5d6af8dedb81196699c329225ee604),
      (0x40000, 0x2216e584f5fa1ea926041bedfe98),
      (0x80000, 0x48a170391f7dc42444e8fa2)]"

text \<open>\<^verbatim>\<open>if abs_tick & mask != 0 { ratio = (ratio * c) >> 128 }\<close> for each entry of the table.\<close>

fun ratio_steps :: "(int \<times> u256) list \<Rightarrow> int \<Rightarrow> u256 \<Rightarrow> u256" where
  "ratio_steps [] abs_tick ratio = ratio"
| "ratio_steps ((m, c) # rest) abs_tick ratio =
     ratio_steps rest abs_tick
       (if abs_tick AND m \<noteq> 0 then drop_bit 128 (ratio * c) else ratio)"

text \<open>
  \<^verbatim>\<open>tick.abs()\<close> on \<open>i24\<close> wraps for the least value, hence \<open>swrap 24\<close>. The result narrows to 160
  bits with \<^verbatim>\<open>U160::from\<close>, which panics on a value that does not fit.
\<close>

definition get_sqrt_ratio_at_tick :: "int \<Rightarrow> u160 res" where
  "get_sqrt_ratio_at_tick tick =
     (let abs_tick = swrap 24 \<bar>tick\<bar>
      in if abs_tick > MAX_TICK then Err (InvalidTick tick)
         else
           let ratio = (if abs_tick AND 0x1 \<noteq> 0 then ratio_bit_0 else 2 ^ 128);
               ratio = ratio_steps ratio_table abs_tick ratio
           in and_then (if tick > 0 then udiv U256_MAX ratio else Ok ratio) (\<lambda>ratio.
                to_uint (drop_bit 32 (ratio + 0xffffffff))))"

text \<open>
  One squaring of \<^verbatim>\<open>get_tick_at_sqrt_ratio\<close>: the top bit of the square is the next binary digit of
  the logarithm, and the square is renormalised to 128 bits.
\<close>

definition log_digit :: "u256 \<Rightarrow> u64 \<times> u256" where
  "log_digit r =
     (let square = r * r;
          f = drop_bit 63 (ucast (drop_bit 192 square) :: u64)
      in (f, drop_bit (127 + unat f) square))"

fun log_digits :: "nat \<Rightarrow> nat \<Rightarrow> u256 \<Rightarrow> u64 \<Rightarrow> u64" where
  "log_digits 0 pos r decimals = decimals"
| "log_digits (Suc n) pos r decimals =
     (let (f, r') = log_digit r
      in log_digits n (pos - 1) r' (decimals OR push_bit pos f))"

definition get_tick_at_sqrt_ratio :: "u160 \<Rightarrow> int res" where
  "get_tick_at_sqrt_ratio sqrt_ratio_x96 =
     (if sqrt_ratio_x96 - MIN_SQRT_RATIO > MAX_SQRT_RATIO_MINUS_MIN_SQRT_RATIO_MINUS_ONE
      then Err InvalidSqrtPrice
      else
        let sqrt_ratio_x96_u256 = (ucast sqrt_ratio_x96 :: u256);
            msb = most_significant_bit sqrt_ratio_x96_u256;
            log_2_x64 = push_bit 64 ((ucast msb :: u256) - 96);
            r = drop_bit (unat (msb - 31)) (push_bit 96 sqrt_ratio_x96_u256);
            decimals = log_digits 14 63 r 0;
            log_2_x64 = log_2_x64 OR ucast decimals;
            log_sqrt10001 = log_2_x64 * 255738958999603826347141;
            tick_low = drop_bit 128 (log_sqrt10001 - 3402992956809132418596140100660247210);
            tick_low = sint (ucast tick_low :: u32);
            tick_high = drop_bit 128 (log_sqrt10001 + 291339464771989622907027621153398088495);
            tick_high = sint (ucast tick_high :: u32)
        in if tick_low = tick_high then
             (if srange 24 tick_low then Ok tick_low else Err (Panic UnwrapErr))
           else if \<not> srange 24 tick_high then Err (Panic UnwrapErr)
           else and_then (get_sqrt_ratio_at_tick tick_high) (\<lambda>p.
             let tick = tick_high - (if p > sqrt_ratio_x96 then 1 else 0)
             in if srange 24 tick then Ok tick else Err (Panic UnwrapErr)))"

section \<open>The chain over the integers\<close>

text \<open>
  The same chain on \<open>int\<close>, low bit first: \<open>ratio_chain\<close> consumes one constant and one bit of the
  tick per step. Each step is a floor of a product, hence monotone in the ratio.
\<close>

fun ratio_chain :: "int list \<Rightarrow> nat \<Rightarrow> int \<Rightarrow> int" where
  "ratio_chain [] t x = x"
| "ratio_chain (c # cs) t x = ratio_chain cs (t div 2) (if odd t then x * c div 2 ^ 128 else x)"

definition ratio_constants :: "int list" where
  "ratio_constants = uint ratio_bit_0 # map (\<lambda>(m, c). uint c) ratio_table"

definition ratio_at :: "nat \<Rightarrow> int" where
  "ratio_at t = ratio_chain ratio_constants t (2 ^ 128)"

definition fraction :: "int \<Rightarrow> bool" where
  "fraction c \<longleftrightarrow> 0 \<le> c \<and> c < 2 ^ 128"

lemma fraction_step: "fraction c \<Longrightarrow> 0 \<le> x \<Longrightarrow> 0 \<le> x * c div 2 ^ 128 \<and> x * c div 2 ^ 128 \<le> x"
proof -
  assume c: "fraction c" and x: "0 \<le> x"
  have "x * c \<le> x * 2 ^ 128" using c x by (intro mult_left_mono) (auto simp: fraction_def)
  then have "x * c div 2 ^ 128 \<le> x * 2 ^ 128 div 2 ^ 128" by (intro zdiv_mono1) auto
  moreover have "0 \<le> x * c" using c x by (simp add: fraction_def)
  ultimately show ?thesis by (simp add: pos_imp_zdiv_nonneg_iff)
qed

lemma ratio_chain_decreasing:
  "list_all fraction cs \<Longrightarrow> 0 \<le> x \<Longrightarrow> 0 \<le> ratio_chain cs t x \<and> ratio_chain cs t x \<le> x"
proof (induction cs t x rule: ratio_chain.induct)
  case (2 c cs t x)
  then show ?case using fraction_step [of c x] by (cases "odd t") force+
qed simp

lemma ratio_chain_mono:
  "list_all fraction cs \<Longrightarrow> x \<le> y \<Longrightarrow> ratio_chain cs t x \<le> ratio_chain cs t y"
proof (induction cs arbitrary: t x y)
  case (Cons c cs)
  then have "x * c div 2 ^ 128 \<le> y * c div 2 ^ 128"
    by (intro zdiv_mono1 mult_right_mono) (auto simp: fraction_def)
  with Cons show ?case by simp
qed simp

text \<open>
  A gap relative to the larger value survives a step, losing one part in \<open>n\<close>, as long as the
  value stays large.
\<close>

definition apart :: "int \<Rightarrow> int \<Rightarrow> int \<Rightarrow> bool" where
  "apart n x y \<longleftrightarrow> x \<le> (x - y) * n"

lemma apart_step:
  assumes a: "apart n x y" and n: "0 < n" and c: "fraction c" and xy: "0 \<le> y" "0 \<le> x"
    and big: "n * (n + 1) \<le> x * c div 2 ^ 128"
  shows "apart (n + 1) (x * c div 2 ^ 128) (y * c div 2 ^ 128)"
proof -
  let ?M = "2 ^ 128 :: int"
  define x' where "x' = x * c div ?M"
  define y' where "y' = y * c div ?M"
  have m: "0 \<le> z mod ?M" "z mod ?M < ?M" for z by simp_all
  have x1: "x' * ?M \<le> x * c" and x2: "x * c < x' * ?M + ?M"
    using div_mult_mod_eq [of "x * c" ?M] m [of "x * c"] unfolding x'_def by linarith+
  have y1: "y' * ?M \<le> y * c"
    using div_mult_mod_eq [of "y * c" ?M] m [of "y * c"] unfolding y'_def by linarith
  have "x * c \<le> (x - y) * n * c" using a c by (intro mult_right_mono) (auto simp: apart_def fraction_def)
  then have "x * c \<le> (x * c - y * c) * n" by (simp add: algebra_simps)
  also have "\<dots> \<le> (x' * ?M + ?M - y' * ?M) * n" using x2 y1 n by (intro mult_right_mono) linarith+
  finally have "x' * ?M \<le> ((x' - y' + 1) * n) * ?M" using x1 by (simp add: algebra_simps)
  then have g: "x' \<le> (x' - y' + 1) * n" by (simp add: mult_le_cancel_right)
  have "n * (n + 1) \<le> (x' - y' + 1) * n" using g big unfolding x'_def by linarith
  then have "n + 1 \<le> x' - y' + 1" using n by (metis mult.commute mult_le_cancel_left_pos)
  then have "x' - y' \<ge> n" by linarith
  then have "x' \<le> (x' - y') * (n + 1)" using g by (simp add: algebra_simps)
  then show ?thesis by (simp add: apart_def x'_def y'_def)
qed

lemma apart_chain:
  assumes "list_all fraction cs" and "0 < n" and "0 \<le> x" and "0 \<le> y" and "apart n x y"
    and "(n + int (length cs)) * (n + int (length cs) + 1) \<le> ratio_chain cs t x"
  shows "apart (n + int (length cs)) (ratio_chain cs t x) (ratio_chain cs t y)"
  using assms
proof (induction cs arbitrary: n t x y)
  case (Cons c cs)
  let ?x = "if odd t then x * c div 2 ^ 128 else x"
  let ?y = "if odd t then y * c div 2 ^ 128 else y"
  have c: "fraction c" and cs: "list_all fraction cs" using Cons.prems(1) by simp_all
  have pos: "0 \<le> ?x" "0 \<le> ?y" using fraction_step [OF c] Cons.prems(3,4) by simp_all
  have "(n + 1) * (n + 2) \<le> (n + 1 + int (length cs)) * (n + 1 + int (length cs) + 1)"
    using Cons.prems(2) by (intro mult_mono) linarith+
  also have "\<dots> \<le> ratio_chain cs (t div 2) ?x" using Cons.prems(6) by (simp add: algebra_simps)
  also have "\<dots> \<le> ?x" using ratio_chain_decreasing [OF cs pos(1)] by blast
  finally have big: "n * (n + 1) \<le> ?x" using Cons.prems(2) by (simp add: algebra_simps)
  have "apart (n + 1) ?x ?y"
  proof (cases "odd t")
    case True
    then show ?thesis
      using apart_step [OF Cons.prems(5,2) c Cons.prems(4,3)] big by simp
  next
    case False
    have "0 \<le> x - y"
    proof (rule ccontr)
      assume "\<not> 0 \<le> x - y"
      then have "(x - y) * n < 0" using Cons.prems(2) by (simp add: mult_neg_pos)
      with Cons.prems(3,5) show False by (simp add: apart_def)
    qed
    with False Cons.prems(5) show ?thesis by (simp add: apart_def algebra_simps)
  qed
  then have "apart (n + 1 + int (length cs)) (ratio_chain cs (t div 2) ?x) (ratio_chain cs (t div 2) ?y)"
    using Cons.prems(2,6) pos cs by (intro Cons.IH) (simp_all add: algebra_simps)
  then show ?case by (simp add: algebra_simps)
qed simp

section \<open>Consecutive ticks\<close>

text \<open>
  A tick and its successor agree above the successor's lowest set bit; below it, one runs through
  all the constants and the other through none. \<open>gaps\<close> checks those twenty pairs.
\<close>

fun gaps :: "int list \<Rightarrow> int \<Rightarrow> int \<Rightarrow> bool" where
  "gaps [] x y = True"
| "gaps (c # cs) x y \<longleftrightarrow> apart 20003 x (y * c div 2 ^ 128) \<and> gaps cs (x * c div 2 ^ 128) y"

lemma ratio_chain_Suc_apart:
  assumes "list_all fraction cs" and "gaps cs x y" and "0 \<le> x" and "0 \<le> y"
    and "Suc t < 2 ^ length cs"
    and "int (20003 + length cs) * int (20004 + length cs) \<le> ratio_chain cs t x"
  shows "\<exists>k \<le> length cs. apart (20003 + int k) (ratio_chain cs t x) (ratio_chain cs (Suc t) y)"
  using assms
proof (induction cs arbitrary: t x y)
  case (Cons c cs)
  have c: "fraction c" and cs: "list_all fraction cs" using Cons.prems(1) by simp_all
  show ?case
  proof (cases "even t")
    case True
    let ?y = "y * c div 2 ^ 128"
    have y: "0 \<le> ?y" using fraction_step [OF c Cons.prems(4)] by blast
    have "(20003 + int (length cs)) * (20003 + int (length cs) + 1) \<le> ratio_chain cs (t div 2) x"
      using Cons.prems(6) True by (simp add: algebra_simps)
    then have "apart (20003 + int (length cs)) (ratio_chain cs (t div 2) x) (ratio_chain cs (t div 2) ?y)"
      using Cons.prems cs y by (intro apart_chain) simp_all
    then show ?thesis using True by (intro exI [of _ "length cs"]) simp
  next
    case False
    let ?x = "x * c div 2 ^ 128"
    have x: "0 \<le> ?x" using fraction_step [OF c Cons.prems(3)] by blast
    have s: "Suc t div 2 = Suc (t div 2)" using False by presburger
    have "\<exists>k \<le> length cs. apart (20003 + int k) (ratio_chain cs (t div 2) ?x)
        (ratio_chain cs (Suc (t div 2)) y)"
    proof (rule Cons.IH)
      show "Suc (t div 2) < 2 ^ length cs" using Cons.prems(5) s by simp
      show "int (20003 + length cs) * int (20004 + length cs) \<le> ratio_chain cs (t div 2) ?x"
        using Cons.prems(6) False by (simp add: algebra_simps)
    qed (use Cons.prems cs x in simp_all)
    then obtain k where "k \<le> length cs" and "apart (20003 + int k) (ratio_chain cs (t div 2) ?x)
        (ratio_chain cs (Suc (t div 2)) y)" by blast
    then show ?thesis using False s by (intro exI [of _ k]) simp
  qed
qed simp

section \<open>The constants of the program\<close>

lemma ratio_constants_fraction: "list_all fraction ratio_constants"
  by (simp add: ratio_constants_def ratio_table_def ratio_bit_0_def fraction_def)

lemma ratio_constants_length: "length ratio_constants = 20"
  by (simp add: ratio_constants_def ratio_table_def)

lemma ratio_constants_gaps: "gaps ratio_constants (2 ^ 128) (2 ^ 128)"
  by (simp add: ratio_constants_def ratio_table_def ratio_bit_0_def apart_def)

lemma ratio_at_max: "ratio_at 887272 = 18447437462383981825"
  by (simp add: ratio_at_def ratio_constants_def ratio_table_def ratio_bit_0_def)

lemma ratio_at_bound: "0 \<le> ratio_at t \<and> ratio_at t \<le> 2 ^ 128"
  unfolding ratio_at_def by (rule ratio_chain_decreasing [OF ratio_constants_fraction]) simp

lemma ratio_at_Suc_mono:
  "Suc t < 2 ^ length cs \<Longrightarrow> list_all fraction cs \<Longrightarrow> gaps cs x y \<Longrightarrow> 0 \<le> x \<Longrightarrow> 0 \<le> y
    \<Longrightarrow> ratio_chain cs (Suc t) y \<le> ratio_chain cs t x"
proof (induction cs arbitrary: t x y)
  case (Cons c cs)
  have c: "fraction c" and cs: "list_all fraction cs" using Cons.prems(2) by simp_all
  show ?case
  proof (cases "even t")
    case True
    have "apart 20003 x (y * c div 2 ^ 128)" using Cons.prems(3) by simp
    then have "y * c div 2 ^ 128 \<le> x"
      using Cons.prems(4) by (simp add: apart_def)
    with True cs show ?thesis by (simp add: ratio_chain_mono)
  next
    case False
    then have s: "Suc t div 2 = Suc (t div 2)" by presburger
    then have "Suc (t div 2) < 2 ^ length cs" using Cons.prems(1) by simp
    with False s Cons.prems cs fraction_step [OF c Cons.prems(4)] show ?thesis
      by (simp add: Cons.IH)
  qed
qed simp

lemma ratio_at_antimono: "t \<le> u \<Longrightarrow> u < 2 ^ 20 \<Longrightarrow> ratio_at u \<le> ratio_at t"
proof (induction u rule: dec_induct)
  case (step u)
  have "ratio_at (Suc u) \<le> ratio_at u"
    unfolding ratio_at_def
    using step.prems ratio_constants_fraction ratio_constants_gaps
    by (intro ratio_at_Suc_mono) (simp_all add: ratio_constants_length)
  with step show ?case by simp
qed simp

lemma ratio_at_lower: "t \<le> 887272 \<Longrightarrow> 2 ^ 63 \<le> ratio_at t"
  using ratio_at_antimono [of t 887272] by (simp add: ratio_at_max)

text \<open>The gap between consecutive ratios, in the form the final rounding needs.\<close>

lemma ratio_at_gap:
  assumes "t < 887272"
  shows "ratio_at t \<le> (ratio_at t - ratio_at (Suc t)) * 20023"
proof -
  have big: "(2::int) ^ 63 \<le> ratio_at t" using assms by (intro ratio_at_lower) simp
  have "\<exists>k \<le> length ratio_constants. apart (20003 + int k) (ratio_at t) (ratio_at (Suc t))"
    unfolding ratio_at_def
    using assms ratio_constants_fraction ratio_constants_gaps big
    by (intro ratio_chain_Suc_apart) (simp_all add: ratio_constants_length ratio_at_def)
  then obtain k where k: "k \<le> 20" and a: "ratio_at t \<le> (ratio_at t - ratio_at (Suc t)) * (20003 + int k)"
    by (auto simp: apart_def ratio_constants_length)
  have "ratio_at (Suc t) \<le> ratio_at t" using assms by (intro ratio_at_antimono) simp_all
  then have "(ratio_at t - ratio_at (Suc t)) * (20003 + int k) \<le> (ratio_at t - ratio_at (Suc t)) * 20023"
    using k by (intro mult_left_mono) simp_all
  with a show ?thesis by linarith
qed

section \<open>From the words to the chain\<close>

lemma and_power_two: "x AND 2 ^ n \<noteq> 0 \<longleftrightarrow> odd (x div 2 ^ n)" for x :: int
  by (simp add: and_exp_eq_0_iff_not_bit bit_iff_odd)

lemma uint_ratio_step:
  fixes r c :: u256
  assumes "uint r \<le> 2 ^ 128" and "fraction (uint c)"
  shows "uint (drop_bit 128 (r * c)) = uint r * uint c div 2 ^ 128"
proof -
  have "uint r * uint c \<le> 2 ^ 128 * (2 ^ 128 - 1)"
    using assms by (intro mult_mono) (auto simp: fraction_def)
  then have "uint r * uint c < 2 ^ LENGTH(256)" by simp
  then show ?thesis by (simp only: uint_drop_bit uint_mul_exact)
qed

lemma ratio_steps_chain:
  assumes "map fst tbl = map (\<lambda>i. 2 ^ i) [n..<n + length tbl]"
    and "list_all fraction (map (\<lambda>(m, c). uint c) tbl)" and "uint r \<le> 2 ^ 128"
  shows "uint (ratio_steps tbl (int t) r) = ratio_chain (map (\<lambda>(m, c). uint c) tbl) (t div 2 ^ n) (uint r)"
  using assms
proof (induction tbl arbitrary: n r)
  case (Cons e tbl)
  obtain m c where e: "e = (m, c)" by (cases e)
  have up: "[n..<n + length (e # tbl)] = n # [Suc n..<Suc n + length tbl]"
    by (subst upt_conv_Cons) (auto simp del: upt_Suc)
  have m: "m = 2 ^ n" and ms: "map fst tbl = map (\<lambda>i. 2 ^ i) [Suc n..<Suc n + length tbl]"
    using Cons.prems(1) [unfolded up] e by (simp_all only: list.map fst_conv list.inject)
  have c: "fraction (uint c)" using Cons.prems(2) e by simp
  have b: "int t AND m \<noteq> 0 \<longleftrightarrow> odd (t div 2 ^ n)"
  proof -
    have "int t div 2 ^ n = int (t div 2 ^ n)" by (simp add: zdiv_int)
    then show ?thesis unfolding m and_power_two by (simp only: even_of_nat)
  qed
  let ?r = "if int t AND m \<noteq> 0 then drop_bit 128 (r * c) else r"
  have r: "uint ?r = (if odd (t div 2 ^ n) then uint r * uint c div 2 ^ 128 else uint r)"
    using uint_ratio_step [OF Cons.prems(3) c] b by simp
  have "uint ?r \<le> 2 ^ 128"
    using r Cons.prems(3) fraction_step [OF c, of "uint r"] by auto
  then have "uint (ratio_steps tbl (int t) ?r)
      = ratio_chain (map (\<lambda>(m, c). uint c) tbl) (t div 2 ^ Suc n) (uint ?r)"
    using ms Cons.prems(2) by (intro Cons.IH) simp_all
  then show ?case unfolding e r by (simp add: div_mult2_eq mult.commute [of 2] b)
qed simp

lemma ratio_table_masks: "map fst ratio_table = map (\<lambda>i. 2 ^ i) [1..<1 + length ratio_table]"
  by (simp add: ratio_table_def upt_rec)

lemma ratio_word:
  "uint (ratio_steps ratio_table (int t) (if int t AND 1 \<noteq> 0 then ratio_bit_0 else 2 ^ 128)) = ratio_at t"
proof -
  have b: "int t AND 1 \<noteq> 0 \<longleftrightarrow> odd t" using and_power_two [of "int t" 0] by simp
  let ?r = "if int t AND 1 \<noteq> 0 then ratio_bit_0 else 2 ^ 128"
  have r: "uint ?r = (if odd t then 2 ^ 128 * uint ratio_bit_0 div 2 ^ 128 else 2 ^ 128)"
    unfolding b by (simp add: ratio_bit_0_def)
  have f: "list_all fraction (map (\<lambda>(m, c). uint c) ratio_table)"
    using ratio_constants_fraction by (simp add: ratio_constants_def)
  have "uint ?r \<le> 2 ^ 128" using r by (simp add: ratio_bit_0_def)
  from ratio_steps_chain [OF ratio_table_masks f this, of t]
  show ?thesis unfolding ratio_at_def ratio_constants_def r by simp
qed

text \<open>The price of a tick, as an integer.\<close>

definition tick_price :: "int \<Rightarrow> int" where
  "tick_price t =
     ((if t > 0 then (2 ^ 256 - 1) div ratio_at (nat t) else ratio_at (nat (- t))) + 0xffffffff) div 2 ^ 32"

lemma tick_ratio_bounds:
  assumes "\<bar>t\<bar> \<le> MAX_TICK"
  shows "0 \<le> (if t > 0 then (2 ^ 256 - 1) div ratio_at (nat t) else ratio_at (nat (- t)))"
    and "(if t > 0 then (2 ^ 256 - 1) div ratio_at (nat t) else ratio_at (nat (- t))) < (2 :: int) ^ 191 * 8"
proof -
  have lo: "2 ^ 63 \<le> ratio_at (nat t)" if "t > 0"
    using assms that by (intro ratio_at_lower) (simp add: MAX_TICK_def)
  have "(2 ^ 256 - 1) div ratio_at (nat t) \<le> (2 ^ 256 - 1) div 2 ^ 63" if "t > 0"
    using lo [OF that] by (intro zdiv_mono2) simp_all
  then show "(if t > 0 then (2 ^ 256 - 1) div ratio_at (nat t) else ratio_at (nat (- t))) < (2 :: int) ^ 191 * 8"
    using ratio_at_bound [of "nat (- t)"] by auto
  show "0 \<le> (if t > 0 then (2 ^ 256 - 1) div ratio_at (nat t) else ratio_at (nat (- t)))"
    using lo ratio_at_bound [of "nat (- t)"] by (auto simp: pos_imp_zdiv_nonneg_iff)
qed

section \<open>Strict monotonicity and the range of prices\<close>

lemma round_up_strict: "x + 2 ^ 32 \<le> y \<Longrightarrow> (x + 0xffffffff) div 2 ^ 32 < (y + 0xffffffff) div (2 ^ 32 :: int)"
proof -
  assume "x + 2 ^ 32 \<le> y"
  then have "(x + 0xffffffff + 2 ^ 32) div 2 ^ 32 \<le> (y + 0xffffffff) div (2 ^ 32 :: int)"
    by (intro zdiv_mono1) simp_all
  then show ?thesis by (subst (asm) div_add_self2) simp_all
qed

lemma inverse_gap:
  fixes M R R' :: int
  assumes r: "0 < R'" "R' \<le> R" and gap: "R \<le> (R - R') * 20023" and big: "2 ^ 32 * 20023 \<le> M div R"
  shows "M div R + 2 ^ 32 \<le> M div R'"
proof -
  let ?q = "M div R"
  have R: "0 < R" using r by linarith
  have "?q * R \<le> M" using le_div_int [OF R, of ?q M] by simp
  moreover have "2 ^ 32 * R' \<le> ?q * (R - R')"
  proof -
    have "(2 ^ 32 * R') * 20023 \<le> (2 ^ 32 * R) * 20023" using r by simp
    also have "\<dots> = (2 ^ 32 * 20023) * R" by simp
    also have "\<dots> \<le> ?q * R" using big R by (intro mult_right_mono) simp_all
    also have "\<dots> \<le> ?q * ((R - R') * 20023)" using gap big by (intro mult_left_mono) simp_all
    finally have "(2 ^ 32 * R') * 20023 \<le> (?q * (R - R')) * 20023" by (simp only: mult.assoc)
    then show ?thesis by (rule mult_right_le_imp_le) simp
  qed
  ultimately have "(?q + 2 ^ 32) * R' \<le> M" by (simp add: algebra_simps)
  then show ?thesis using r by (simp add: le_div_int)
qed

lemma tick_price_Suc:
  assumes "MIN_TICK \<le> t" and "t < MAX_TICK"
  shows "tick_price t < tick_price (t + 1)"
proof -
  consider "t < 0" | "t = 0" | "0 < t" by linarith
  then show ?thesis
  proof cases
    case 1
    define s where "s = nat (- t) - 1"
    have s: "nat (- t) = Suc s" "nat (- (t + 1)) = s" using 1 by (simp_all add: s_def)
    have le: "s < 887272" using assms 1 by (simp add: s_def MIN_TICK_def MAX_TICK_def)
    have "2 ^ 63 \<le> ratio_at s" using le by (intro ratio_at_lower) simp
    then have "2 ^ 32 * 20023 \<le> (ratio_at s - ratio_at (Suc s)) * 20023"
      using ratio_at_gap [OF le] by simp
    then have "2 ^ 32 \<le> ratio_at s - ratio_at (Suc s)" by (rule mult_right_le_imp_le) simp
    then have "ratio_at (Suc s) + 2 ^ 32 \<le> ratio_at s" by simp
    from round_up_strict [OF this] show ?thesis using 1 by (simp only: tick_price_def s) simp
  next
    case 2
    then show ?thesis
      by (simp add: tick_price_def ratio_at_def ratio_constants_def ratio_table_def ratio_bit_0_def)
  next
    case 3
    have n: "nat (t + 1) = Suc (nat t)" using 3 by simp
    have lt: "nat t < 887272" using assms by (simp add: MAX_TICK_def)
    have lo: "2 ^ 63 \<le> ratio_at (Suc (nat t))" using lt by (intro ratio_at_lower) simp
    have "ratio_at (Suc (nat t)) \<le> ratio_at (nat t)" using lt by (intro ratio_at_antimono) simp_all
    moreover have "(2 ^ 256 - 1) div 2 ^ 128 \<le> (2 ^ 256 - 1) div ratio_at (nat t)"
      using ratio_at_bound [of "nat t"] calculation lo by (intro zdiv_mono2) simp_all
    ultimately have "(2 ^ 256 - 1) div ratio_at (nat t) + 2 ^ 32 \<le> (2 ^ 256 - 1) div ratio_at (Suc (nat t))"
      using ratio_at_gap [OF lt] lo by (intro inverse_gap) simp_all
    from round_up_strict [OF this] show ?thesis using 3 by (simp only: tick_price_def n) simp
  qed
qed

lemma tick_price_strict_mono:
  assumes "MIN_TICK \<le> t" and "t < u" and "u \<le> MAX_TICK"
  shows "tick_price t < tick_price u"
proof -
  have "tick_price t < tick_price (t + int (Suc n))" if "t + int (Suc n) \<le> MAX_TICK" for n
    using that
  proof (induction n)
    case 0
    then show ?case using tick_price_Suc [of t] assms(1) by simp
  next
    case (Suc n)
    then have "tick_price t < tick_price (t + int (Suc n))" by simp
    also have "\<dots> < tick_price (t + int (Suc n) + 1)" using Suc.prems assms(1) by (intro tick_price_Suc) simp_all
    finally show ?case by (simp add: algebra_simps)
  qed
  from this [of "nat (u - t) - 1"] assms show ?thesis by simp
qed

lemma tick_price_mono: "MIN_TICK \<le> t \<Longrightarrow> t \<le> u \<Longrightarrow> u \<le> MAX_TICK \<Longrightarrow> tick_price t \<le> tick_price u"
  using tick_price_strict_mono [of t u] by (cases "t = u") simp_all

lemma tick_price_ends:
  "tick_price MIN_TICK = uint MIN_SQRT_RATIO" "tick_price MAX_TICK = uint MAX_SQRT_RATIO"
  by (simp_all add: tick_price_def MIN_TICK_def MAX_TICK_def ratio_at_max MIN_SQRT_RATIO_def MAX_SQRT_RATIO_def)

lemma tick_price_range:
  "\<bar>t\<bar> \<le> MAX_TICK \<Longrightarrow> uint MIN_SQRT_RATIO \<le> tick_price t \<and> tick_price t \<le> uint MAX_SQRT_RATIO"
  using tick_price_mono [of MIN_TICK t] tick_price_mono [of t MAX_TICK] tick_price_ends
  by (simp add: MIN_TICK_def)

lemma tick_price_nonneg: "\<bar>t\<bar> \<le> MAX_TICK \<Longrightarrow> 0 \<le> tick_price t"
  using tick_price_range [of t] uint_ge_0 [of MIN_SQRT_RATIO] by (blast intro: order_trans)

lemma uint_tick_price: "\<bar>t\<bar> \<le> MAX_TICK \<Longrightarrow> uint (word_of_int (tick_price t) :: u160) = tick_price t"
proof -
  assume t: "\<bar>t\<bar> \<le> MAX_TICK"
  have "tick_price t < 2 ^ LENGTH(160)"
    using tick_price_range [OF t] uint_less [of MAX_SQRT_RATIO] by (blast intro: le_less_trans)
  with tick_price_nonneg [OF t] show ?thesis by (simp only: uint_word_of_int mod_pos_pos_trivial)
qed

lemma uint_round_up:
  assumes "uint r < 2 ^ 194"
  shows "uint (drop_bit 32 (r + 0xffffffff :: u256)) = (uint r + 0xffffffff) div 2 ^ 32"
proof -
  have "uint r + uint (0xffffffff :: u256) < 2 ^ LENGTH(256)" using assms by simp
  then have "uint (r + 0xffffffff) = uint r + 0xffffffff" by (simp only: uint_add_exact) simp
  then show ?thesis by (simp only: uint_drop_bit)
qed

lemma get_sqrt_ratio_at_tick_Ok:
  assumes t: "\<bar>t\<bar> \<le> MAX_TICK"
  shows "get_sqrt_ratio_at_tick t = Ok (word_of_int (tick_price t))"
proof -
  define r where "r = ratio_steps ratio_table \<bar>t\<bar> (if \<bar>t\<bar> AND 1 \<noteq> 0 then ratio_bit_0 else 2 ^ 128)"
  have r: "uint r = ratio_at (nat \<bar>t\<bar>)" unfolding r_def using ratio_word [of "nat \<bar>t\<bar>"] by simp
  have lo: "2 ^ 63 \<le> uint r" unfolding r using t by (intro ratio_at_lower) (simp add: MAX_TICK_def)
  have "srange 24 \<bar>t\<bar>" using t by (simp add: srange_def MAX_TICK_def)
  then have abs: "swrap 24 \<bar>t\<bar> = \<bar>t\<bar>" by (simp add: swrap_id)
  define v where "v = (if t > 0 then U256_MAX div r else r)"
  have nz: "r \<noteq> 0" using lo by auto
  have v: "uint v = (if t > 0 then (2 ^ 256 - 1) div ratio_at (nat t) else ratio_at (nat (- t)))"
    unfolding v_def using r by (simp add: uint_div_distrib U256_MAX_uint)
  have "uint v < 2 ^ 194" using tick_ratio_bounds(2) [OF t] unfolding v by simp
  from uint_round_up [OF this] have p: "uint (drop_bit 32 (v + 0xffffffff)) = tick_price t"
    unfolding v tick_price_def .
  have "uint MAX_SQRT_RATIO < 2 ^ LENGTH(160)" by (rule uint_less)
  with tick_price_range [OF t] p have fits: "uint (drop_bit 32 (v + 0xffffffff)) < 2 ^ LENGTH(160)"
    by linarith
  have "get_sqrt_ratio_at_tick t = to_uint (drop_bit 32 (v + 0xffffffff))"
    using t nz unfolding get_sqrt_ratio_at_tick_def Let_def abs r_def [symmetric]
    by (simp add: udiv_def v_def)
  also have "\<dots> = Ok (word_of_int (tick_price t))"
    unfolding to_width_Ok using fits p uint_tick_price [OF t] by simp
  finally show ?thesis .
qed

lemma get_sqrt_ratio_at_tick_iff:
  assumes "- (2 ^ 23) < t" and "t < 2 ^ 23"
  shows "get_sqrt_ratio_at_tick t = Ok p \<longleftrightarrow> \<bar>t\<bar> \<le> MAX_TICK \<and> uint p = tick_price t"
proof (cases "\<bar>t\<bar> \<le> MAX_TICK")
  case True
  then show ?thesis using get_sqrt_ratio_at_tick_Ok [OF True] uint_tick_price [OF True]
    by (auto simp: word_eq_uint)
next
  case False
  have "srange 24 \<bar>t\<bar>" using assms by (auto simp: srange_def)
  with False show ?thesis by (simp add: get_sqrt_ratio_at_tick_def swrap_id)
qed

section \<open>Properties\<close>

text \<open>C40: the price of a tick is strictly increasing over the whole tick range: every tick in
  range has a price, and a higher tick has a strictly higher price.\<close>

theorem sqrt_ratio_strictly_increasing:
  assumes "MIN_TICK \<le> t" and "t < u" and "u \<le> MAX_TICK"
  shows "\<exists>p q. get_sqrt_ratio_at_tick t = Ok p \<and> get_sqrt_ratio_at_tick u = Ok q \<and> p < q"
proof -
  have b: "\<bar>t\<bar> \<le> MAX_TICK" "\<bar>u\<bar> \<le> MAX_TICK" using assms by (simp_all add: MIN_TICK_def)
  show ?thesis
    using get_sqrt_ratio_at_tick_Ok [OF b(1)] get_sqrt_ratio_at_tick_Ok [OF b(2)]
      tick_price_strict_mono [OF assms] uint_tick_price [OF b(1)] uint_tick_price [OF b(2)]
    by (simp only: word_less_def sum.inject ex_simps simp_thms)
qed

theorem sqrt_ratio_strictly_increasing_witness:
  "\<exists>p q. get_sqrt_ratio_at_tick (- 60) = Ok p \<and> get_sqrt_ratio_at_tick 887271 = Ok q \<and> p < q"
  by (rule sqrt_ratio_strictly_increasing) (simp_all add: MIN_TICK_def MAX_TICK_def)

text \<open>Every tick above the least \<open>i24\<close> is priced exactly when it is in
  \<open>[MIN_TICK, MAX_TICK]\<close>; its price lies between the documented minimum and maximum, which
  are reached exactly at the two ends; every other tick is the invalid-tick error.\<close>

theorem sqrt_ratio_domain:
  assumes "- (2 ^ 23) < t" and "t < 2 ^ 23"
  shows "(if MIN_TICK \<le> t \<and> t \<le> MAX_TICK
          then \<exists>p. get_sqrt_ratio_at_tick t = Ok p \<and> MIN_SQRT_RATIO \<le> p \<and> p \<le> MAX_SQRT_RATIO
          else get_sqrt_ratio_at_tick t = Err (InvalidTick t)) \<and>
    get_sqrt_ratio_at_tick MIN_TICK = Ok MIN_SQRT_RATIO \<and> get_sqrt_ratio_at_tick MAX_TICK = Ok MAX_SQRT_RATIO"
proof -
  have "get_sqrt_ratio_at_tick t = Err (InvalidTick t)" if "MAX_TICK < \<bar>t\<bar>"
  proof -
    have "srange 24 \<bar>t\<bar>" using assms by (auto simp: srange_def)
    with that show ?thesis by (simp add: get_sqrt_ratio_at_tick_def swrap_id)
  qed
  moreover have "\<exists>p. get_sqrt_ratio_at_tick t = Ok p \<and> MIN_SQRT_RATIO \<le> p \<and> p \<le> MAX_SQRT_RATIO"
    if "\<bar>t\<bar> \<le> MAX_TICK"
    using get_sqrt_ratio_at_tick_Ok [OF that] uint_tick_price [OF that] tick_price_range [OF that]
    by (simp only: word_le_def sum.inject ex_simps simp_thms)
  moreover have "MIN_TICK \<le> t \<and> t \<le> MAX_TICK \<longleftrightarrow> \<bar>t\<bar> \<le> MAX_TICK"
    by (auto simp: MIN_TICK_def)
  ultimately show ?thesis
    using get_sqrt_ratio_at_tick_Ok [of MIN_TICK] get_sqrt_ratio_at_tick_Ok [of MAX_TICK]
    by (auto simp: tick_price_ends MIN_TICK_def [symmetric]) (auto simp: MIN_TICK_def MAX_TICK_def)
qed

theorem sqrt_ratio_domain_witness:
  "get_sqrt_ratio_at_tick 887273 = Err (InvalidTick 887273) \<and> get_sqrt_ratio_at_tick MAX_TICK = Ok MAX_SQRT_RATIO"
  using sqrt_ratio_domain [of 887273] by (simp add: MAX_TICK_def)

lemma uint_sub_wrap: "p < c \<Longrightarrow> uint (p - c) = uint p - uint c + 2 ^ LENGTH('n)" for p c :: "'n::len word"
proof -
  assume "p < c"
  then have "uint (c - p) = uint c - uint p" and "c - p \<noteq> 0"
    by (simp_all add: uint_sub_exact)
  have "uint p < uint c" using \<open>p < c\<close> by (simp add: word_less_def)
  have "0 \<le> uint p - uint c + 2 ^ LENGTH('n)" using uint_less [of c] uint_ge_0 [of p] by linarith
  moreover have "uint p - uint c + 2 ^ LENGTH('n) < 2 ^ LENGTH('n)" using \<open>uint p < uint c\<close> by simp
  ultimately have "(uint p - uint c + 2 ^ LENGTH('n)) mod 2 ^ LENGTH('n) = uint p - uint c + 2 ^ LENGTH('n)"
    by (rule mod_pos_pos_trivial)
  then show ?thesis by (simp add: word_int)
qed

lemma price_guard:
  "p - MIN_SQRT_RATIO > MAX_SQRT_RATIO_MINUS_MIN_SQRT_RATIO_MINUS_ONE \<longleftrightarrow>
     p < MIN_SQRT_RATIO \<or> MAX_SQRT_RATIO \<le> p"
proof (cases "p < MIN_SQRT_RATIO")
  case True
  from uint_sub_wrap [OF this] have "uint (p - MIN_SQRT_RATIO) = uint p - uint MIN_SQRT_RATIO + 2 ^ 160"
    by simp
  then have "uint MAX_SQRT_RATIO_MINUS_MIN_SQRT_RATIO_MINUS_ONE < uint (p - MIN_SQRT_RATIO)"
    by (simp add: MIN_SQRT_RATIO_def MAX_SQRT_RATIO_MINUS_MIN_SQRT_RATIO_MINUS_ONE_def)
      (use uint_ge_0 [of p] in linarith)
  with True show ?thesis by (simp add: word_less_def)
next
  case False
  then have "uint (p - MIN_SQRT_RATIO) = uint p - uint MIN_SQRT_RATIO" by (intro uint_sub_exact) simp
  with False show ?thesis
    unfolding word_less_def word_le_def
    by (simp add: MIN_SQRT_RATIO_def MAX_SQRT_RATIO_def MAX_SQRT_RATIO_MINUS_MIN_SQRT_RATIO_MINUS_ONE_def) linarith
qed

lemma get_sqrt_ratio_errors: "get_sqrt_ratio_at_tick t \<noteq> Err InvalidSqrtPrice"
  by (auto simp: get_sqrt_ratio_at_tick_def Let_def udiv_def to_width_def)

text \<open>The inverse, \<open>get_tick_at_sqrt_ratio\<close>, rejects a price exactly when it is below the
  minimum or not below the maximum; the single wrapped comparison of the code tests both ends.\<close>

theorem tick_at_sqrt_ratio_range:
  "get_tick_at_sqrt_ratio p = Err InvalidSqrtPrice \<longleftrightarrow> p < MIN_SQRT_RATIO \<or> MAX_SQRT_RATIO \<le> p"
proof -
  have "and_then (get_sqrt_ratio_at_tick t) f \<noteq> Err InvalidSqrtPrice"
    if "\<And>q. f q \<noteq> Err InvalidSqrtPrice" for t and f :: "u160 \<Rightarrow> int res"
    using that get_sqrt_ratio_errors [of t] by (cases "get_sqrt_ratio_at_tick t") auto
  then show ?thesis
    unfolding get_tick_at_sqrt_ratio_def price_guard [symmetric] by (simp add: Let_def)
qed

text \<open>The absolute value of the least \<open>i24\<close> wraps to itself, so the bound test of the code lets that tick
  through: its price is the price of tick 0.\<close>

lemma sqrt_ratio_least_i24: "get_sqrt_ratio_at_tick (- (2 ^ 23)) = Ok (2 ^ 96)"
  by code_simp

end
