(* ===== verification/BTree_Map.thy ===== *)
theory BTree_Map
  imports Dex_Prelude
begin

text \<open>
  \<^verbatim>\<open>std::collections::BTreeMap\<close> as the crate uses it: the list of its entries in ascending
  key order. The locale \<open>ordered_map\<close> is the contract the clients rely on (lookups after inserts and
  removals, the entries of an ordered map, the first and the last entry of a range, sums over all
  entries); it is interpreted at the end of the theory on the list model, for the pools' tick maps,
  bin maps and the queue of blocks.
\<close>

section \<open>Operations\<close>

type_synonym ('k, 'v) btree = "('k \<times> 'v) list"

fun bt_get :: "('k::linorder, 'v) btree \<Rightarrow> 'k \<Rightarrow> 'v option" where
  "bt_get [] k = None"
| "bt_get ((j, v) # m) k = (if k = j then Some v else bt_get m k)"

fun bt_insert :: "'k::linorder \<Rightarrow> 'v \<Rightarrow> ('k, 'v) btree \<Rightarrow> ('k, 'v) btree" where
  "bt_insert k v [] = [(k, v)]"
| "bt_insert k v ((j, w) # m) =
     (if k < j then (k, v) # (j, w) # m
      else if k = j then (k, v) # m
      else (j, w) # bt_insert k v m)"

fun bt_remove :: "'k::linorder \<Rightarrow> ('k, 'v) btree \<Rightarrow> ('k, 'v) btree" where
  "bt_remove k [] = []"
| "bt_remove k ((j, w) # m) = (if k = j then m else (j, w) # bt_remove k m)"

text \<open>\<^verbatim>\<open>map.range(lo..=hi)\<close>, which panics when the range is empty by construction.\<close>

definition bt_range :: "'k::linorder \<Rightarrow> 'k \<Rightarrow> ('k, 'v) btree \<Rightarrow> ('k, 'v) btree res" where
  "bt_range lo hi m =
     (if hi < lo then Err (Panic (AssertFailed ''range start is greater than range end''))
      else Ok (filter (\<lambda>(k, _). lo \<le> k \<and> k \<le> hi) m))"

definition bt_range_to :: "'k::linorder \<Rightarrow> ('k, 'v) btree \<Rightarrow> ('k, 'v) btree" where
  "bt_range_to hi m = filter (\<lambda>(k, _). k \<le> hi) m"

definition bt_range_from :: "'k::linorder \<Rightarrow> ('k, 'v) btree \<Rightarrow> ('k, 'v) btree" where
  "bt_range_from lo m = filter (\<lambda>(k, _). lo \<le> k) m"

text \<open>\<^verbatim>\<open>.next()\<close> and \<^verbatim>\<open>.next_back()\<close> of a range.\<close>

definition first_key :: "('k, 'v) btree \<Rightarrow> 'k option" where
  "first_key m = (case m of [] \<Rightarrow> None | (k, _) # _ \<Rightarrow> Some k)"

definition last_key :: "('k, 'v) btree \<Rightarrow> 'k option" where
  "last_key m = (if m = [] then None else Some (fst (last m)))"

definition bt_inv :: "('k::linorder, 'v) btree \<Rightarrow> bool" where
  "bt_inv m \<longleftrightarrow> sorted_wrt (<) (map fst m)"

section \<open>The contract of an ordered map\<close>

locale ordered_map =
  fixes empty :: 'm
    and get :: "'m \<Rightarrow> 'k::linorder \<Rightarrow> 'v option"
    and insert :: "'k \<Rightarrow> 'v \<Rightarrow> 'm \<Rightarrow> 'm"
    and remove :: "'k \<Rightarrow> 'm \<Rightarrow> 'm"
    and entries :: "'m \<Rightarrow> ('k \<times> 'v) list"
    and inv :: "'m \<Rightarrow> bool"
  assumes inv_empty: "inv empty"
    and inv_insert: "inv m \<Longrightarrow> inv (insert k v m)"
    and inv_remove: "inv m \<Longrightarrow> inv (remove k m)"
    and get_empty: "get empty k = None"
    and get_insert: "inv m \<Longrightarrow> get (insert k v m) j = (if j = k then Some v else get m j)"
    and get_remove: "inv m \<Longrightarrow> get (remove k m) j = (if j = k then None else get m j)"
    and entries_sorted: "inv m \<Longrightarrow> sorted_wrt (<) (map fst (entries m))"
    and entries_get: "inv m \<Longrightarrow> (k, v) \<in> set (entries m) \<longleftrightarrow> get m k = Some v"
begin

lemma entries_distinct: "inv m \<Longrightarrow> distinct (map fst (entries m))"
  using entries_sorted by (metis strict_sorted_iff)

lemma entries_finite: "inv m \<Longrightarrow> finite {k. get m k \<noteq> None}"
proof -
  assume m: "inv m"
  have "{k. get m k \<noteq> None} = fst ` set (entries m)"
    using entries_get [OF m] by (force simp: image_iff)
  then show ?thesis by simp
qed

text \<open>The sum of a quantity over the entries, and what one insertion or removal changes.\<close>

definition total :: "('k \<Rightarrow> 'v \<Rightarrow> int) \<Rightarrow> 'm \<Rightarrow> int" where
  "total f m = (\<Sum>(k, v) \<leftarrow> entries m. f k v)"

definition part :: "('k \<Rightarrow> 'v \<Rightarrow> int) \<Rightarrow> 'v option \<Rightarrow> 'k \<Rightarrow> int" where
  "part f ov k = (case ov of None \<Rightarrow> 0 | Some v \<Rightarrow> f k v)"

lemma total_get:
  assumes m: "inv m"
  shows "total f m = (\<Sum>k \<in> {k. get m k \<noteq> None}. part f (get m k) k)"
proof -
  have d: "distinct (entries m)" and i: "inj_on fst (set (entries m))"
    using entries_distinct [OF m] by (simp_all add: distinct_map)
  have "total f m = (\<Sum>e \<in> set (entries m). case e of (k, v) \<Rightarrow> f k v)"
    unfolding total_def by (rule sum_list_distinct_conv_sum_set [OF d])
  also have "\<dots> = (\<Sum>e \<in> set (entries m). part f (get m (fst e)) (fst e))"
    by (rule sum.cong) (auto simp: entries_get [OF m] part_def)
  also have "\<dots> = (\<Sum>k \<in> fst ` set (entries m). part f (get m k) k)"
    using i by (simp add: sum.reindex)
  also have "fst ` set (entries m) = {k. get m k \<noteq> None}"
    using entries_get [OF m] by (force simp: image_iff)
  finally show ?thesis .
qed

lemma total_subset:
  assumes m: "inv m" and A: "finite A" "{k. get m k \<noteq> None} \<subseteq> A"
  shows "total f m = (\<Sum>k \<in> A. part f (get m k) k)"
  unfolding total_get [OF m] using A
  by (intro sum.mono_neutral_left) (auto simp: part_def)

lemma total_change:
  assumes m: "inv m" and n: "inv n" and eq: "\<And>j. j \<noteq> k \<Longrightarrow> get n j = get m j"
  shows "total f n = total f m - part f (get m k) k + part f (get n k) k"
proof -
  let ?A = "Set.insert k ({k. get m k \<noteq> None} \<union> {k. get n k \<noteq> None})"
  have A: "finite ?A" using entries_finite [OF m] entries_finite [OF n] by simp
  have "total f n = (\<Sum>j \<in> ?A. part f (get n j) j)" by (rule total_subset [OF n A]) auto
  also have "\<dots> = part f (get n k) k + (\<Sum>j \<in> ?A - {k}. part f (get n j) j)"
    by (rule sum.remove [OF A]) simp
  also have "(\<Sum>j \<in> ?A - {k}. part f (get n j) j) = (\<Sum>j \<in> ?A - {k}. part f (get m j) j)"
    by (rule sum.cong) (auto simp: eq)
  also have "\<dots> = (\<Sum>j \<in> ?A. part f (get m j) j) - part f (get m k) k"
    using A by (subst sum.remove [OF A, of k]) auto
  also have "(\<Sum>j \<in> ?A. part f (get m j) j) = total f m"
    by (rule total_subset [OF m A, symmetric]) auto
  finally show ?thesis by simp
qed

lemma total_insert: "inv m \<Longrightarrow> total f (insert k v m) = total f m - part f (get m k) k + f k v"
  using total_change [of m "insert k v m" k f] by (simp add: inv_insert get_insert part_def)

lemma total_remove: "inv m \<Longrightarrow> total f (remove k m) = total f m - part f (get m k) k"
  using total_change [of m "remove k m" k f] by (simp add: inv_remove get_remove part_def)

text \<open>The first and the last key of a filtered map are its least and its greatest.\<close>

lemma first_key_iff:
  assumes m: "inv m"
  shows "first_key (filter (\<lambda>(k, _). P k) (entries m)) = Some k \<longleftrightarrow>
    get m k \<noteq> None \<and> P k \<and> (\<forall>j. get m j \<noteq> None \<and> P j \<longrightarrow> k \<le> j)"
proof -
  let ?f = "filter (\<lambda>(k, _). P k) (entries m)"
  have s: "sorted_wrt (<) (map fst ?f)"
    using entries_sorted [OF m] by (simp add: sorted_wrt_map sorted_wrt_filter)
  have mem: "j \<in> fst ` set ?f \<longleftrightarrow> get m j \<noteq> None \<and> P j" for j
    using entries_get [OF m] by (force simp: image_iff)
  show ?thesis
  proof (cases ?f)
    case Nil
    then have "first_key ?f = None" and "\<not> (get m j \<noteq> None \<and> P j)" for j
      using mem [of j] by (simp_all add: first_key_def)
    then show ?thesis by (metis option.distinct(1))
  next
    case (Cons e es)
    obtain a v where e: "e = (a, v)" by (cases e)
    have first: "first_key ?f = Some a" unfolding Cons e by (simp add: first_key_def)
    have a: "get m a \<noteq> None \<and> P a" unfolding mem [symmetric] Cons e by simp
    have "a \<le> j" if "get m j \<noteq> None \<and> P j" for j
      using that s unfolding mem [symmetric] unfolding Cons e by auto
    with a first show ?thesis by (metis antisym option.inject)
  qed
qed

lemma last_key_iff:
  assumes m: "inv m"
  shows "last_key (filter (\<lambda>(k, _). P k) (entries m)) = Some k \<longleftrightarrow>
    get m k \<noteq> None \<and> P k \<and> (\<forall>j. get m j \<noteq> None \<and> P j \<longrightarrow> j \<le> k)"
proof -
  let ?f = "filter (\<lambda>(k, _). P k) (entries m)"
  have s: "sorted_wrt (<) (map fst ?f)"
    using entries_sorted [OF m] by (simp add: sorted_wrt_map sorted_wrt_filter)
  have mem: "j \<in> fst ` set ?f \<longleftrightarrow> get m j \<noteq> None \<and> P j" for j
    using entries_get [OF m] by (force simp: image_iff)
  show ?thesis
  proof (cases ?f rule: rev_cases)
    case Nil
    then have "last_key ?f = None" and "\<not> (get m j \<noteq> None \<and> P j)" for j
      using mem [of j] by (simp_all add: last_key_def)
    then show ?thesis by (metis option.distinct(1))
  next
    case (snoc es e)
    obtain a v where e: "e = (a, v)" by (cases e)
    have first: "last_key ?f = Some a" unfolding snoc e by (simp add: last_key_def)
    have a: "get m a \<noteq> None \<and> P a" unfolding mem [symmetric] snoc e by simp
    have "j \<le> a" if "get m j \<noteq> None \<and> P j" for j
      using that s unfolding mem [symmetric] unfolding snoc e by (auto simp: sorted_wrt_append)
    with a first show ?thesis by (metis antisym option.inject)
  qed
qed

lemma no_key:
  assumes m: "inv m"
  shows "filter (\<lambda>(k, _). P k) (entries m) = [] \<longleftrightarrow> (\<forall>j. get m j \<noteq> None \<longrightarrow> \<not> P j)"
proof -
  have "filter (\<lambda>(k, _). P k) (entries m) = [] \<longleftrightarrow> (\<forall>j v. (j, v) \<in> set (entries m) \<longrightarrow> \<not> P j)"
    by (auto simp: filter_empty_conv)
  then show ?thesis using entries_get [OF m] by auto
qed

lemma first_key_None:
  "inv m \<Longrightarrow> first_key (filter (\<lambda>(k, _). P k) (entries m)) = None \<longleftrightarrow> (\<forall>j. get m j \<noteq> None \<longrightarrow> \<not> P j)"
  using no_key [of m P] by (cases "filter (\<lambda>(k, _). P k) (entries m)") (auto simp: first_key_def)

lemma last_key_None:
  "inv m \<Longrightarrow> last_key (filter (\<lambda>(k, _). P k) (entries m)) = None \<longleftrightarrow> (\<forall>j. get m j \<noteq> None \<longrightarrow> \<not> P j)"
  using no_key [of m P] by (simp add: last_key_def)

end

section \<open>The list model keeps the contract\<close>

lemma bt_get_below: "(\<forall>e \<in> set m. k < fst e) \<Longrightarrow> bt_get m k = None"
  by (induction m) auto

lemma bt_keys_insert: "fst ` set (bt_insert k v m) = Set.insert k (fst ` set m)"
  by (induction k v m rule: bt_insert.induct) (auto simp: insert_commute)

lemma bt_set_remove: "set (bt_remove k m) \<subseteq> set m"
  by (induction k m rule: bt_remove.induct) auto

lemma bt_inv_Cons: "bt_inv ((j, w) # m) \<longleftrightarrow> (\<forall>k \<in> fst ` set m. j < k) \<and> bt_inv m"
  by (simp add: bt_inv_def)

lemma bt_inv_insert: "bt_inv m \<Longrightarrow> bt_inv (bt_insert k v m)"
proof (induction k v m rule: bt_insert.induct)
  case (2 k v j w m)
  then have IH: "\<not> k < j \<Longrightarrow> k \<noteq> j \<Longrightarrow> bt_inv (bt_insert k v m)"
    and below: "\<forall>i \<in> fst ` set m. j < i" and m: "bt_inv m"
    by (simp_all add: bt_inv_Cons)
  show ?case
  proof (cases k j rule: linorder_cases)
    case less
    then have "\<forall>i \<in> fst ` set m. k < i" using below by (blast intro: less_trans)
    with less below m show ?thesis by (simp add: bt_inv_Cons)
  next
    case equal
    with below m show ?thesis by (simp add: bt_inv_Cons)
  next
    case greater
    then have "\<not> k < j" and "k \<noteq> j" by auto
    with below IH greater show ?thesis by (simp add: bt_inv_Cons bt_keys_insert)
  qed
qed (simp add: bt_inv_def)

lemma bt_inv_remove: "bt_inv m \<Longrightarrow> bt_inv (bt_remove k m)"
proof (induction m)
  case (Cons e m)
  then show ?case
    using bt_set_remove [of k m] by (cases e) (auto simp: bt_inv_Cons)
qed (simp add: bt_inv_def)

lemma bt_get_insert: "bt_inv m \<Longrightarrow> bt_get (bt_insert k v m) j = (if j = k then Some v else bt_get m j)"
  by (induction m) (auto simp: bt_inv_Cons)

lemma bt_get_remove: "bt_inv m \<Longrightarrow> bt_get (bt_remove k m) j = (if j = k then None else bt_get m j)"
proof (induction m)
  case (Cons e m)
  then show ?case by (cases e) (auto simp: bt_inv_Cons bt_get_below)
qed simp

lemma bt_get_set: "bt_inv m \<Longrightarrow> (k, v) \<in> set m \<longleftrightarrow> bt_get m k = Some v"
  by (induction m) (force simp: bt_inv_Cons)+

lemma bt_remove_insert: "bt_remove i (bt_insert i t m) = bt_remove i m" if "bt_inv m"
  using that
proof (induction m)
  case (Cons e m)
  obtain k w where e: "e = (k, w)" by (cases e)
  have "bt_remove i m = m" if "i < k"
    using that Cons.prems unfolding e
    by (induction m) (auto simp: bt_inv_Cons)
  then show ?case using Cons unfolding e by (auto simp: bt_inv_Cons)
qed simp

lemma bt_keys_get: "bt_inv m \<Longrightarrow> k \<in> fst ` set m \<longleftrightarrow> bt_get m k \<noteq> None"
proof -
  assume inv: "bt_inv m"
  have "k \<in> fst ` set m \<longleftrightarrow> (\<exists>v. (k, v) \<in> set m)" by force
  then show ?thesis using bt_get_set [OF inv] by auto
qed

lemma bt_eqI:
  assumes "bt_inv m" and "bt_inv n" and "\<And>k. bt_get m k = bt_get n k"
  shows "m = n"
  using assms
proof (induction m arbitrary: n)
  case Nil
  then show ?case using bt_keys_get [of n] by (cases n) force+
next
  case (Cons e m)
  obtain k v where e: "e = (k, v)" by (cases e)
  have kn: "bt_get n k = Some v" using Cons.prems(3) [of k] by (simp add: e)
  then obtain k' v' n' where n: "n = (k', v') # n'" by (cases n) auto
  have "k = k'"
  proof (rule ccontr)
    assume ne: "k \<noteq> k'"
    have "bt_get ((k, v) # m) k' = Some v'" using Cons.prems(3) [of k'] by (simp add: e n)
    then have "k' \<in> fst ` set m" "k \<in> fst ` set n'"
      using ne kn Cons.prems(1,2) bt_keys_get [of m k'] bt_keys_get [of n' k] by (auto simp: e n bt_inv_Cons)
    then have "k < k'" "k' < k" using Cons.prems(1,2) by (simp_all add: e n bt_inv_Cons del: ball_simps)
    then show False by simp
  qed
  moreover from this kn have "v = v'" by (simp add: n)
  moreover have "m = n'"
  proof (rule Cons.IH)
    fix j
    have "bt_get m k = None" "bt_get n' k = None"
      using Cons.prems(1,2) \<open>k = k'\<close> by (auto simp: e n bt_inv_Cons intro!: bt_get_below)
    then show "bt_get m j = bt_get n' j"
      using Cons.prems(3) [of j] \<open>k = k'\<close> by (cases "j = k") (auto simp: e n)
  qed (use Cons.prems in \<open>simp_all add: e n bt_inv_Cons\<close>)
  ultimately show ?case by (simp add: e n)
qed

interpretation bt: ordered_map "[]" bt_get bt_insert bt_remove "\<lambda>m. m" bt_inv
  by unfold_locales
    (simp_all add: bt_inv_insert bt_inv_remove bt_get_insert bt_get_remove bt_get_set,
     simp_all add: bt_inv_def)

lemmas bt_simps = bt_get_insert bt_get_remove bt_inv_insert bt_inv_remove

end
