(* ===== verification/Tick_Map.thy ===== *)
theory Tick_Map
  imports BTree_Map Bit_Math
begin

text \<open>
  \<^verbatim>\<open>src/v3/tick.rs\<close>: the initialized ticks of a pool, an ordered map from tick index to tick,
  and the search for the tick where the next swap step ends. Tick indices are \<open>i32\<close>; where the
  code's arithmetic can leave that range its wrap-around is written out.
\<close>

section \<open>Definitions\<close>

record tick =
  index :: int
  liquidity_net :: int
  liquidity_gross :: u128

type_synonym tick_map = "(int, tick) btree"

datatype tick_search = WordBounded int | NextInitialized

definition get_tick :: "tick_map \<Rightarrow> int \<Rightarrow> tick res" where
  "get_tick m tick = (case bt_get m tick of None \<Rightarrow> Err TickNotFound | Some t \<Rightarrow> Ok t)"

text \<open>\<^verbatim>\<open>.map_or((default, false), |(&t, _)| (t, true))\<close>.\<close>

definition found_or :: "int \<Rightarrow> int option \<Rightarrow> int \<times> bool" where
  "found_or d r = (case r of None \<Rightarrow> (d, False) | Some t \<Rightarrow> (t, True))"

text \<open>\<^verbatim>\<open>div_euclid\<close> by a positive divisor is floor division.\<close>

definition next_initialized_tick :: "tick_map \<Rightarrow> int \<Rightarrow> bool \<Rightarrow> tick_search \<Rightarrow> (int \<times> bool) res" where
  "next_initialized_tick m tick lte search =
     (case search of
        NextInitialized \<Rightarrow>
          if lte then Ok (found_or tick (last_key (bt_range_to tick m)))
          else Ok (found_or tick (first_key (bt_range_from (swrap 32 (tick + 1)) m)))
      | WordBounded tick_spacing \<Rightarrow>
          if tick_spacing \<le> 0 then Err (TickSpacingNotPositive tick_spacing)
          else
            let compressed = tick div tick_spacing
            in if lte then
                 let word_start = swrap 32 (push_bit 8 (drop_bit 8 compressed));
                     lo = swrap 32 (word_start * tick_spacing);
                     hi = swrap 32 (compressed * tick_spacing)
                 in and_then (bt_range lo hi m) (\<lambda>r. Ok (found_or lo (last_key r)))
               else
                 let next = swrap 32 (compressed + 1);
                     word_end = swrap 32 (push_bit 8 (drop_bit 8 next) + 255);
                     lo = swrap 32 (next * tick_spacing);
                     hi = swrap 32 (word_end * tick_spacing)
                 in and_then (bt_range lo hi m) (\<lambda>r. Ok (found_or hi (first_key r))))"

text \<open>The trait \<^verbatim>\<open>TickIndex\<close>: compression rounding towards negative infinity, and the bitmap position.\<close>

definition compress :: "int \<Rightarrow> int \<Rightarrow> int res" where
  "compress tick tick_spacing =
     (if \<not> tick_spacing > 0 then Err (Panic (AssertFailed ''TICK_SPACING''))
      else if trem tick tick_spacing < 0 then Ok (tdiv tick tick_spacing - 1)
      else Ok (tdiv tick tick_spacing))"

definition position :: "int \<Rightarrow> int \<times> u8" where
  "position tick = (drop_bit 8 tick, word_of_int (tick AND 0xff))"

definition from_i24 :: "int \<Rightarrow> int" where
  "from_i24 v = v"

definition to_i24 :: "int \<Rightarrow> int res" where
  "to_i24 v = (if srange 24 v then Ok v else Err (Panic UnwrapErr))"

section \<open>Word arithmetic of the search\<close>

text \<open>The bound under which none of the search's \<open>i32\<close> products can wrap.\<close>

definition in_ticks :: "int \<Rightarrow> bool" where
  "in_ticks t \<longleftrightarrow> MIN_TICK - 1 \<le> t \<and> t \<le> MAX_TICK"

definition spacing_ok :: "int \<Rightarrow> bool" where
  "spacing_ok s \<longleftrightarrow> 0 < s \<and> s < 2 ^ 22"

lemma word_floor: "push_bit 8 (drop_bit 8 c) = c - c mod 256" for c :: int
  by (simp add: push_bit_eq_mult drop_bit_eq_div minus_mod_eq_div_mult)

definition word_low :: "int \<Rightarrow> int \<Rightarrow> int" where
  "word_low t s = (t div s - t div s mod 256) * s"

definition word_high :: "int \<Rightarrow> int \<Rightarrow> int" where
  "word_high t s = ((t div s + 1) - (t div s + 1) mod 256 + 255) * s"

lemma floor_bounds:
  fixes t s :: int
  assumes "0 < s"
  shows "t div s * s \<le> t" and "t < (t div s + 1) * s"
proof -
  show "t div s * s \<le> t" using le_div_int [OF assms, of "t div s" t] by simp
  show "t < (t div s + 1) * s" using div_le_int [OF assms, of t "t div s"] by simp
qed

lemma word_low_bounds:
  assumes "0 < s"
  shows "word_low t s \<le> t div s * s" and "t - 256 * s < word_low t s"
proof -
  let ?c = "t div s"
  have m: "0 \<le> ?c mod 256" "?c mod 256 \<le> 255" by simp_all
  show "word_low t s \<le> ?c * s" unfolding word_low_def using m assms by (intro mult_right_mono) simp_all
  have "(?c - 255) * s \<le> word_low t s"
    unfolding word_low_def using m assms by (intro mult_right_mono) simp_all
  moreover have "(?c - 255) * s = (?c + 1) * s - 256 * s" by (simp add: algebra_simps)
  ultimately show "t - 256 * s < word_low t s" using floor_bounds(2) [OF assms, of t] by linarith
qed

lemma word_high_bounds:
  assumes "0 < s"
  shows "(t div s + 1) * s \<le> word_high t s" and "word_high t s \<le> t + 256 * s"
proof -
  let ?c = "t div s + 1"
  have m: "0 \<le> ?c mod 256" "?c mod 256 \<le> 255" by simp_all
  show "?c * s \<le> word_high t s" unfolding word_high_def using m assms by (intro mult_right_mono) simp_all
  have "word_high t s \<le> (?c + 255) * s"
    unfolding word_high_def using m assms by (intro mult_right_mono) simp_all
  moreover have "(?c + 255) * s = t div s * s + 256 * s" by (simp add: algebra_simps)
  ultimately show "word_high t s \<le> t + 256 * s" using floor_bounds(1) [OF assms, of t] by linarith
qed

lemma small_i32: "\<bar>x\<bar> \<le> 1075838976 \<Longrightarrow> swrap 32 x = x" for x :: int
  by (rule swrap_id) (auto simp: srange_def)

lemma div_abs_le: "0 < s \<Longrightarrow> \<bar>t div s\<bar> \<le> \<bar>t\<bar>" for t s :: int
proof -
  assume s: "0 < s"
  show ?thesis
  proof (cases "0 \<le> t")
    case True
    then show ?thesis using s zdiv_mono2 [of t 1 s] by (simp add: pos_imp_zdiv_nonneg_iff)
  next
    case False
    then have "t div 1 \<le> t div s" using s by (intro zdiv_mono2_neg) simp_all
    moreover have "t div s < 0" using False s by (simp add: neg_imp_zdiv_neg_iff pos_imp_zdiv_neg_iff)
    ultimately show ?thesis by simp
  qed
qed

lemma word_bounded_eq:
  assumes t: "in_ticks t" and s: "spacing_ok s"
  shows "next_initialized_tick m t lte (WordBounded s) =
    (if lte then Ok (found_or (word_low t s)
         (last_key (filter (\<lambda>(k, _). word_low t s \<le> k \<and> k \<le> t div s * s) m)))
     else Ok (found_or (word_high t s)
         (first_key (filter (\<lambda>(k, _). (t div s + 1) * s \<le> k \<and> k \<le> word_high t s) m))))"
proof -
  have s0: "0 < s" "s < 4194304" using s by (simp_all add: spacing_ok_def)
  have tb: "\<bar>t\<bar> \<le> 1048576" using t by (auto simp: in_ticks_def MIN_TICK_def MAX_TICK_def)
  have c: "\<bar>t div s\<bar> \<le> 1048576" using div_abs_le [OF s0(1), of t] tb by linarith
  have m: "0 \<le> t div s mod 256" "t div s mod 256 \<le> 255"
    "0 \<le> (t div s + 1) mod 256" "(t div s + 1) mod 256 \<le> 255" by simp_all
  have fb: "t div s * s \<le> t" "t < (t div s + 1) * s" by (rule floor_bounds [OF s0(1)])+
  note low = word_low_bounds [OF s0(1), of t] and high = word_high_bounds [OF s0(1), of t]
  have w: "swrap 32 (t div s - t div s mod 256) = t div s - t div s mod 256"
    "swrap 32 (t div s + 1) = t div s + 1"
    "swrap 32 (t div s + 1 - (t div s + 1) mod 256 + 255) = t div s + 1 - (t div s + 1) mod 256 + 255"
    using c m by (intro small_i32; simp)+
  have p: "swrap 32 (word_low t s) = word_low t s" "swrap 32 (t div s * s) = t div s * s"
    "swrap 32 ((t div s + 1) * s) = (t div s + 1) * s" "swrap 32 (word_high t s) = word_high t s"
    using low high fb tb s0 by (intro small_i32; linarith)+
  have r: "\<not> t div s * s < word_low t s" "\<not> word_high t s < (t div s + 1) * s"
    using low high by simp_all
  have lo: "swrap 32 (swrap 32 (push_bit 8 (drop_bit 8 (t div s))) * s) = word_low t s"
    unfolding word_floor w(1) by (simp only: word_low_def [symmetric] p(1))
  have hi: "swrap 32 (swrap 32 (push_bit 8 (drop_bit 8 (t div s + 1)) + 255) * s) = word_high t s"
    unfolding word_floor w(3) by (simp only: word_high_def [symmetric] p(4))
  have ns: "\<not> s \<le> 0" using s0 by simp
  show ?thesis
    by (simp only: next_initialized_tick_def tick_search.case Let_def lo hi p(2) w(2) p(3) ns
        bt_range_def r if_False and_then.simps)
qed

section \<open>What the search finds\<close>

text \<open>The search result as a specification: \<open>searched\<close> says which ticks the search passed over.\<close>

definition initialized :: "tick_map \<Rightarrow> int \<Rightarrow> bool" where
  "initialized m t \<longleftrightarrow> bt_get m t \<noteq> None"

lemma next_down_unbounded:
  assumes "bt_inv m" and "next_initialized_tick m t True NextInitialized = Ok (n, i)"
  shows "n \<le> t \<and> (i \<longrightarrow> initialized m n) \<and> (\<forall>k. initialized m k \<and> k \<le> t \<longrightarrow> i \<and> k \<le> n)"
  using assms bt.last_key_iff [OF assms(1), of "\<lambda>k. k \<le> t"] bt.last_key_None [OF assms(1), of "\<lambda>k. k \<le> t"]
  by (auto simp: next_initialized_tick_def found_or_def bt_range_to_def initialized_def split: option.splits)

lemma next_up_unbounded:
  assumes "bt_inv m" and "in_ticks t" and "next_initialized_tick m t False NextInitialized = Ok (n, i)"
  shows "(if i then t < n \<and> initialized m n else n = t) \<and> (\<forall>k. initialized m k \<and> t < k \<longrightarrow> i \<and> n \<le> k)"
proof -
  have w: "swrap 32 (t + 1) = t + 1"
    using assms(2) by (intro small_i32) (auto simp: in_ticks_def MIN_TICK_def MAX_TICK_def)
  show ?thesis
    using assms bt.first_key_iff [OF assms(1), of "\<lambda>k. t + 1 \<le> k"] bt.first_key_None [OF assms(1), of "\<lambda>k. t + 1 \<le> k"]
    by (auto simp: next_initialized_tick_def found_or_def bt_range_from_def initialized_def w split: option.splits)
qed

lemma next_down_word:
  assumes "bt_inv m" and "in_ticks t" and "spacing_ok s"
    and "next_initialized_tick m t True (WordBounded s) = Ok (n, i)"
  shows "word_low t s \<le> n \<and> n \<le> t \<and> (i \<longrightarrow> initialized m n) \<and> (\<not> i \<longrightarrow> n = word_low t s)
    \<and> (\<forall>k. initialized m k \<and> word_low t s \<le> k \<and> k \<le> t div s * s \<longrightarrow> i \<and> k \<le> n)"
proof -
  have s: "0 < s" using assms(3) by (simp add: spacing_ok_def)
  let ?P = "\<lambda>k. word_low t s \<le> k \<and> k \<le> t div s * s"
  from assms show ?thesis
    using bt.last_key_iff [OF assms(1), of ?P] bt.last_key_None [OF assms(1), of ?P]
      word_low_bounds(1) [OF s, of t] floor_bounds(1) [OF s, of t]
    unfolding word_bounded_eq [OF assms(2,3)]
    by (auto simp: found_or_def initialized_def split: option.splits)
qed

lemma next_up_word:
  assumes "bt_inv m" and "in_ticks t" and "spacing_ok s"
    and "next_initialized_tick m t False (WordBounded s) = Ok (n, i)"
  shows "t < n \<and> n \<le> word_high t s \<and> (i \<longrightarrow> initialized m n) \<and> (\<not> i \<longrightarrow> n = word_high t s)
    \<and> (\<forall>k. initialized m k \<and> (t div s + 1) * s \<le> k \<and> k \<le> word_high t s \<longrightarrow> i \<and> n \<le> k)"
proof -
  have s: "0 < s" using assms(3) by (simp add: spacing_ok_def)
  let ?P = "\<lambda>k. (t div s + 1) * s \<le> k \<and> k \<le> word_high t s"
  from assms show ?thesis
    using bt.first_key_iff [OF assms(1), of ?P] bt.first_key_None [OF assms(1), of ?P]
      word_high_bounds(1) [OF s, of t] floor_bounds(2) [OF s, of t]
    unfolding word_bounded_eq [OF assms(2,3)]
    by (auto simp: found_or_def initialized_def split: option.splits)
qed

text \<open>A tick aligned to the spacing and above \<open>t\<close> is not below the next grid point.\<close>

lemma grid_above: "0 < s \<Longrightarrow> s dvd k \<Longrightarrow> t < k \<Longrightarrow> (t div s + 1) * s \<le> k" for s k t :: int
proof -
  assume s: "0 < s" and "s dvd k" and "t < k"
  then obtain c where k: "k = c * s" by (auto simp: dvd_def mult.commute)
  have "t div s * s \<le> t" by (rule floor_bounds(1) [OF s])
  then have "t div s * s < c * s" using \<open>t < k\<close> k by simp
  then have "t div s < c" using s by simp
  then have "t div s + 1 \<le> c" by simp
  then show ?thesis unfolding k using s by (intro mult_right_mono) simp_all
qed

lemma grid_below: "0 < s \<Longrightarrow> s dvd k \<Longrightarrow> k \<le> t \<Longrightarrow> k \<le> t div s * s" for s k t :: int
proof -
  assume s: "0 < s" and "s dvd k" and "k \<le> t"
  then obtain c where k: "k = c * s" by (auto simp: dvd_def mult.commute)
  then have "c \<le> t div s" using \<open>k \<le> t\<close> s by (simp add: le_div_int)
  then show ?thesis unfolding k using s by (intro mult_right_mono) simp_all
qed

section \<open>Properties\<close>

text \<open>The word-bounded search, on a map whose initialized ticks are aligned to the spacing,
  never passes an initialized tick: every initialized tick strictly between the start and the
  result (the start itself included when searching down) would have been found, the result moves
  in the direction of the search by at most 256 spacings, and it is flagged initialized exactly
  when it is.\<close>

theorem word_bounded_search_exact:
  assumes inv: "bt_inv m" and t: "in_ticks t" and s: "spacing_ok s"
    and aligned: "\<And>k. bt_get m k \<noteq> None \<Longrightarrow> s dvd k"
    and found: "next_initialized_tick m t lte (WordBounded s) = Ok (n, i)"
  shows "(i \<longleftrightarrow> bt_get m n \<noteq> None) \<and>
    (if lte then n \<le> t \<and> t - 256 * s < n \<and> (\<forall>k. n < k \<and> k \<le> t \<longrightarrow> bt_get m k = None)
     else t < n \<and> n \<le> t + 256 * s \<and> (\<forall>k. t < k \<and> k < n \<longrightarrow> bt_get m k = None))"
proof -
  have s0: "0 < s" using s by (simp add: spacing_ok_def)
  show ?thesis
  proof (cases lte)
    case True
    then have f: "next_initialized_tick m t True (WordBounded s) = Ok (n, i)" using found by simp
    from next_down_word [OF inv t s f]
    have n: "word_low t s \<le> n" "n \<le> t" "i \<Longrightarrow> initialized m n"
      and all: "\<And>k. initialized m k \<Longrightarrow> word_low t s \<le> k \<Longrightarrow> k \<le> t div s * s \<Longrightarrow> i \<and> k \<le> n"
      by blast+
    have seen: "i \<and> k \<le> n" if "initialized m k" "n \<le> k" "k \<le> t" for k
      using all [OF that(1)] n(1) that(2) grid_below [OF s0 _ that(3)] aligned [of k] that(1)
      by (simp add: initialized_def)
    then have "bt_get m k = None" if "n < k" "k \<le> t" for k
      using that seen [of k] unfolding initialized_def by linarith
    moreover have "i \<longleftrightarrow> bt_get m n \<noteq> None" using seen [of n] n(2,3) unfolding initialized_def by auto
    ultimately show ?thesis using True n(1,2) word_low_bounds(2) [OF s0, of t] by simp
  next
    case False
    then have f: "next_initialized_tick m t False (WordBounded s) = Ok (n, i)" using found by simp
    from next_up_word [OF inv t s f]
    have n: "t < n" "n \<le> word_high t s" "i \<Longrightarrow> initialized m n"
      and all: "\<And>k. initialized m k \<Longrightarrow> (t div s + 1) * s \<le> k \<Longrightarrow> k \<le> word_high t s \<Longrightarrow> i \<and> n \<le> k"
      by blast+
    have seen: "i \<and> n \<le> k" if "initialized m k" "t < k" "k \<le> n" for k
      using all [OF that(1)] n(2) that(3) grid_above [OF s0 _ that(2)] aligned [of k] that(1)
      by (simp add: initialized_def)
    then have "bt_get m k = None" if "t < k" "k < n" for k
      using that seen [of k] unfolding initialized_def by linarith
    moreover have "i \<longleftrightarrow> bt_get m n \<noteq> None" using seen [of n] n(1,3) unfolding initialized_def by auto
    ultimately show ?thesis using False n(1,2) word_high_bounds(2) [OF s0, of t] by simp
  qed
qed

definition sample_ticks :: tick_map where
  "sample_ticks =
     [(-600, \<lparr>index = -600, liquidity_net = 1, liquidity_gross = 1\<rparr>),
      (600, \<lparr>index = 600, liquidity_net = -1, liquidity_gross = 1\<rparr>)]"

theorem word_bounded_search_exact_witness:
  "next_initialized_tick sample_ticks 599 True (WordBounded 60) = Ok (0, False) \<and>
     bt_get sample_ticks 60 = None \<and> bt_get sample_ticks 540 = None"
proof -
  have found: "next_initialized_tick sample_ticks 599 True (WordBounded 60) = Ok (0, False)"
    by code_simp
  have "bt_inv sample_ticks" "in_ticks 599" "spacing_ok 60"
    by (simp_all add: sample_ticks_def bt_inv_def in_ticks_def MIN_TICK_def MAX_TICK_def spacing_ok_def)
  moreover have "60 dvd k" if "bt_get sample_ticks k \<noteq> None" for k
    using that by (auto simp: sample_ticks_def split: if_splits)
  ultimately show ?thesis using word_bounded_search_exact [OF _ _ _ _ found] found by simp
qed

text \<open>The unbounded search finds the greatest initialized tick at or below the start, or the
  least one strictly above it; with none there, it answers with the start itself, uninitialized.\<close>

theorem unbounded_search_exact:
  assumes inv: "bt_inv m" and t: "in_ticks t"
  shows "\<exists>n i. next_initialized_tick m t lte NextInitialized = Ok (n, i) \<and>
    (if i then bt_get m n \<noteq> None \<and>
          (if lte then n \<le> t \<and> (\<forall>k. n < k \<and> k \<le> t \<longrightarrow> bt_get m k = None)
           else t < n \<and> (\<forall>k. t < k \<and> k < n \<longrightarrow> bt_get m k = None))
     else n = t \<and> (\<forall>k. (if lte then k \<le> t else t < k) \<longrightarrow> bt_get m k = None))"
proof -
  have "\<exists>x. next_initialized_tick m t lte NextInitialized = Ok x"
    by (simp add: next_initialized_tick_def)
  then obtain n i where f: "next_initialized_tick m t lte NextInitialized = Ok (n, i)" by auto
  show ?thesis
  proof (cases lte)
    case True
    have "n = t" if "\<not> i" using f that True
      by (auto simp: next_initialized_tick_def found_or_def split: option.splits)
    moreover have "next_initialized_tick m t True NextInitialized = Ok (n, i)" using True f by simp
    ultimately show ?thesis using True f next_down_unbounded [OF inv, of t n i]
      by (intro exI [of _ n] exI [of _ i]) (auto simp: initialized_def not_le)
  next
    case False
    then have g: "next_initialized_tick m t False NextInitialized = Ok (n, i)" using f by simp
    show ?thesis using False f next_up_unbounded [OF inv t g]
      by (intro exI [of _ n] exI [of _ i]) (auto simp: initialized_def not_le split: if_splits)
  qed
qed

theorem unbounded_search_exact_witness:
  "next_initialized_tick sample_ticks 600 False NextInitialized = Ok (600, False)"
proof -
  have "bt_inv sample_ticks" "in_ticks 600"
    by (simp_all add: sample_ticks_def bt_inv_def in_ticks_def MIN_TICK_def MAX_TICK_def)
  from unbounded_search_exact [OF this, of False] show ?thesis
    by (auto simp: sample_ticks_def split: if_splits)
qed

end
