(* ===== verification/Sqrt_Price_Math.thy ===== *)
theory Sqrt_Price_Math
  imports Full_Math
begin

text \<open>
  \<^verbatim>\<open>src/v3/sqrt_price_math.rs\<close>: the amount of a token that a price move needs, and the price an
  amount moves to. Prices are \<open>Uint\<close>s of any width (the pools use 160 bits), liquidity is a
  \<open>u128\<close>, and \<open>liquidity \<open><<\<close> 96\<close> is the first numerator throughout.
\<close>

section \<open>Definitions\<close>

definition U160_MAX :: u256 where
  "U160_MAX = from_limbs [- 1, - 1, 0xffffffff, 0]"

definition get_next_sqrt_price_from_amount_0_rounding_up ::
    "'n::len word \<Rightarrow> u128 \<Rightarrow> u256 \<Rightarrow> bool \<Rightarrow> 'n word res" where
  "get_next_sqrt_price_from_amount_0_rounding_up sqrt_price_x96 liquidity amount add =
     (if amount = 0 then Ok sqrt_price_x96
      else and_then (to_uint sqrt_price_x96) (\<lambda>price.
        let numerator_1 = push_bit 96 (ucast liquidity :: u256);
            product = amount * price
        in if add then
             and_then (udiv product amount) (\<lambda>q.
               let denominator = numerator_1 + product
               in if q = price \<and> denominator \<ge> numerator_1
                  then and_then (mul_div_rounding_up numerator_1 price denominator) to_uint
                  else and_then (udiv numerator_1 price) (\<lambda>q.
                    and_then (div_ceil numerator_1 (q + amount)) to_uint))
           else
             and_then (udiv product amount) (\<lambda>q.
               if \<not> (q = price \<and> numerator_1 > product) then Err PriceOverflow
               else
                 let denominator = numerator_1 - product
                 in and_then (mul_div_rounding_up numerator_1 price denominator)
                      (to_width SafeCastToU160Overflow))))"

definition get_next_sqrt_price_from_amount_1_rounding_down ::
    "'n::len word \<Rightarrow> u128 \<Rightarrow> u256 \<Rightarrow> bool \<Rightarrow> 'n word res" where
  "get_next_sqrt_price_from_amount_1_rounding_down sqrt_price_x96 liquidity amount add =
     and_then (to_uint sqrt_price_x96) (\<lambda>price :: u256.
       let liquidity = (ucast liquidity :: u256)
       in if add then
            and_then (if amount \<le> U160_MAX then udiv (push_bit 96 amount) liquidity
                      else mul_div amount Q96 liquidity) (\<lambda>quotient.
              to_width SafeCastToU160Overflow (price + quotient))
          else
            and_then (if amount \<le> U160_MAX then div_ceil (push_bit 96 amount) liquidity
                      else mul_div_rounding_up amount Q96 liquidity) (\<lambda>quotient.
              if price > quotient then to_uint (price - quotient)
              else Err InsufficientLiquidity))"

definition get_next_sqrt_price_from_input ::
    "'n::len word \<Rightarrow> u128 \<Rightarrow> u256 \<Rightarrow> bool \<Rightarrow> 'n word res" where
  "get_next_sqrt_price_from_input sqrt_price_x96 liquidity amount_in zero_for_one =
     (if sqrt_price_x96 = 0 \<or> liquidity = 0 then Err InvalidPriceOrLiquidity
      else if zero_for_one
      then get_next_sqrt_price_from_amount_0_rounding_up sqrt_price_x96 liquidity amount_in True
      else get_next_sqrt_price_from_amount_1_rounding_down sqrt_price_x96 liquidity amount_in True)"

definition get_next_sqrt_price_from_output ::
    "'n::len word \<Rightarrow> u128 \<Rightarrow> u256 \<Rightarrow> bool \<Rightarrow> 'n word res" where
  "get_next_sqrt_price_from_output sqrt_price_x96 liquidity amount_out zero_for_one =
     (if sqrt_price_x96 = 0 \<or> liquidity = 0 then Err InvalidPriceOrLiquidity
      else if zero_for_one
      then get_next_sqrt_price_from_amount_1_rounding_down sqrt_price_x96 liquidity amount_out False
      else get_next_sqrt_price_from_amount_0_rounding_up sqrt_price_x96 liquidity amount_out False)"

definition sort2 :: "'n::len word \<Rightarrow> 'n word \<Rightarrow> (u256 \<times> u256) res" where
  "sort2 a b =
     (let (lo, hi) = (if a > b then (b, a) else (a, b))
      in and_then (to_uint lo) (\<lambda>lo. and_then (to_uint hi) (\<lambda>hi. Ok (lo, hi))))"

definition get_amount_0_delta :: "'n::len word \<Rightarrow> 'n word \<Rightarrow> u128 \<Rightarrow> bool \<Rightarrow> u256 res" where
  "get_amount_0_delta sqrt_ratio_a_x96 sqrt_ratio_b_x96 liquidity round_up =
     and_then (sort2 sqrt_ratio_a_x96 sqrt_ratio_b_x96) (\<lambda>(a, b).
       if a = 0 then Err InvalidPrice
       else
         let numerator_1 = push_bit 96 (ucast liquidity :: u256);
             numerator_2 = b - a
         in if round_up
            then and_then (mul_div_rounding_up numerator_1 numerator_2 b) (\<lambda>x. div_ceil x a)
            else and_then (mul_div numerator_1 numerator_2 b) (\<lambda>x. udiv x a))"

definition get_amount_1_delta :: "'n::len word \<Rightarrow> 'n word \<Rightarrow> u128 \<Rightarrow> bool \<Rightarrow> u256 res" where
  "get_amount_1_delta sqrt_ratio_a_x96 sqrt_ratio_b_x96 liquidity round_up =
     and_then (sort2 sqrt_ratio_a_x96 sqrt_ratio_b_x96) (\<lambda>(a, b).
       let numerator = b - a;
           denominator = Q96;
           liquidity = (ucast liquidity :: u256)
       in and_then (mul_div_q96 liquidity numerator) (\<lambda>amount_1.
            let carry = mul_mod liquidity numerator denominator > 0 \<and> round_up
            in Ok (amount_1 + from_limbs [of_bool carry, 0, 0, 0])))"

text \<open>The branch-free absolute value and negation of the signed helpers.\<close>

definition get_amount_0_delta_signed :: "'n::len word \<Rightarrow> 'n word \<Rightarrow> int \<Rightarrow> i256 res" where
  "get_amount_0_delta_signed sqrt_ratio_a_x96 sqrt_ratio_b_x96 liquidity =
     (let sign = \<not> liquidity < 0;
          m = (of_bool sign :: u128) - 1;
          liquidity = m XOR (m + word_of_int liquidity);
          m = (ucast m :: u64);
          m = from_limbs [m, m, m, m]
      in and_then (get_amount_0_delta sqrt_ratio_a_x96 sqrt_ratio_b_x96 liquidity sign) (\<lambda>amount_0.
           Ok ((amount_0 XOR m) - m)))"

definition get_amount_1_delta_signed :: "'n::len word \<Rightarrow> 'n word \<Rightarrow> int \<Rightarrow> i256 res" where
  "get_amount_1_delta_signed sqrt_ratio_a_x96 sqrt_ratio_b_x96 liquidity =
     (let sign = \<not> liquidity < 0;
          m = (of_bool sign :: u128) - 1;
          liquidity = m XOR (m + word_of_int liquidity);
          m = (ucast m :: u64);
          m = from_limbs [m, m, m, m]
      in and_then (get_amount_1_delta sqrt_ratio_a_x96 sqrt_ratio_b_x96 liquidity sign) (\<lambda>amount_1.
           Ok ((amount_1 XOR m) - m)))"

section \<open>Words of the source as integers\<close>

lemma U160_MAX_uint: "uint U160_MAX = 2 ^ 160 - 1"
  by code_simp

lemma Q96_uint: "uint Q96 = 2 ^ 96"
  unfolding Q96_def by (rule uint_two_power) simp

lemma uint_liquidity: "uint (ucast (l :: u128) :: u256) = uint l"
  by (rule uint_ucast_up) simp

lemma uint_price: "uint (ucast (p :: u160) :: u256) = uint p"
  by (rule uint_ucast_up) simp

lemma uint_numerator: "uint (push_bit 96 (ucast (l :: u128) :: u256)) = uint l * 2 ^ 96"
proof -
  have "uint l * 2 ^ 96 < 2 ^ 128 * 2 ^ 96" using uint_less [of l] by (intro mult_strict_right_mono) simp_all
  then have "uint l * 2 ^ 96 < 2 ^ LENGTH(256)" by simp
  then show ?thesis by (simp only: uint_push_bit uint_liquidity) simp
qed

lemma numerator_less: "uint (l :: u128) * 2 ^ 96 < 2 ^ 224"
  using uint_less [of l] by simp

lemma price_to_uint [simp]: "to_uint (p :: u160) = Ok (ucast p :: u256)"
  by (simp add: to_width_Ok uint_price) (use uint_less [of p] in simp)

lemma sort2_u160: "sort2 (a :: u160) b = Ok (ucast (min a b), ucast (max a b))"
  by (cases "b < a") (auto simp: sort2_def min_def max_def)

section \<open>The amount deltas, exactly\<close>

text \<open>Amount 0 between two prices \<open>lo \<le> hi\<close>: \<open>L (1 / lo - 1 / hi)\<close> in Q96, amount 1: \<open>L (hi - lo)\<close>.\<close>

definition amount_0 :: "int \<Rightarrow> int \<Rightarrow> int \<Rightarrow> bool \<Rightarrow> int" where
  "amount_0 lo hi l up =
     (if up then cdiv (l * 2 ^ 96 * (hi - lo)) (lo * hi) else l * 2 ^ 96 * (hi - lo) div (lo * hi))"

definition amount_1 :: "int \<Rightarrow> int \<Rightarrow> int \<Rightarrow> bool \<Rightarrow> int" where
  "amount_1 lo hi l up = (if up then cdiv (l * (hi - lo)) (2 ^ 96) else l * (hi - lo) div 2 ^ 96)"

lemma amount_0_inner:
  fixes lo hi n :: int
  assumes "0 < lo" and "lo \<le> hi" and "0 \<le> n"
  shows "n * (hi - lo) div hi \<le> n" and "cdiv (n * (hi - lo)) hi \<le> n"
    and "0 \<le> n * (hi - lo) div hi" and "0 \<le> cdiv (n * (hi - lo)) hi"
proof -
  have hi: "0 < hi" using assms by simp
  have "n * (hi - lo) \<le> n * hi" using assms by (intro mult_left_mono) simp_all
  then show 1: "cdiv (n * (hi - lo)) hi \<le> n" using hi by (simp add: cdiv_le)
  show "0 \<le> n * (hi - lo) div hi" using hi assms by (simp add: pos_imp_zdiv_nonneg_iff)
  show "0 \<le> cdiv (n * (hi - lo)) hi" using hi assms by (simp add: cdiv_nonneg)
  have "n * (hi - lo) div hi \<le> cdiv (n * (hi - lo)) hi" using hi by (simp add: cdiv_div)
  with 1 show "n * (hi - lo) div hi \<le> n" by (rule order_trans [rotated])
qed

lemma amount_0_bounds:
  assumes "0 < lo" and "lo \<le> hi" and "0 \<le> l"
  shows "0 \<le> amount_0 lo hi l up" and "amount_0 lo hi l up \<le> l * 2 ^ 96"
proof -
  have p: "0 < lo * hi" using assms by simp
  have up: "amount_0 lo hi l up \<le> cdiv (l * 2 ^ 96 * (hi - lo)) (lo * hi)"
    using p by (simp add: amount_0_def cdiv_div)
  have "l * 2 ^ 96 * (hi - lo) \<le> l * 2 ^ 96 * (lo * hi)"
  proof (intro mult_left_mono)
    have "hi * 1 \<le> hi * lo" using assms by (intro mult_left_mono) simp_all
    then have "hi \<le> lo * hi" by (simp only: mult.commute mult_1_right)
    then show "hi - lo \<le> lo * hi" using assms by linarith
  qed (use assms in simp)
  then have "cdiv (l * 2 ^ 96 * (hi - lo)) (lo * hi) \<le> l * 2 ^ 96" using p by (simp only: cdiv_le)
  with up show "amount_0 lo hi l up \<le> l * 2 ^ 96" by (rule order_trans)
  show "0 \<le> amount_0 lo hi l up"
    using p assms by (simp add: amount_0_def cdiv_nonneg pos_imp_zdiv_nonneg_iff)
qed

lemma amount_0_delta_eq:
  fixes a b :: u160
  defines "lo \<equiv> uint (min a b)" and "hi \<equiv> uint (max a b)"
  shows "get_amount_0_delta a b l up =
    (if lo = 0 then Err InvalidPrice else Ok (word_of_int (amount_0 lo hi (uint l) up)))"
proof (cases "lo = 0")
  case True
  then have "ucast (min a b) = (0 :: u256)" by (simp add: word_eq_uint uint_price lo_def)
  with True show ?thesis by (simp add: get_amount_0_delta_def sort2_u160)
next
  case False
  let ?lo = "ucast (min a b) :: u256" and ?hi = "ucast (max a b) :: u256"
  let ?n = "push_bit 96 (ucast l :: u256)" and ?N = "uint l * 2 ^ 96"
  have lo: "0 < lo" using False uint_ge_0 [of "min a b"] unfolding lo_def by linarith
  have le: "lo \<le> hi" unfolding lo_def hi_def word_le_def [symmetric] by (rule order_trans [OF min.cobounded1 max.cobounded1])
  have u: "uint ?lo = lo" "uint ?hi = hi" by (simp_all only: uint_price lo_def hi_def)
  have d: "uint (?hi - ?lo) = hi - lo"
    using le by (simp add: uint_sub_exact word_le_def u)
  have nz: "?lo \<noteq> 0" "?hi \<noteq> 0" using lo le u by (auto simp: word_eq_uint)
  note in_bounds = amount_0_inner [OF lo le, of ?N]
  have N: "0 \<le> ?N" "?N < 2 ^ 224" by (simp_all only: numerator_less) simp
  have div: "mul_div ?n (?hi - ?lo) ?hi = Ok (word_of_int (?N * (hi - lo) div hi))"
    and udiv: "uint (word_of_int (?N * (hi - lo) div hi) :: u256) = ?N * (hi - lo) div hi"
    using in_bounds(1,3) [OF N(1)] N(2) nz(2)
    by (simp_all only: mul_div_eq uint_numerator d u uint_word_of_int) simp_all
  have ceil: "mul_div_rounding_up ?n (?hi - ?lo) ?hi = Ok (word_of_int (cdiv (?N * (hi - lo)) hi))"
    and uceil: "uint (word_of_int (cdiv (?N * (hi - lo)) hi) :: u256) = cdiv (?N * (hi - lo)) hi"
    using in_bounds(2,4) [OF N(1)] N(2) nz(2)
    by (simp_all only: mul_div_cdiv uint_numerator d u uint_word_of_int) simp_all
  have hi: "0 < hi" using lo le by simp
  have "get_amount_0_delta a b l up =
      (if up then div_ceil (word_of_int (cdiv (?N * (hi - lo)) hi)) ?lo
       else udiv (word_of_int (?N * (hi - lo) div hi)) ?lo)"
    using nz by (simp only: get_amount_0_delta_def sort2_u160 and_then.simps prod.case Let_def
        ceil div if_False)
  also have "\<dots> = Ok (word_of_int (amount_0 lo hi (uint l) up))"
    by (simp only: div_ceil_eq [OF nz(1)] udiv_eq [OF nz(1)] uceil udiv u cdiv_cdiv [OF lo hi]
        div_div_int [OF lo hi] amount_0_def split: if_split) simp
  finally show ?thesis using False by (simp only: if_False)
qed

lemma amount_1_bounds:
  assumes "lo \<le> hi" and "0 \<le> l" and "l < 2 ^ 128" and "0 \<le> lo" and "hi < 2 ^ 160"
  shows "0 \<le> amount_1 lo hi l up" and "amount_1 lo hi l up \<le> 2 ^ 192"
proof -
  have "l * (hi - lo) \<le> 2 ^ 128 * 2 ^ 160" using assms by (intro mult_mono) simp_all
  then have "cdiv (l * (hi - lo)) (2 ^ 96) \<le> 2 ^ 192" by (simp add: cdiv_le)
  moreover have "amount_1 lo hi l up \<le> cdiv (l * (hi - lo)) (2 ^ 96)"
    by (simp add: amount_1_def cdiv_div)
  ultimately show "amount_1 lo hi l up \<le> 2 ^ 192" by simp
  show "0 \<le> amount_1 lo hi l up"
    using assms by (simp add: amount_1_def cdiv_nonneg pos_imp_zdiv_nonneg_iff)
qed

lemma carry_limbs: "from_limbs [of_bool c, 0, 0, 0] = of_bool c"
  by (cases c) (simp_all add: from_limbs_def)

lemma amount_1_delta_eq:
  fixes a b :: u160
  shows "get_amount_1_delta a b l up =
    Ok (word_of_int (amount_1 (uint (min a b)) (uint (max a b)) (uint l) up))"
proof -
  define lo hi where d: "lo = uint (min a b)" "hi = uint (max a b)"
  let ?lo = "ucast (min a b) :: u256" and ?hi = "ucast (max a b) :: u256" and ?l = "ucast l :: u256"
  have le: "lo \<le> hi" unfolding d word_le_def [symmetric] by (rule order_trans [OF min.cobounded1 max.cobounded1])
  have r: "0 \<le> lo" "hi < 2 ^ 160" using uint_less [of "max a b"] by (simp_all add: d)
  have l: "0 \<le> uint l" "uint l < 2 ^ 128" using uint_less [of l] by simp_all
  have u: "uint (?hi - ?lo) = hi - lo"
    using le by (simp add: uint_sub_exact word_le_def uint_price d)
  let ?p = "uint l * (hi - lo)"
  have "?p \<le> 2 ^ 128 * 2 ^ 160" using le l r by (intro mult_mono) simp_all
  then have "mul_div_q96 ?l (?hi - ?lo) = Ok (word_of_int (?p div 2 ^ 96))"
    by (simp add: mul_div_q96_eq u uint_liquidity)
  moreover have "mul_mod ?l (?hi - ?lo) Q96 > 0 \<longleftrightarrow> ?p mod 2 ^ 96 \<noteq> 0"
  proof -
    have "uint (mul_mod ?l (?hi - ?lo) Q96) = ?p mod 2 ^ 96"
      by (subst uint_mul_mod_eq) (simp_all add: Q96_uint u uint_liquidity word_eq_uint)
    then show ?thesis by (simp add: word_neq_0_conv [symmetric] word_eq_uint)
  qed
  ultimately have "get_amount_1_delta a b l up =
      Ok (word_of_int (?p div 2 ^ 96) + of_bool (?p mod 2 ^ 96 \<noteq> 0 \<and> up))"
    by (simp only: get_amount_1_delta_def sort2_u160 and_then.simps prod.case Let_def carry_limbs)
  also have "\<dots> = Ok (word_of_int (amount_1 lo hi (uint l) up))"
    by (simp add: amount_1_def cdiv_div)
  finally show ?thesis by (simp only: d)
qed

section \<open>The signed deltas\<close>

lemma sign_mask: "from_limbs [- 1, - 1, - 1, - 1] = - 1"
  by code_simp

lemma narrow_mask: "(ucast (- 1 :: u128) :: u64) = - 1"
  by code_simp

lemma negate_mask: "(x XOR - 1) - (- 1) = - x" for x :: "'n::len word"
  by (simp only: bit.xor_one_right not_eq_complement) simp

lemma signed_liquidity:
  assumes "srange 128 l"
  shows "\<not> l < 0 \<Longrightarrow> uint (word_of_int l :: u128) = l"
    and "l < 0 \<Longrightarrow> uint (- 1 XOR (- 1 + word_of_int l) :: u128) = - l"
proof -
  have b: "- (2 ^ 127) \<le> l" "l < 2 ^ 127" using assms by (simp_all add: srange_def)
  show "uint (word_of_int l :: u128) = l" if "\<not> l < 0"
    using that b by (simp add: uint_word_of_int)
  show "uint (- 1 XOR (- 1 + word_of_int l) :: u128) = - l" if "l < 0"
  proof -
    have "- 1 XOR (- 1 + word_of_int l) = - (word_of_int l :: u128)"
      by (subst xor.commute) (simp only: bit.xor_one_right not_eq_complement, simp)
    also have "\<dots> = word_of_int (- l)" by simp
    finally show ?thesis using that b by (simp only: uint_word_of_int) simp
  qed
qed

definition signed_amount :: "(int \<Rightarrow> bool \<Rightarrow> int) \<Rightarrow> int \<Rightarrow> int" where
  "signed_amount f l = (if l < 0 then - f (- l) False else f l True)"

lemma amount_0_delta_signed_eq:
  fixes a b :: u160
  assumes "srange 128 l"
  shows "get_amount_0_delta_signed a b l =
    (if min a b = 0 then Err InvalidPrice
     else Ok (word_of_int (signed_amount (amount_0 (uint (min a b)) (uint (max a b))) l)))"
proof (cases "l < 0")
  case True
  then have "get_amount_0_delta_signed a b l =
      and_then (get_amount_0_delta a b (- 1 XOR (- 1 + word_of_int l)) False) (\<lambda>x. Ok ((x XOR - 1) - (- 1)))"
    by (simp only: get_amount_0_delta_signed_def Let_def not_True_eq_False of_bool_eq diff_0
        narrow_mask sign_mask simp_thms)
  then show ?thesis
    unfolding negate_mask amount_0_delta_eq signed_liquidity(2) [OF assms True]
    using True by (simp add: signed_amount_def word_eq_uint [of _ 0])
next
  case False
  then have "get_amount_0_delta_signed a b l =
      and_then (get_amount_0_delta a b (word_of_int l) True) (\<lambda>x. Ok (x XOR 0))"
    by (simp add: get_amount_0_delta_signed_def from_limbs_def)
  then show ?thesis
    unfolding amount_0_delta_eq signed_liquidity(1) [OF assms False]
    using False by (simp add: signed_amount_def word_eq_uint [of _ 0])
qed

lemma amount_1_delta_signed_eq:
  fixes a b :: u160
  assumes "srange 128 l"
  shows "get_amount_1_delta_signed a b l =
    Ok (word_of_int (signed_amount (amount_1 (uint (min a b)) (uint (max a b))) l))"
proof (cases "l < 0")
  case True
  then have "get_amount_1_delta_signed a b l =
      and_then (get_amount_1_delta a b (- 1 XOR (- 1 + word_of_int l)) False) (\<lambda>x. Ok ((x XOR - 1) - (- 1)))"
    by (simp only: get_amount_1_delta_signed_def Let_def not_True_eq_False of_bool_eq diff_0
        narrow_mask sign_mask simp_thms)
  then show ?thesis
    unfolding negate_mask amount_1_delta_eq signed_liquidity(2) [OF assms True]
    using True by (simp add: signed_amount_def)
next
  case False
  then have "get_amount_1_delta_signed a b l =
      and_then (get_amount_1_delta a b (word_of_int l) True) (\<lambda>x. Ok (x XOR 0))"
    by (simp add: get_amount_1_delta_signed_def from_limbs_def)
  then show ?thesis
    unfolding amount_1_delta_eq signed_liquidity(1) [OF assms False]
    using False by (simp add: signed_amount_def)
qed

section \<open>The next price over the integers\<close>

text \<open>
  With numerator \<open>n = L * 2 ^ 96\<close>, price \<open>p\<close> and amount \<open>x\<close>: the price after adding or removing an
  amount of token 0. The addition has two formulas, the exact one and the one for large products.
\<close>

definition price_0_add :: "int \<Rightarrow> int \<Rightarrow> int \<Rightarrow> int" where
  "price_0_add n p x =
     (if x = 0 then p
      else if x * p < 2 ^ 256 \<and> n + x * p < 2 ^ 256 then cdiv (n * p) (n + x * p)
      else cdiv n (n div p + x))"

lemma large_product:
  fixes n p x :: int
  assumes "0 \<le> n" and "0 < p" and "1 \<le> x"
  shows "0 < n div p + x" and "n \<le> p * (n div p + x)" and "p * (n div p + x) \<le> n + x * p"
proof -
  have q: "0 \<le> n div p" using assms by (simp add: pos_imp_zdiv_nonneg_iff)
  then show "0 < n div p + x" using assms by linarith
  have m: "0 \<le> n mod p" "n mod p < p" using assms by simp_all
  have e: "p * (n div p + x) = n - n mod p + x * p"
    by (simp add: distrib_left minus_mod_eq_mult_div [symmetric] mult.commute)
  show "p * (n div p + x) \<le> n + x * p" using e m by linarith
  have "p \<le> x * p" using assms mult_right_mono [of 1 x p] by simp
  then show "n \<le> p * (n div p + x)" using e m by linarith
qed

lemma price_0_add_le:
  assumes "0 \<le> n" and "0 < p" and "0 \<le> x"
  shows "price_0_add n p x \<le> p"
proof -
  have "cdiv (n * p) (n + x * p) \<le> p" if "x \<noteq> 0"
    using that assms by (subst cdiv_le) (simp_all add: algebra_simps add_nonneg_pos)
  moreover have "cdiv n (n div p + x) \<le> p" if "x \<noteq> 0"
    using that assms large_product [of n p x] by (simp add: cdiv_le)
  ultimately show ?thesis by (simp add: price_0_add_def)
qed

lemma price_0_add_reaches:
  assumes "0 < n" and "0 < p" and "0 \<le> x"
  shows "n * p \<le> price_0_add n p x * (n + x * p)"
proof (cases "x = 0")
  case False
  with assms have x: "1 \<le> x" by simp
  have d: "0 < n + x * p" using assms by (simp add: add_pos_nonneg)
  note l = large_product [OF less_imp_le [OF assms(1)] assms(2) x]
  have "n * p \<le> cdiv n (n div p + x) * (n + x * p)"
  proof -
    have "n * p \<le> (cdiv n (n div p + x) * (n div p + x)) * p"
      using cdiv_mult_ge [OF l(1), of n] assms by (intro mult_right_mono) simp_all
    also have "\<dots> = cdiv n (n div p + x) * (p * (n div p + x))" by (simp add: algebra_simps)
    also have "\<dots> \<le> cdiv n (n div p + x) * (n + x * p)"
      using l assms by (intro mult_left_mono cdiv_nonneg) simp_all
    finally show ?thesis .
  qed
  then show ?thesis using False cdiv_mult_ge [OF d, of "n * p"] by (simp add: price_0_add_def)
qed (simp add: price_0_add_def mult.commute)

lemma price_0_add_pos:
  assumes "0 < n" and "0 < p" and "0 \<le> x"
  shows "0 < price_0_add n p x"
proof -
  have "0 < n * p" using assms by simp
  then have "0 < price_0_add n p x * (n + x * p)"
    using price_0_add_reaches [OF assms] by linarith
  moreover have "0 < n + x * p" using assms by (simp add: add_pos_nonneg)
  ultimately show ?thesis by (rule zero_less_mult_pos2)
qed

text \<open>The token-0 amount of the move never exceeds what was added.\<close>

lemma price_0_add_pays:
  assumes "0 < l" and "0 < p" and "0 \<le> x"
  shows "amount_0 (price_0_add (l * 2 ^ 96) p x) p l True \<le> x"
proof -
  let ?r = "price_0_add (l * 2 ^ 96) p x"
  have n: "0 < l * 2 ^ 96" using assms by simp
  have "l * 2 ^ 96 * (p - ?r) \<le> x * (?r * p)"
    using price_0_add_reaches [OF n assms(2,3)] by (simp add: algebra_simps)
  then show ?thesis
    using price_0_add_pos [OF n assms(2,3)] assms by (simp add: amount_0_def cdiv_le)
qed

text \<open>An amount too small for the move to a target does not pass the target.\<close>

lemma price_0_add_target:
  assumes "0 < l" and "0 < q" and "q \<le> p" and "0 \<le> x" and "x < amount_0 q p l True"
  shows "q \<le> price_0_add (l * 2 ^ 96) p x"
proof (rule ccontr)
  let ?n = "l * 2 ^ 96" and ?r = "price_0_add (l * 2 ^ 96) p x"
  assume "\<not> q \<le> ?r"
  have p: "0 < p" and n: "0 < ?n" using assms by simp_all
  have "x * (q * p) < ?n * (p - q)"
    using assms(5) cdiv_le [of "q * p" "?n * (p - q)" x] assms(2) p by (simp add: amount_0_def not_le)
  then have "q * (?n + x * p) < ?n * p" by (simp add: algebra_simps)
  also have "\<dots> \<le> ?r * (?n + x * p)" by (rule price_0_add_reaches [OF n p assms(4)])
  finally have "q < ?r" using n p assms(4) by (simp add: mult_less_cancel_right add_pos_nonneg)
  with \<open>\<not> q \<le> ?r\<close> show False by simp
qed

section \<open>The next price of the code\<close>

lemma fits_u160: "0 \<le> r \<Longrightarrow> r \<le> uint (p :: u160) \<Longrightarrow> to_uint (word_of_int r :: u256) = Ok (word_of_int r :: u160)"
proof -
  assume "0 \<le> r" and "r \<le> uint p"
  then have "r < 2 ^ 160" using uint_less [of p] by simp
  with \<open>0 \<le> r\<close> show ?thesis by (simp add: to_width_Ok uint_word_of_int)
qed

lemma narrow_int:
  "0 \<le> r \<Longrightarrow> r < 2 ^ 256 \<Longrightarrow> to_width e (word_of_int r :: u256) =
     (if r < 2 ^ 160 then Ok (word_of_int r :: u160) else Err e)"
  by (simp add: to_width_Ok to_width_Err uint_word_of_int)

lemma product_check:
  fixes x p :: u256
  assumes "x \<noteq> 0"
  shows "udiv (x * p) x = Ok p \<longleftrightarrow> uint x * uint p < 2 ^ 256"
proof -
  have x: "0 < uint x" by (rule uint_pos [OF assms])
  have "udiv (x * p) x = Ok p \<longleftrightarrow> uint (x * p) div uint x = uint p"
    using assms by (auto simp: udiv_Ok)
  also have "\<dots> \<longleftrightarrow> uint x * uint p < 2 ^ 256"
  proof
    assume "uint (x * p) div uint x = uint p"
    then have "uint p * uint x \<le> uint (x * p)" 
      using le_div_int [OF x, of "uint p" "uint (x * p)"] by simp
    then show "uint x * uint p < 2 ^ 256" using uint_less [of "x * p"] by (simp add: mult.commute)
  next
    assume "uint x * uint p < 2 ^ 256"
    then have "uint (x * p) = uint x * uint p" by (intro uint_mul_exact) simp
    then show "uint (x * p) div uint x = uint p" using x by simp
  qed
  finally show ?thesis .
qed

lemma add_check:
  fixes n m :: u256
  shows "n + m \<ge> n \<longleftrightarrow> uint n + uint m < 2 ^ 256"
proof
  assume "uint n + uint m < 2 ^ 256"
  then have "uint (n + m) = uint n + uint m" by (intro uint_add_exact) simp
  then show "n + m \<ge> n" by (simp add: word_le_def)
next
  assume le: "n + m \<ge> n"
  show "uint n + uint m < 2 ^ 256"
  proof (rule ccontr)
    assume big: "\<not> uint n + uint m < 2 ^ 256"
    have "(uint n + uint m) mod 2 ^ 256 = (uint n + uint m - 2 ^ 256) mod 2 ^ 256" by simp
    also have "\<dots> = uint n + uint m - 2 ^ 256"
      using big uint_less [of n] uint_less [of m] by (intro mod_pos_pos_trivial) simp_all
    finally have "uint (n + m) = uint n + uint m - 2 ^ 256" by (simp add: uint_add_mod)
    then show False using le uint_less [of m] by (simp add: word_le_def)
  qed
qed

lemma next_price_0_add_eq:
  fixes p :: u160
  assumes "p \<noteq> 0" and "l \<noteq> 0" and small: "uint l * 2 ^ 96 div uint p + uint x < 2 ^ 256"
  shows "get_next_sqrt_price_from_amount_0_rounding_up p l x True =
    Ok (word_of_int (price_0_add (uint l * 2 ^ 96) (uint p) (uint x)))"
proof (cases "x = 0")
  case True
  then show ?thesis by (simp add: get_next_sqrt_price_from_amount_0_rounding_up_def price_0_add_def)
next
  case False
  let ?p = "ucast p :: u256" and ?n = "push_bit 96 (ucast l :: u256)" and ?N = "uint l * 2 ^ 96"
  let ?r = "price_0_add ?N (uint p) (uint x)"
  have pos: "0 < uint p" "0 < uint l" "0 < uint x" using assms(1,2) False by (simp_all add: uint_pos)
  then have N: "0 < ?N" by simp
  have p: "?p \<noteq> 0" using pos uint_price [of p] by (auto simp: word_eq_uint)
  have r: "0 \<le> ?r" "?r \<le> uint p" "?r < 2 ^ 256"
    using price_0_add_pos [OF N pos(1), of "uint x"] price_0_add_le [of ?N "uint p" "uint x"]
      N pos uint_less [of p] by simp_all
  obtain q where q: "udiv (x * ?p) x = Ok q" using udiv_eq [OF False] by blast
  have big: "q = ?p \<longleftrightarrow> uint x * uint p < 2 ^ 256"
    using product_check [OF False, of ?p] q by (simp add: uint_price)
  have code: "get_next_sqrt_price_from_amount_0_rounding_up p l x True =
      (if q = ?p \<and> ?n + x * ?p \<ge> ?n
       then and_then (mul_div_rounding_up ?n ?p (?n + x * ?p)) to_uint
       else and_then (udiv ?n ?p) (\<lambda>q. and_then (div_ceil ?n (q + x)) to_uint))"
    using False q by (simp add: get_next_sqrt_price_from_amount_0_rounding_up_def Let_def)
  show ?thesis
  proof (cases "uint x * uint p < 2 ^ 256 \<and> ?N + uint x * uint p < 2 ^ 256")
    case True
    have prod: "uint (x * ?p) = uint x * uint p"
      using True uint_mul_exact [of x ?p] by (simp add: uint_price)
    have den: "uint (?n + x * ?p) = ?N + uint x * uint p"
      using True uint_add_exact [of ?n "x * ?p"] by (simp add: prod uint_numerator)
    have "q = ?p \<and> ?n + x * ?p \<ge> ?n" using True big by (simp add: add_check uint_numerator prod)
    moreover have "0 < ?N + uint x * uint p" using N pos by (simp add: add_pos_pos)
    then have "?n + x * ?p \<noteq> 0" using den by (auto simp: word_eq_uint)
    moreover have c: "cdiv (uint ?n * uint ?p) (uint (?n + x * ?p)) = ?r"
      using True pos by (simp only: den uint_numerator uint_price price_0_add_def if_True) simp
    ultimately have "mul_div_rounding_up ?n ?p (?n + x * ?p) = Ok (word_of_int ?r)"
      using r(3) by (simp only: mul_div_rounding_up_eq c) simp
    then show ?thesis using \<open>q = ?p \<and> ?n + x * ?p \<ge> ?n\<close> fits_u160 [OF r(1,2)] by (simp only: code simp_thms if_True and_then.simps)
  next
    case False
    have "\<not> (q = ?p \<and> ?n + x * ?p \<ge> ?n)"
    proof
      assume a: "q = ?p \<and> ?n + x * ?p \<ge> ?n"
      then have l: "uint x * uint p < 2 ^ 256" using big by simp
      then have "uint (x * ?p) = uint x * uint p"
        using uint_mul_exact [of x ?p] by (simp add: uint_price)
      then show False using a l False by (simp add: add_check uint_numerator)
    qed
    moreover have q: "uint (word_of_int (?N div uint p) :: u256) = ?N div uint p"
    proof -
      have "0 \<le> ?N div uint p" using N pos by (simp add: pos_imp_zdiv_nonneg_iff)
      moreover have "?N div uint p < 2 ^ 256" using small pos by linarith
      ultimately show ?thesis by (simp add: uint_word_of_int)
    qed
    moreover have d: "uint (word_of_int (?N div uint p) + x) = ?N div uint p + uint x"
      using uint_add_exact [of "word_of_int (?N div uint p)" x] small unfolding q by simp
    moreover have nz: "word_of_int (?N div uint p) + x \<noteq> 0"
      using d large_product(1) [of ?N "uint p" "uint x"] N pos by (auto simp: word_eq_uint)
    ultimately have "get_next_sqrt_price_from_amount_0_rounding_up p l x True = to_uint (word_of_int ?r :: u256)"
      using False pos
      by (simp only: code if_False udiv_eq [OF p] and_then.simps uint_numerator uint_price
          div_ceil_eq [OF nz] d price_0_add_def) simp
    then show ?thesis by (simp only: fits_u160 [OF r(1,2)])
  qed
qed

text \<open>Removing token 0 raises the price; the amount of the move covers what was removed.\<close>

lemma price_0_sub_ge:
  fixes n p x :: int
  assumes "0 < p" and "0 \<le> x" and "x * p < n"
  shows "p \<le> cdiv (n * p) (n - x * p)"
proof -
  have "(p - 1) * (n - x * p) < n * p"
  proof -
    have "(p - 1) * (n - x * p) < p * (n - x * p)" using assms(3) by simp
    also have "\<dots> \<le> p * n" using assms by (intro mult_left_mono) simp_all
    finally show ?thesis by (simp add: mult.commute)
  qed
  then show ?thesis using assms by (simp add: le_cdiv)
qed

lemma price_0_sub_pays:
  assumes "0 < p" and "0 \<le> x" and "x * p < l * 2 ^ 96"
  shows "x \<le> amount_0 p (cdiv (l * 2 ^ 96 * p) (l * 2 ^ 96 - x * p)) l False"
proof -
  let ?n = "l * 2 ^ 96" and ?r = "cdiv (l * 2 ^ 96 * p) (l * 2 ^ 96 - x * p)"
  have d: "0 < ?n - x * p" using assms by simp
  have "?n * p \<le> ?r * (?n - x * p)" by (rule cdiv_mult_ge [OF d])
  then have "x * (p * ?r) \<le> ?n * (?r - p)" by (simp add: algebra_simps)
  moreover have "0 < p * ?r" using price_0_sub_ge [OF assms] assms(1) by simp
  ultimately show ?thesis by (simp add: amount_0_def le_div_int)
qed

lemma price_0_sub_target:
  assumes "0 < p" and "p \<le> q" and "0 \<le> x" and "0 < l" and "x < amount_0 p q l False"
  shows "x * p < l * 2 ^ 96" and "cdiv (l * 2 ^ 96 * p) (l * 2 ^ 96 - x * p) \<le> q"
proof -
  let ?n = "l * 2 ^ 96"
  have q: "0 < p * q" using assms by simp
  have "x + 1 \<le> ?n * (q - p) div (p * q)" using assms(5) by (simp add: amount_0_def)
  then have "(x + 1) * (p * q) \<le> ?n * (q - p)" using q by (simp only: le_div_int)
  then have "x * (p * q) \<le> ?n * (q - p)" using q by (simp add: distrib_right)
  then have le: "?n * p \<le> q * (?n - x * p)" by (simp add: algebra_simps)
  have "0 < ?n * p" using assms by simp
  then have "0 < q * (?n - x * p)" using le by linarith
  then have d: "0 < ?n - x * p" using assms by (simp add: zero_less_mult_iff)
  then show "x * p < ?n" by simp
  show "cdiv (?n * p) (?n - x * p) \<le> q" using le d by (simp add: cdiv_le)
qed

lemma next_price_0_sub_eq:
  fixes p :: u160
  assumes "p \<noteq> 0" and "x \<noteq> 0"
  shows "get_next_sqrt_price_from_amount_0_rounding_up p l x False =
    (let n = uint l * 2 ^ 96; r = cdiv (n * uint p) (n - uint x * uint p)
     in if n \<le> uint x * uint p then Err PriceOverflow
        else if r < 2 ^ 160 then Ok (word_of_int r)
        else if r < 2 ^ 256 then Err SafeCastToU160Overflow else Err MulDivOverflow)"
proof -
  let ?p = "ucast p :: u256" and ?n = "push_bit 96 (ucast l :: u256)" and ?N = "uint l * 2 ^ 96"
  let ?r = "cdiv (?N * uint p) (?N - uint x * uint p)"
  have pos: "0 < uint p" "0 < uint x" using assms by (simp_all add: uint_pos)
  obtain q where q: "udiv (x * ?p) x = Ok q" using udiv_eq [OF assms(2)] by blast
  have big: "q = ?p \<longleftrightarrow> uint x * uint p < 2 ^ 256"
    using product_check [OF assms(2), of ?p] q by (simp add: uint_price)
  have prod: "uint (x * ?p) = uint x * uint p" if "uint x * uint p < 2 ^ 256"
    using that uint_mul_exact [of x ?p] by (simp add: uint_price)
  have N: "?N < 2 ^ 224" by (rule numerator_less)
  have cond: "q = ?p \<and> ?n > x * ?p \<longleftrightarrow> uint x * uint p < ?N"
    using big prod N by (auto simp: word_less_def uint_numerator)
  have code: "get_next_sqrt_price_from_amount_0_rounding_up p l x False =
      (if \<not> (q = ?p \<and> ?n > x * ?p) then Err PriceOverflow
       else and_then (mul_div_rounding_up ?n ?p (?n - x * ?p)) (to_width SafeCastToU160Overflow))"
    using assms q by (simp add: get_next_sqrt_price_from_amount_0_rounding_up_def Let_def)
  show ?thesis
  proof (cases "uint x * uint p < ?N")
    case False
    then show ?thesis by (simp only: code cond Let_def simp_thms if_True not_less)
  next
    case True
    then have d: "uint (?n - x * ?p) = ?N - uint x * uint p"
      using uint_sub_exact [of "x * ?p" ?n] N by (simp add: word_le_def uint_numerator prod)
    then have "?n - x * ?p \<noteq> 0" using True by (auto simp: word_eq_uint)
    moreover have "0 \<le> ?r" using pos True N by (intro cdiv_nonneg) simp_all
    then have "to_width SafeCastToU160Overflow (word_of_int ?r :: u256) =
        (if ?r < 2 ^ 160 then Ok (word_of_int ?r :: u160) else Err SafeCastToU160Overflow)"
      if "?r < 2 ^ 256"
      using that narrow_int by simp
    ultimately show ?thesis
      using True by (simp only: code cond mul_div_rounding_up_eq d uint_numerator uint_price) 
        (simp add: Let_def not_le)
  qed
qed

text \<open>Adding or removing token 1 moves the price by the amount over the liquidity.\<close>

lemma amount_shift:
  fixes x :: u256
  assumes "x \<le> U160_MAX"
  shows "uint (push_bit 96 x) = uint x * 2 ^ 96"
proof -
  have "uint x < 2 ^ 160" using assms U160_MAX_uint by (simp add: word_le_def)
  then have "uint x * 2 ^ 96 < 2 ^ LENGTH(256)" by simp
  then show ?thesis by (simp only: uint_push_bit) simp
qed

lemma next_price_1_quotient:
  assumes "l \<noteq> 0"
  shows "(if x \<le> U160_MAX then udiv (push_bit 96 x) (ucast (l :: u128)) else mul_div x Q96 (ucast l)) =
      (if 2 ^ 256 \<le> uint x * 2 ^ 96 div uint l then Err MulDivOverflow
       else Ok (word_of_int (uint x * 2 ^ 96 div uint l)))"
    and "(if x \<le> U160_MAX then div_ceil (push_bit 96 x) (ucast l) else mul_div_rounding_up x Q96 (ucast l)) =
      (if 2 ^ 256 \<le> cdiv (uint x * 2 ^ 96) (uint l) then Err MulDivOverflow
       else Ok (word_of_int (cdiv (uint x * 2 ^ 96) (uint l))))"
proof -
  let ?l = "ucast l :: u256"
  have l: "0 < uint l" and nz: "?l \<noteq> 0"
    using assms uint_pos [OF assms] uint_liquidity [of l] by (auto simp: word_eq_uint)
  have small: "cdiv (uint x * 2 ^ 96) (uint l) < 2 ^ 256" "uint x * 2 ^ 96 div uint l < 2 ^ 256"
    if "x \<le> U160_MAX"
  proof -
    have "uint x * 2 ^ 96 < 2 ^ 256" using amount_shift [OF that] uint_less [of "push_bit 96 x"] by simp
    then have "uint x * 2 ^ 96 \<le> (2 ^ 256 - 1) * 1" by simp
    also have "\<dots> \<le> (2 ^ 256 - 1) * uint l" using l by (intro mult_left_mono) simp_all
    finally have "cdiv (uint x * 2 ^ 96) (uint l) \<le> 2 ^ 256 - 1" using l by (simp only: cdiv_le)
    then show "cdiv (uint x * 2 ^ 96) (uint l) < 2 ^ 256" by simp
    moreover have "uint x * 2 ^ 96 div uint l \<le> cdiv (uint x * 2 ^ 96) (uint l)" using l by (simp add: cdiv_div)
    ultimately show "uint x * 2 ^ 96 div uint l < 2 ^ 256" by linarith
  qed
  show "(if x \<le> U160_MAX then udiv (push_bit 96 x) ?l else mul_div x Q96 ?l) =
      (if 2 ^ 256 \<le> uint x * 2 ^ 96 div uint l then Err MulDivOverflow
       else Ok (word_of_int (uint x * 2 ^ 96 div uint l)))"
    using nz small by (simp add: udiv_eq amount_shift mul_div_eq Q96_uint uint_liquidity flip: not_less)
  show "(if x \<le> U160_MAX then div_ceil (push_bit 96 x) ?l else mul_div_rounding_up x Q96 ?l) =
      (if 2 ^ 256 \<le> cdiv (uint x * 2 ^ 96) (uint l) then Err MulDivOverflow
       else Ok (word_of_int (cdiv (uint x * 2 ^ 96) (uint l))))"
    using nz small by (simp add: div_ceil_eq amount_shift mul_div_rounding_up_eq Q96_uint uint_liquidity flip: not_less)
qed

lemma next_price_1_add_eq:
  fixes p :: u160
  assumes "l \<noteq> 0"
  shows "get_next_sqrt_price_from_amount_1_rounding_down p l x True =
    (let quotient = uint x * 2 ^ 96 div uint l; r = (uint p + quotient) mod 2 ^ 256
     in if 2 ^ 256 \<le> quotient then Err MulDivOverflow
        else if r < 2 ^ 160 then Ok (word_of_int r) else Err SafeCastToU160Overflow)"
proof -
  let ?q = "uint x * 2 ^ 96 div uint l"
  have code: "get_next_sqrt_price_from_amount_1_rounding_down p l x True =
      and_then (if 2 ^ 256 \<le> ?q then Err MulDivOverflow else Ok (word_of_int ?q))
        (\<lambda>q. to_width SafeCastToU160Overflow ((ucast p :: u256) + q))"
    unfolding get_next_sqrt_price_from_amount_1_rounding_down_def price_to_uint and_then.simps Let_def
      if_True next_price_1_quotient(1) [OF assms] ..
  show ?thesis
  proof (cases "2 ^ 256 \<le> ?q")
    case True
    then show ?thesis by (simp only: code if_True and_then.simps Let_def)
  next
    case False
    have "0 \<le> ?q" using uint_pos [OF assms] by (simp add: pos_imp_zdiv_nonneg_iff)
    with False have q: "uint (word_of_int ?q :: u256) = ?q" by (simp add: uint_word_of_int)
    have "uint ((ucast p :: u256) + word_of_int ?q) = (uint p + ?q) mod 2 ^ 256"
      by (simp only: uint_add_mod q uint_price) simp
    then have "(ucast p :: u256) + word_of_int ?q = word_of_int ((uint p + ?q) mod 2 ^ 256)"
      by (metis word_of_int_uint)
    then have "to_width SafeCastToU160Overflow ((ucast p :: u256) + word_of_int ?q) =
      (if (uint p + ?q) mod 2 ^ 256 < 2 ^ 160 then Ok (word_of_int ((uint p + ?q) mod 2 ^ 256) :: u160)
       else Err SafeCastToU160Overflow)"
      using narrow_int [of "(uint p + ?q) mod 2 ^ 256"] by simp
    with False show ?thesis by (simp only: code if_False and_then.simps Let_def)
  qed
qed

lemma next_price_1_sub_eq:
  fixes p :: u160
  assumes "l \<noteq> 0"
  shows "get_next_sqrt_price_from_amount_1_rounding_down p l x False =
    (let quotient = cdiv (uint x * 2 ^ 96) (uint l)
     in if 2 ^ 256 \<le> quotient then Err MulDivOverflow
        else if quotient < uint p then Ok (word_of_int (uint p - quotient)) else Err InsufficientLiquidity)"
proof -
  let ?q = "cdiv (uint x * 2 ^ 96) (uint l)"
  have code: "get_next_sqrt_price_from_amount_1_rounding_down p l x False =
      and_then (if 2 ^ 256 \<le> ?q then Err MulDivOverflow else Ok (word_of_int ?q))
        (\<lambda>q. if (ucast p :: u256) > q then to_uint ((ucast p :: u256) - q) else Err InsufficientLiquidity)"
    unfolding get_next_sqrt_price_from_amount_1_rounding_down_def price_to_uint and_then.simps Let_def
      if_False next_price_1_quotient(2) [OF assms] ..
  show ?thesis
  proof (cases "2 ^ 256 \<le> ?q")
    case True
    then show ?thesis by (simp only: code if_True and_then.simps Let_def)
  next
    case False
    have q0: "0 \<le> ?q" using uint_pos [OF assms] by (simp add: cdiv_nonneg)
    with False have q: "uint (word_of_int ?q :: u256) = ?q" by (simp add: uint_word_of_int)
    have "to_uint ((ucast p :: u256) - word_of_int ?q) = Ok (word_of_int (uint p - ?q) :: u160)"
      if "?q < uint p"
    proof -
      have "(ucast p :: u256) - word_of_int ?q = word_of_int (uint p - ?q)"
        using that uint_sub_exact [of "word_of_int ?q" "ucast p :: u256"]
        by (simp add: word_le_def q uint_price)
      then show ?thesis using fits_u160 [of "uint p - ?q" p] that q0 by simp
    qed
    then show ?thesis using False
      by (simp only: code if_False and_then.simps Let_def word_less_def q uint_price cong: if_cong)
  qed
qed

lemma price_1_add_pays:
  assumes "0 < l"
  shows "amount_1 p (p + x * 2 ^ 96 div l) l True \<le> x"
proof -
  have "l * (x * 2 ^ 96 div l) \<le> x * 2 ^ 96"
    using assms le_div_int [of l "x * 2 ^ 96 div l" "x * 2 ^ 96"] by (simp add: mult.commute)
  then show ?thesis by (simp add: amount_1_def cdiv_le)
qed

lemma price_1_sub_pays:
  assumes "0 < l"
  shows "x \<le> amount_1 (p - cdiv (x * 2 ^ 96) l) p l False"
  using cdiv_mult_ge [OF assms, of "x * 2 ^ 96"]
  by (simp add: amount_1_def le_div_int mult.commute)

lemma price_1_add_target:
  assumes "0 < l" and "x < amount_1 p q l True"
  shows "p + x * 2 ^ 96 div l \<le> q"
proof -
  have "x * 2 ^ 96 < l * (q - p)"
    using assms(2) cdiv_le [of "2 ^ 96" "l * (q - p)" x] by (simp add: amount_1_def not_le)
  also have "\<dots> \<le> (q - p + 1) * l" using assms(1) by (simp add: algebra_simps)
  finally have "x * 2 ^ 96 div l \<le> q - p" using assms(1) by (simp only: div_le_int)
  then show ?thesis by simp
qed

lemma price_1_sub_target:
  assumes "0 < l" and "x \<le> amount_1 q p l False"
  shows "q \<le> p - cdiv (x * 2 ^ 96) l"
proof -
  have "x * 2 ^ 96 \<le> (p - q) * l"
    using assms(2) by (simp add: amount_1_def le_div_int mult.commute)
  then have "cdiv (x * 2 ^ 96) l \<le> p - q" using assms(1) by (simp only: cdiv_le)
  then show ?thesis by simp
qed

lemma input_0_affordable:
  fixes p r :: u160
  assumes ok: "get_next_sqrt_price_from_input p l x True = Ok r" and x: "uint x \<le> 2 ^ 255"
  shows "r \<le> p \<and> (\<exists>a. get_amount_0_delta r p l True = Ok a \<and> a \<le> x)"
proof -
  have nz: "p \<noteq> 0" "l \<noteq> 0" using ok by (auto simp: get_next_sqrt_price_from_input_def split: if_splits)
  then have pos: "0 < uint p" "0 < uint l" "0 < uint l * 2 ^ 96" by (simp_all add: uint_pos)
  let ?r = "price_0_add (uint l * 2 ^ 96) (uint p) (uint x)"
  have r: "0 < ?r" "?r \<le> uint p"
    using price_0_add_pos [OF pos(3,1)] price_0_add_le [of "uint l * 2 ^ 96" "uint p"] pos by simp_all
  have "uint l * 2 ^ 96 div uint p \<le> uint l * 2 ^ 96" using pos zdiv_mono2 [of "uint l * 2 ^ 96" 1 "uint p"] by simp
  then have "uint l * 2 ^ 96 div uint p + uint x < 2 ^ 256"
    using x numerator_less [of l] by simp
  from next_price_0_add_eq [OF nz this] have "r = word_of_int ?r"
    using ok nz by (simp add: get_next_sqrt_price_from_input_def)
  then have u: "uint r = ?r" using r uint_less [of p] by (simp add: uint_word_of_int)
  have le: "r \<le> p" using r u by (simp add: word_le_def)
  have "get_amount_0_delta r p l True = Ok (word_of_int (amount_0 ?r (uint p) (uint l) True))"
    using r le u by (simp add: amount_0_delta_eq min_def max_def)
  moreover have "amount_0 ?r (uint p) (uint l) True \<le> uint x"
    by (rule price_0_add_pays [OF pos(2,1)]) simp
  moreover have "0 \<le> amount_0 ?r (uint p) (uint l) True"
    using amount_0_bounds(1) [OF r] by simp
  ultimately show ?thesis using le uint_less [of x] by (simp add: word_le_def uint_word_of_int)
qed

lemma input_1_affordable:
  fixes p r :: u160
  assumes ok: "get_next_sqrt_price_from_input p l x False = Ok r"
    and x: "uint p + uint x * 2 ^ 96 div uint l < 2 ^ 256"
  shows "p \<le> r \<and> (\<exists>a. get_amount_1_delta p r l True = Ok a \<and> a \<le> x)"
proof -
  have nz: "p \<noteq> 0" "l \<noteq> 0" using ok by (auto simp: get_next_sqrt_price_from_input_def split: if_splits)
  then have pos: "0 < uint p" "0 < uint l" "0 < uint l * 2 ^ 96" by (simp_all add: uint_pos)
  let ?q = "uint x * 2 ^ 96 div uint l"
  have q: "0 \<le> ?q" using pos by (simp add: pos_imp_zdiv_nonneg_iff)
  have "(uint p + ?q) mod 2 ^ 256 = uint p + ?q" using q x by simp
  then have r: "uint p + ?q < 2 ^ LENGTH(160)" "r = word_of_int (uint p + ?q)"
    using ok nz
    by (auto simp: get_next_sqrt_price_from_input_def next_price_1_add_eq Let_def
        simp del: of_int_add split: if_splits)
  have u: "uint r = uint p + ?q" unfolding r(2) using q r(1) by (intro uint_of_int) simp_all
  have le: "p \<le> r" using q u by (simp add: word_le_def)
  have "get_amount_1_delta p r l True = Ok (word_of_int (amount_1 (uint p) (uint r) (uint l) True))"
    using le by (simp add: amount_1_delta_eq min_def max_def)
  moreover have "amount_1 (uint p) (uint r) (uint l) True \<le> uint x"
    unfolding u by (rule price_1_add_pays [OF pos(2)])
  moreover have "0 \<le> amount_1 (uint p) (uint r) (uint l) True"
    using le uint_less [of l] uint_less [of r] by (intro amount_1_bounds) (simp_all add: word_le_def)
  ultimately show ?thesis using le uint_less [of x] by (simp add: word_le_def uint_word_of_int)
qed

lemma output_1_covers:
  fixes p r :: u160
  assumes ok: "get_next_sqrt_price_from_output p l x True = Ok r"
  shows "r \<le> p \<and> (\<exists>a. get_amount_1_delta r p l False = Ok a \<and> x \<le> a)"
proof -
  have nz: "p \<noteq> 0" "l \<noteq> 0" using ok by (auto simp: get_next_sqrt_price_from_output_def split: if_splits)
  then have pos: "0 < uint p" "0 < uint l" by (simp_all add: uint_pos)
  let ?q = "cdiv (uint x * 2 ^ 96) (uint l)"
  have q: "0 \<le> ?q" using pos by (simp add: cdiv_nonneg)
  have r: "?q < uint p" "r = word_of_int (uint p - ?q)"
    using ok nz
    by (auto simp: get_next_sqrt_price_from_output_def next_price_1_sub_eq Let_def
        simp del: of_int_diff split: if_splits)
  have u: "uint r = uint p - ?q"
    unfolding r(2) using q r(1) uint_less [of p] by (intro uint_of_int) simp_all
  have le: "r \<le> p" using q u by (simp add: word_le_def)
  have b: "0 \<le> amount_1 (uint r) (uint p) (uint l) False" "amount_1 (uint r) (uint p) (uint l) False \<le> 2 ^ 192"
    using le uint_less [of l] uint_less [of p] by (intro amount_1_bounds; simp add: word_le_def)+
  have "get_amount_1_delta r p l False = Ok (word_of_int (amount_1 (uint r) (uint p) (uint l) False))"
    using le by (simp add: amount_1_delta_eq min_def max_def)
  moreover have "uint x \<le> amount_1 (uint r) (uint p) (uint l) False"
    unfolding u by (rule price_1_sub_pays [OF pos(2)])
  ultimately show ?thesis using le b by (simp add: word_le_def uint_word_of_int)
qed

lemma output_0_covers:
  fixes p r :: u160
  assumes ok: "get_next_sqrt_price_from_output p l x False = Ok r"
  shows "p \<le> r \<and> (\<exists>a. get_amount_0_delta p r l False = Ok a \<and> x \<le> a)"
proof -
  have nz: "p \<noteq> 0" "l \<noteq> 0" using ok by (auto simp: get_next_sqrt_price_from_output_def split: if_splits)
  then have pos: "0 < uint p" "0 < uint l" by (simp_all add: uint_pos)
  show ?thesis
  proof (cases "x = 0")
    case True
    then have "r = p"
      using ok nz
      by (simp add: get_next_sqrt_price_from_output_def
          get_next_sqrt_price_from_amount_0_rounding_up_def)
    with True pos show ?thesis by (simp add: amount_0_delta_eq)
  next
    case x: False
    let ?n = "uint l * 2 ^ 96"
    let ?r = "cdiv (?n * uint p) (?n - uint x * uint p)"
    have c: "uint x * uint p < ?n" "?r < 2 ^ 160" "r = word_of_int ?r"
      using ok nz x
      by (auto simp: get_next_sqrt_price_from_output_def next_price_0_sub_eq Let_def split: if_splits)
    have le': "uint p \<le> ?r" using pos c(1) by (intro price_0_sub_ge) simp_all
    then have u: "uint r = ?r" using c(2,3) pos by (simp add: uint_word_of_int)
    have le: "p \<le> r" using le' u by (simp add: word_le_def)
    have b: "0 \<le> amount_0 (uint p) (uint r) (uint l) False" "amount_0 (uint p) (uint r) (uint l) False \<le> ?n"
      using le pos by (intro amount_0_bounds; simp add: word_le_def)+
    have "get_amount_0_delta p r l False = Ok (word_of_int (amount_0 (uint p) (uint r) (uint l) False))"
      using le nz by (simp add: amount_0_delta_eq min_def max_def word_eq_uint)
    moreover have "uint x \<le> amount_0 (uint p) (uint r) (uint l) False"
      unfolding u using pos c(1) by (intro price_0_sub_pays) simp_all
    ultimately show ?thesis
      using le b numerator_less [of l] by (simp add: word_le_def uint_word_of_int)
  qed
qed

section \<open>Properties\<close>

text \<open>C38: the token-0 amount between two prices is the exact \<open>L (hi - lo) 2 ^ 96 / (hi lo)\<close>, rounded
  in the requested direction although the code divides and rounds twice; it is the invalid-price
  error exactly for a zero price, and never overflows.\<close>

theorem amount_0_delta_exact:
  "get_amount_0_delta a b l up =
     (let lo = uint (min a b); hi = uint (max a b); n = uint l * 2 ^ 96 * (hi - lo)
      in if lo = 0 then Err InvalidPrice
         else Ok (word_of_int (if up then cdiv n (lo * hi) else n div (lo * hi))))"
  for a b :: u160
  unfolding amount_0_delta_eq amount_0_def Let_def ..

text \<open>The token-1 amount between two prices is the exact \<open>L (hi - lo) / 2 ^ 96\<close>, rounded in the
  requested direction, and is never an error.\<close>

theorem amount_1_delta_exact:
  "get_amount_1_delta a b l up =
     (let lo = uint (min a b); hi = uint (max a b); n = uint l * (hi - lo)
      in Ok (word_of_int (if up then cdiv n (2 ^ 96) else n div 2 ^ 96)))"
  for a b :: u160
  unfolding amount_1_delta_eq amount_1_def Let_def ..



text \<open>C37: the price after an output never moves the wrong way, and the amount the move yields,
  rounded down, always covers the requested output: token 1 out lowers the price, token 0 out
  raises it. No hypothesis on the sizes is needed: everything else is an error.\<close>

theorem next_price_from_output_covers:
  fixes p r :: u160
  assumes ok: "get_next_sqrt_price_from_output p l x zero_for_one = Ok r"
  shows "if zero_for_one
     then r \<le> p \<and> (\<exists>a. get_amount_1_delta r p l False = Ok a \<and> x \<le> a)
     else p \<le> r \<and> (\<exists>a. get_amount_0_delta p r l False = Ok a \<and> x \<le> a)"
  using assms output_0_covers output_1_covers by (cases zero_for_one) simp_all

theorem next_price_from_output_covers_witness:
  "\<exists>r. get_next_sqrt_price_from_output (2 ^ 96 :: u160) (10 ^ 18) 1000 True = Ok r \<and> r \<le> 2 ^ 96"
proof -
  obtain r where r: "get_next_sqrt_price_from_output (2 ^ 96 :: u160) (10 ^ 18) 1000 True = Ok r"
    by (simp add: get_next_sqrt_price_from_output_def next_price_1_sub_eq cdiv_def)
  with next_price_from_output_covers [OF r] show ?thesis by simp
qed

text \<open>The signed deltas charge the pool's favour: a non-negative liquidity gives the amount
  rounded up, a negative one the negated amount rounded down, for both tokens.\<close>

theorem signed_deltas_rounding:
  fixes a b :: u160
  assumes "srange 128 l" and "min a b \<noteq> 0"
  shows "\<exists>d0 d1. get_amount_0_delta_signed a b l = Ok d0 \<and> get_amount_1_delta_signed a b l = Ok d1 \<and>
    sint d0 = (if 0 \<le> l then amount_0 (uint (min a b)) (uint (max a b)) l True
               else - amount_0 (uint (min a b)) (uint (max a b)) (- l) False) \<and>
    sint d1 = (if 0 \<le> l then amount_1 (uint (min a b)) (uint (max a b)) l True
               else - amount_1 (uint (min a b)) (uint (max a b)) (- l) False)"
proof -
  define lo hi where d: "lo = uint (min a b)" "hi = uint (max a b)"
  have lo: "0 < lo" "lo \<le> hi" "hi < 2 ^ 160"
    using uint_pos [OF assms(2)] uint_less [of "max a b"]
    by (simp_all add: d word_le_def [symmetric] order_trans [OF min.cobounded1 max.cobounded1])
  have l: "- (2 ^ 127) \<le> l" "l < 2 ^ 127" using assms(1) by (simp_all add: srange_def)
  have s: "sint (word_of_int v :: i256) = v" if "- (2 ^ 255) \<le> v" "v < 2 ^ 255" for v
    using that by (intro sint_of_int) (simp add: srange_def)
  have b0: "\<bar>signed_amount (amount_0 lo hi) l\<bar> \<le> 2 ^ 223"
  proof (cases "l < 0")
    case True
    then have "0 \<le> amount_0 lo hi (- l) False" "amount_0 lo hi (- l) False \<le> - l * 2 ^ 96"
      by (intro amount_0_bounds [OF lo(1,2)]; simp)+
    moreover have "- l * 2 ^ 96 \<le> 2 ^ 223" using l by simp
    ultimately show ?thesis using True by (simp add: signed_amount_def)
  next
    case False
    then have "0 \<le> amount_0 lo hi l True" "amount_0 lo hi l True \<le> l * 2 ^ 96"
      by (intro amount_0_bounds [OF lo(1,2)]; simp)+
    moreover have "l * 2 ^ 96 \<le> 2 ^ 223" using l by simp
    ultimately show ?thesis using False by (simp add: signed_amount_def)
  qed
  have b1: "\<bar>signed_amount (amount_1 lo hi) l\<bar> \<le> 2 ^ 192"
    using amount_1_bounds [OF lo(2), of l True] amount_1_bounds [OF lo(2), of "- l" False] l lo
    by (simp add: signed_amount_def)
  have "sint (word_of_int (signed_amount (amount_0 lo hi) l) :: i256) = signed_amount (amount_0 lo hi) l"
    "sint (word_of_int (signed_amount (amount_1 lo hi) l) :: i256) = signed_amount (amount_1 lo hi) l"
    using b0 b1 by (intro s; simp)+
  then show ?thesis
    using assms
    by (simp add: amount_0_delta_signed_eq amount_1_delta_signed_eq signed_amount_def flip: d)
qed

theorem signed_deltas_rounding_witness:
  "\<exists>d0. get_amount_0_delta_signed (2 ^ 96 :: u160) (2 ^ 97) (- 1000) = Ok d0 \<and>
     sint d0 = - amount_0 (2 ^ 96) (2 ^ 97) 1000 False"
  using signed_deltas_rounding [of "- 1000" "2 ^ 96" "2 ^ 97"]
  by (auto simp: srange_def min_def max_def word_le_def)

text \<open>The unchecked additions: a huge input wraps the price in the wrong direction.\<close>

lemma token_1_input_wraps:
  "get_next_sqrt_price_from_input (2 ^ 96 :: u160) (2 ^ 96) U256_MAX False = Ok (2 ^ 96 - 1)"
  by code_simp

lemma token_0_input_wraps:
  "get_next_sqrt_price_from_input (2 ^ 96 :: u160) 2 U256_MAX True = Ok (2 ^ 97)"
  by code_simp

end
