(* ===== verification/Swap_Math.thy ===== *)
theory Swap_Math
  imports Tick_Math Tick_Map Sqrt_Price_Math
begin

text \<open>
  \<^verbatim>\<open>src/v3/swap_math.rs\<close>: one step of a swap inside a price range, and the loop over the initialized
  ticks. The loop is a \<^verbatim>\<open>partial_function\<close>, so that not returning is the value \<open>None\<close>; that it
  always returns is a theorem.
\<close>

section \<open>One step\<close>

definition MAX_FEE :: u256 where
  "MAX_FEE = from_limbs [1000000, 0, 0, 0]"

definition compute_swap_step ::
    "'n::len word \<Rightarrow> 'n word \<Rightarrow> u128 \<Rightarrow> i256 \<Rightarrow> u24 \<Rightarrow> ('n word \<times> u256 \<times> u256 \<times> u256) res" where
  "compute_swap_step sqrt_ratio_current_x96 sqrt_ratio_target_x96 liquidity amount_remaining fee_pips =
     (let fee_pips = (ucast fee_pips :: u256);
          fee_complement = MAX_FEE - fee_pips;
          zero_for_one = sqrt_ratio_current_x96 \<ge> sqrt_ratio_target_x96;
          exact_in = sint amount_remaining \<ge> 0
      in if exact_in then
           let amount_remaining_abs = amount_remaining
           in and_then (mul_div amount_remaining_abs fee_complement MAX_FEE) (\<lambda>amount_remaining_less_fee.
             and_then
               (if zero_for_one
                then get_amount_0_delta sqrt_ratio_target_x96 sqrt_ratio_current_x96 liquidity True
                else get_amount_1_delta sqrt_ratio_current_x96 sqrt_ratio_target_x96 liquidity True) (\<lambda>amount_in.
             and_then
               (if amount_remaining_less_fee \<ge> amount_in
                then and_then (mul_div_rounding_up amount_in fee_pips fee_complement) (\<lambda>fee_amount.
                  Ok (sqrt_ratio_target_x96, amount_in, fee_amount))
                else
                  let amount_in = amount_remaining_less_fee
                  in and_then (get_next_sqrt_price_from_input sqrt_ratio_current_x96 liquidity amount_in zero_for_one)
                       (\<lambda>sqrt_ratio_next_x96.
                         Ok (sqrt_ratio_next_x96, amount_in, amount_remaining_abs - amount_in)))
               (\<lambda>(sqrt_ratio_next_x96, amount_in, fee_amount).
             and_then
               (if zero_for_one
                then get_amount_1_delta sqrt_ratio_next_x96 sqrt_ratio_current_x96 liquidity False
                else get_amount_0_delta sqrt_ratio_current_x96 sqrt_ratio_next_x96 liquidity False) (\<lambda>amount_out.
             Ok (sqrt_ratio_next_x96, amount_in, amount_out, fee_amount)))))
         else
           let amount_remaining_abs = - amount_remaining
           in and_then
               (if zero_for_one
                then get_amount_1_delta sqrt_ratio_target_x96 sqrt_ratio_current_x96 liquidity False
                else get_amount_0_delta sqrt_ratio_current_x96 sqrt_ratio_target_x96 liquidity False) (\<lambda>amount_out.
             and_then
               (if amount_remaining_abs \<ge> amount_out then Ok (sqrt_ratio_target_x96, amount_out)
                else
                  let amount_out = amount_remaining_abs
                  in and_then (get_next_sqrt_price_from_output sqrt_ratio_current_x96 liquidity amount_out zero_for_one)
                       (\<lambda>sqrt_ratio_next_x96. Ok (sqrt_ratio_next_x96, amount_out)))
               (\<lambda>(sqrt_ratio_next_x96, amount_out).
             and_then
               (if zero_for_one
                then get_amount_0_delta sqrt_ratio_next_x96 sqrt_ratio_current_x96 liquidity True
                else get_amount_1_delta sqrt_ratio_current_x96 sqrt_ratio_next_x96 liquidity True) (\<lambda>amount_in.
             and_then (mul_div_rounding_up amount_in fee_pips fee_complement) (\<lambda>fee_amount.
             Ok (sqrt_ratio_next_x96, amount_in, amount_out, fee_amount))))))"

section \<open>The swap loop\<close>

record swap_state =
  amount_specified_remaining :: i256
  amount_calculated :: i256
  sqrt_price_x96 :: u160
  tick_current :: int
  liquidity :: u128

record step_computations =
  sqrt_price_start_x96 :: u160
  tick_next :: int
  step_initialized :: bool
  sqrt_price_next_x96 :: u160
  amount_in :: u256
  amount_out :: u256
  fee_amount :: u256

text \<open>The arguments of \<^verbatim>\<open>v3_swap\<close> that no iteration changes.\<close>

record swap_args =
  sa_fee :: u24
  sa_ticks :: tick_map
  sa_search :: tick_search
  sa_zero_for_one :: bool
  sa_exact_input :: bool
  sa_limit :: u160

text \<open>An iteration either goes on or leaves the loop with \<^verbatim>\<open>break\<close>.\<close>

datatype 's control = Continue 's | Break 's

definition clamp_tick :: "int \<Rightarrow> int" where
  "clamp_tick t = max MIN_TICK (min MAX_TICK t)"

text \<open>The tick and the target price of one iteration, then its amounts.\<close>

definition step_target :: "swap_args \<Rightarrow> swap_state \<Rightarrow> step_computations res" where
  "step_target a state =
     and_then (next_initialized_tick (sa_ticks a) (tick_current state) (sa_zero_for_one a) (sa_search a))
       (\<lambda>(tick_next, initialized).
     let tick_next = clamp_tick tick_next
     in and_then (to_i24 tick_next) (\<lambda>t.
     and_then (get_sqrt_ratio_at_tick t) (\<lambda>sqrt_price_next_x96.
     Ok \<lparr>sqrt_price_start_x96 = sqrt_price_x96 state, tick_next = tick_next,
         step_initialized = initialized, sqrt_price_next_x96 = sqrt_price_next_x96,
         amount_in = 0, amount_out = 0, fee_amount = 0\<rparr>)))"

definition step_amounts :: "swap_args \<Rightarrow> swap_state \<Rightarrow> step_computations \<Rightarrow> (swap_state \<times> step_computations) res" where
  "step_amounts a state step =
     and_then (compute_swap_step (sqrt_price_x96 state)
        (if sa_zero_for_one a then max (sqrt_price_next_x96 step) (sa_limit a)
         else min (sqrt_price_next_x96 step) (sa_limit a))
        (liquidity state) (amount_specified_remaining state) (sa_fee a))
       (\<lambda>(price, ain, aout, fee).
     let step = step\<lparr>amount_in := ain, amount_out := aout, fee_amount := fee\<rparr>;
         state = state\<lparr>sqrt_price_x96 := price\<rparr>;
         state = (if sa_exact_input a
           then state\<lparr>amount_specified_remaining := amount_specified_remaining state - ain - fee,
                      amount_calculated := amount_calculated state - aout\<rparr>
           else state\<lparr>amount_specified_remaining := amount_specified_remaining state + aout,
                      amount_calculated := amount_calculated state + ain + fee\<rparr>)
     in Ok (state, step))"

definition no_progress :: "swap_args \<Rightarrow> swap_state \<Rightarrow> step_computations \<Rightarrow> bool" where
  "no_progress a state step \<longleftrightarrow>
     amount_in step = 0 \<and> amount_out step = 0 \<and> fee_amount step = 0 \<and>
     (sqrt_price_x96 state \<noteq> sqrt_price_next_x96 step \<or>
      (\<not> sa_zero_for_one a \<and> tick_next step \<le> tick_current state))"

text \<open>\<^verbatim>\<open>-liquidity_net\<close> wraps for the least \<open>i128\<close>.\<close>

definition cross_tick :: "swap_args \<Rightarrow> swap_state \<Rightarrow> step_computations \<Rightarrow> swap_state control res" where
  "cross_tick a state step =
     (if sqrt_price_x96 state = sqrt_price_next_x96 step then
        and_then
          (if step_initialized step then
             and_then (get_tick (sa_ticks a) (tick_next step)) (\<lambda>t.
               add_delta (liquidity state)
                 (if sa_zero_for_one a then swrap 128 (- liquidity_net t) else liquidity_net t))
           else Ok (liquidity state))
          (\<lambda>l.
            let state = state\<lparr>liquidity := l,
                  tick_current := (if sa_zero_for_one a then tick_next step - 1 else tick_next step)\<rparr>
            in if liquidity state = 0 then Ok (Break state) else Ok (Continue state))
      else if sqrt_price_x96 state \<noteq> sqrt_price_start_x96 step then
        and_then (get_tick_at_sqrt_ratio (sqrt_price_x96 state)) (\<lambda>t.
          Ok (Continue (state\<lparr>tick_current := from_i24 t\<rparr>)))
      else Ok (Continue state))"

definition swap_iteration :: "swap_args \<Rightarrow> swap_state \<Rightarrow> swap_state control res" where
  "swap_iteration a state =
     and_then (step_target a state) (\<lambda>step.
     and_then (step_amounts a state step) (\<lambda>(state, step).
     if no_progress a state step then Err (NoProgress (liquidity state) (tick_current state))
     else cross_tick a state step))"

partial_function (option) swap_loop :: "swap_args \<Rightarrow> swap_state \<Rightarrow> swap_state res option" where
  "swap_loop a state =
     (if amount_specified_remaining state \<noteq> 0 \<and> sqrt_price_x96 state \<noteq> sa_limit a
      then (case swap_iteration a state of
              Inl e \<Rightarrow> Some (Inl e)
            | Inr c \<Rightarrow> (case c of Break s \<Rightarrow> Some (Inr s) | Continue s \<Rightarrow> swap_loop a s))
      else Some (Ok state))"

declare swap_loop.simps [code]

definition v3_swap ::
    "u24 \<Rightarrow> u160 \<Rightarrow> int \<Rightarrow> u128 \<Rightarrow> tick_map \<Rightarrow> tick_search \<Rightarrow> bool \<Rightarrow> i256 \<Rightarrow> u160 option \<Rightarrow> swap_state res option" where
  "v3_swap fee price tick l tick_data_provider search zero_for_one amount_specified sqrt_price_limit_x96 =
     (let limit = (case sqrt_price_limit_x96 of Some l \<Rightarrow> l
                   | None \<Rightarrow> if zero_for_one then MIN_SQRT_RATIO + 1 else MAX_SQRT_RATIO - 1)
      in if zero_for_one \<and> \<not> limit > MIN_SQRT_RATIO then Some (Err RatioMin)
         else if zero_for_one \<and> \<not> limit < price then Some (Err RatioCurrent)
         else if \<not> zero_for_one \<and> \<not> limit < MAX_SQRT_RATIO then Some (Err RatioMax)
         else if \<not> zero_for_one \<and> \<not> limit > price then Some (Err RatioCurrent)
         else swap_loop
           \<lparr>sa_fee = fee, sa_ticks = tick_data_provider, sa_search = search,
            sa_zero_for_one = zero_for_one, sa_exact_input = (sint amount_specified \<ge> 0), sa_limit = limit\<rparr>
           \<lparr>amount_specified_remaining = amount_specified, amount_calculated = 0,
            sqrt_price_x96 = price, tick_current = tick, liquidity = l\<rparr>)"

section \<open>One step, exactly\<close>

lemma MAX_FEE_uint: "uint MAX_FEE = 1000000"
  by code_simp

lemma fee_uint: "uint (ucast (f :: u24) :: u256) = uint f"
  by (rule uint_ucast_up) simp

lemma fee_complement_uint:
  assumes "uint f < 1000000"
  shows "uint (MAX_FEE - ucast (f :: u24)) = 1000000 - uint f" and "MAX_FEE - ucast f \<noteq> 0"
proof -
  show "uint (MAX_FEE - ucast f) = 1000000 - uint f"
    using assms by (subst uint_sub_exact) (simp_all add: word_le_def MAX_FEE_uint fee_uint)
  then show "MAX_FEE - ucast f \<noteq> 0" using assms by (auto simp: word_eq_uint)
qed

lemma amount_0_delta_ok:
  fixes a b :: u160
  assumes "a \<noteq> 0" and "a \<le> b"
  shows "get_amount_0_delta a b l up = Ok (word_of_int (amount_0 (uint a) (uint b) (uint l) up))"
    and "uint (word_of_int (amount_0 (uint a) (uint b) (uint l) up) :: u256) = amount_0 (uint a) (uint b) (uint l) up"
    and "amount_0 (uint a) (uint b) (uint l) up < 2 ^ 224"
    and "get_amount_0_delta b a l up = get_amount_0_delta a b l up"
proof -
  have a: "0 < uint a" by (rule uint_pos [OF assms(1)])
  show "get_amount_0_delta a b l up = Ok (word_of_int (amount_0 (uint a) (uint b) (uint l) up))"
    using assms a by (simp add: amount_0_delta_eq min_def max_def)
  have le: "uint a \<le> uint b" using assms by (simp add: word_le_def)
  note b = amount_0_bounds [OF a le, of "uint l" up]
  show lt: "amount_0 (uint a) (uint b) (uint l) up < 2 ^ 224"
    using b numerator_less [of l] by simp
  show "uint (word_of_int (amount_0 (uint a) (uint b) (uint l) up) :: u256) = amount_0 (uint a) (uint b) (uint l) up"
    using b lt by (intro uint_of_int) simp_all
  show "get_amount_0_delta b a l up = get_amount_0_delta a b l up"
    using assms by (simp add: amount_0_delta_eq min.commute max.commute)
qed

lemma amount_1_delta_ok:
  fixes a b :: u160
  assumes "a \<le> b"
  shows "get_amount_1_delta a b l up = Ok (word_of_int (amount_1 (uint a) (uint b) (uint l) up))"
    and "uint (word_of_int (amount_1 (uint a) (uint b) (uint l) up) :: u256) = amount_1 (uint a) (uint b) (uint l) up"
    and "amount_1 (uint a) (uint b) (uint l) up < 2 ^ 224"
    and "get_amount_1_delta b a l up = get_amount_1_delta a b l up"
proof -
  show "get_amount_1_delta a b l up = Ok (word_of_int (amount_1 (uint a) (uint b) (uint l) up))"
    using assms by (simp add: amount_1_delta_eq min_def max_def)
  have le: "uint a \<le> uint b" using assms by (simp add: word_le_def)
  have b: "0 \<le> amount_1 (uint a) (uint b) (uint l) up" "amount_1 (uint a) (uint b) (uint l) up \<le> 2 ^ 192"
    using le uint_less [of l] uint_less [of b] by (intro amount_1_bounds; simp)+
  then show "amount_1 (uint a) (uint b) (uint l) up < 2 ^ 224" by simp
  show "uint (word_of_int (amount_1 (uint a) (uint b) (uint l) up) :: u256) = amount_1 (uint a) (uint b) (uint l) up"
    using b by (intro uint_of_int) simp_all
  show "get_amount_1_delta b a l up = get_amount_1_delta a b l up"
    using assms by (simp add: amount_1_delta_eq min.commute max.commute)
qed

text \<open>The fee charged on a full step never lifts the total above what remained.\<close>

lemma fee_fits:
  fixes a f r :: int
  assumes "f < 1000000" and "a \<le> r * (1000000 - f) div 1000000"
  shows "a + cdiv (a * f) (1000000 - f) \<le> r"
proof -
  have "a * 1000000 \<le> r * (1000000 - f)" using assms(2) le_div_int [of 1000000 a] by simp
  then have "a * f \<le> (r - a) * (1000000 - f)" by (simp add: algebra_simps)
  then have "cdiv (a * f) (1000000 - f) \<le> r - a" using assms(1) by (simp add: cdiv_le)
  then show ?thesis by simp
qed

text \<open>The cost and the yield of a move between two prices, in the direction of the move.\<close>

definition move_cost :: "u160 \<Rightarrow> u160 \<Rightarrow> u128 \<Rightarrow> int" where
  "move_cost p q l =
     (if q \<le> p then amount_0 (uint q) (uint p) (uint l) True else amount_1 (uint p) (uint q) (uint l) True)"

definition move_yield :: "u160 \<Rightarrow> u160 \<Rightarrow> u128 \<Rightarrow> int" where
  "move_yield p q l =
     (if q \<le> p then amount_1 (uint q) (uint p) (uint l) False else amount_0 (uint p) (uint q) (uint l) False)"

definition between :: "u160 \<Rightarrow> u160 \<Rightarrow> u160 \<Rightarrow> bool" where
  "between p q r \<longleftrightarrow> (if q \<le> p then q \<le> r \<and> r \<le> p else p \<le> r \<and> r \<le> q)"

text \<open>A partial input: the next price stays between current and target and the input pays for the move.\<close>

lemma partial_input:
  fixes p q :: u160
  assumes nz: "p \<noteq> 0" "q \<noteq> 0" and less: "uint x < move_cost p q l"
  obtains r where "get_next_sqrt_price_from_input p l x (q \<le> p) = Ok r" and "between p q r"
    and "r \<noteq> 0" and "(if q \<le> p then amount_0 (uint r) (uint p) (uint l) True
      else amount_1 (uint p) (uint r) (uint l) True) \<le> uint x"
proof -
  have l: "l \<noteq> 0"
  proof
    assume "l = 0"
    then have "move_cost p q l = 0" using uint_pos [OF nz(1)] uint_pos [OF nz(2)]
      by (simp add: move_cost_def amount_0_def amount_1_def cdiv_def)
    with less show False by simp
  qed
  have pos: "0 < uint p" "0 < uint q" "0 < uint l" "0 < uint l * 2 ^ 96"
    using nz l by (simp_all add: uint_pos)
  show ?thesis
  proof (cases "q \<le> p")
    case True
    let ?r = "price_0_add (uint l * 2 ^ 96) (uint p) (uint x)"
    have le: "uint q \<le> uint p" using True by (simp add: word_le_def)
    have x: "uint x < amount_0 (uint q) (uint p) (uint l) True" using less True by (simp add: move_cost_def)
    have r: "0 < ?r" "?r \<le> uint p" "uint q \<le> ?r"
      using price_0_add_pos [OF pos(4,1)] price_0_add_le [of "uint l * 2 ^ 96" "uint p"] pos
        price_0_add_target [OF pos(3,2) le _ x] by simp_all
    have "amount_0 (uint q) (uint p) (uint l) True < 2 ^ 224" by (rule amount_0_delta_ok(3) [OF nz(2) True])
    moreover have "uint l * 2 ^ 96 div uint p \<le> uint l * 2 ^ 96"
      using pos zdiv_mono2 [of "uint l * 2 ^ 96" 1 "uint p"] by simp
    ultimately have "uint l * 2 ^ 96 div uint p + uint x < 2 ^ 256"
      using x numerator_less [of l] by simp
    from next_price_0_add_eq [OF nz(1) l this]
    have ok: "get_next_sqrt_price_from_input p l x (q \<le> p) = Ok (word_of_int ?r)"
      using True nz l by (simp add: get_next_sqrt_price_from_input_def)
    have u: "uint (word_of_int ?r :: u160) = ?r" using r uint_less [of p] by (intro uint_of_int) simp_all
    have "amount_0 ?r (uint p) (uint l) True \<le> uint x"
      by (rule price_0_add_pays [OF pos(3,1)]) simp
    moreover have "word_of_int ?r \<noteq> (0 :: u160)" using u r by (auto simp: word_eq_uint)
    moreover have "between p q (word_of_int ?r)" using True r u by (simp add: between_def word_le_def)
    ultimately show ?thesis using that [OF ok] True u by simp
  next
    case False
    let ?q = "uint x * 2 ^ 96 div uint l"
    have x: "uint x < amount_1 (uint p) (uint q) (uint l) True" using less False by (simp add: move_cost_def)
    have q: "0 \<le> ?q" using pos by (simp add: pos_imp_zdiv_nonneg_iff)
    have r: "uint p + ?q \<le> uint q" by (rule price_1_add_target [OF pos(3) x])
    then have lt: "uint p + ?q < 2 ^ 160" using uint_less [of q] by simp
    then have big: "uint p + ?q < 2 ^ 256" by simp
    then have "\<not> 2 ^ 256 \<le> ?q" using pos(1) by linarith
    moreover have "(uint p + ?q) mod 2 ^ 256 = uint p + ?q"
      using q big by (intro mod_pos_pos_trivial) simp_all
    ultimately have ok: "get_next_sqrt_price_from_input p l x (q \<le> p) = Ok (word_of_int (uint p + ?q))"
      using False nz l lt
      by (simp add: get_next_sqrt_price_from_input_def next_price_1_add_eq [OF l] Let_def del: of_int_add)
    have u: "uint (word_of_int (uint p + ?q) :: u160) = uint p + ?q"
      using q lt by (intro uint_of_int) simp_all
    have "amount_1 (uint p) (uint p + ?q) (uint l) True \<le> uint x" by (rule price_1_add_pays [OF pos(3)])
    moreover have "word_of_int (uint p + ?q) \<noteq> (0 :: u160)" using u pos q by (auto simp: word_eq_uint)
    moreover have "between p q (word_of_int (uint p + ?q))"
      unfolding between_def word_le_def u using False r q by (simp add: word_le_def)
    ultimately show ?thesis using that [OF ok] False by (simp only: u if_False simp_thms)
  qed
qed

text \<open>A partial output: the next price stays between current and target and the move yields enough.\<close>

lemma partial_output:
  fixes p q :: u160
  assumes nz: "p \<noteq> 0" "q \<noteq> 0" and less: "uint x < move_yield p q l"
  obtains r where "get_next_sqrt_price_from_output p l x (q \<le> p) = Ok r" and "between p q r"
    and "r \<noteq> 0" and "uint x \<le> (if q \<le> p then amount_1 (uint r) (uint p) (uint l) False
      else amount_0 (uint p) (uint r) (uint l) False)"
proof -
  have l: "l \<noteq> 0"
  proof
    assume "l = 0"
    then have "move_yield p q l = 0"
      by (simp add: move_yield_def amount_0_def amount_1_def)
    with less show False by simp
  qed
  have pos: "0 < uint p" "0 < uint q" "0 < uint l" using nz l by (simp_all add: uint_pos)
  show ?thesis
  proof (cases "q \<le> p")
    case True
    let ?q = "cdiv (uint x * 2 ^ 96) (uint l)"
    have x: "uint x < amount_1 (uint q) (uint p) (uint l) False" using less True by (simp add: move_yield_def)
    have q: "0 \<le> ?q" using pos by (simp add: cdiv_nonneg)
    have r: "uint q \<le> uint p - ?q" by (rule price_1_sub_target [OF pos(3) less_imp_le [OF x]])
    have p: "uint p < 2 ^ 160" using uint_less [of p] by simp
    have "?q < 2 ^ 256" using r p pos(2) by simp
    then have ok: "get_next_sqrt_price_from_output p l x (q \<le> p) = Ok (word_of_int (uint p - ?q))"
      using True nz l r pos(2)
      by (simp add: get_next_sqrt_price_from_output_def next_price_1_sub_eq [OF l] Let_def del: of_int_diff)
    have u: "uint (word_of_int (uint p - ?q) :: u160) = uint p - ?q"
      using q r p pos(2) by (intro uint_of_int) simp_all
    have "uint x \<le> amount_1 (uint p - ?q) (uint p) (uint l) False" by (rule price_1_sub_pays [OF pos(3)])
    moreover have "word_of_int (uint p - ?q) \<noteq> (0 :: u160)" using u pos(2) r by (auto simp: word_eq_uint)
    moreover have "between p q (word_of_int (uint p - ?q))"
      unfolding between_def word_le_def u using True r q by (simp add: word_le_def)
    ultimately show ?thesis using that [OF ok] True by (simp only: u if_True simp_thms)
  next
    case False
    then have le: "uint p \<le> uint q" by (simp add: word_le_def)
    have x: "uint x < amount_0 (uint p) (uint q) (uint l) False" using less False by (simp add: move_yield_def)
    show ?thesis
    proof (cases "x = 0")
      case True
      then have "get_next_sqrt_price_from_output p l x (q \<le> p) = Ok p"
        using False nz l
        by (simp add: get_next_sqrt_price_from_output_def get_next_sqrt_price_from_amount_0_rounding_up_def)
      moreover have "between p q p" using False by (simp add: between_def word_le_def)
      ultimately show ?thesis using that [of p] nz True False by (simp add: amount_0_def)
    next
      case nzx: False
      let ?n = "uint l * 2 ^ 96"
      let ?r = "cdiv (?n * uint p) (?n - uint x * uint p)"
      note t = price_0_sub_target [OF pos(1) le _ pos(3) x]
      have r: "uint p \<le> ?r" using t(1) pos by (intro price_0_sub_ge) simp_all
      have lt: "?r < 2 ^ 160" using t(2) uint_less [of q] by simp
      have ok: "get_next_sqrt_price_from_output p l x (q \<le> p) = Ok (word_of_int ?r)"
        using False nz l t(1) lt
        by (simp add: get_next_sqrt_price_from_output_def next_price_0_sub_eq [OF nz(1) nzx] Let_def)
      have u: "uint (word_of_int ?r :: u160) = ?r" using r lt pos by (intro uint_of_int) simp_all
      have "uint x \<le> amount_0 (uint p) ?r (uint l) False"
        using pos t(1) by (intro price_0_sub_pays) simp_all
      moreover have "word_of_int ?r \<noteq> (0 :: u160)" using u pos(1) r by (auto simp: word_eq_uint)
      moreover have "between p q (word_of_int ?r)"
        unfolding between_def word_le_def u using False r t(2) by (simp add: word_le_def)
      ultimately show ?thesis using that [OF ok] False by (simp only: u if_False simp_thms)
    qed
  qed
qed

lemma step_input_code:
  assumes "0 \<le> sint rem"
  shows "compute_swap_step p q l rem f =
    and_then (mul_div rem (MAX_FEE - ucast f) MAX_FEE) (\<lambda>less_fee.
    and_then (if q \<le> p then get_amount_0_delta q p l True else get_amount_1_delta p q l True) (\<lambda>ain.
    and_then (if less_fee \<ge> ain
       then and_then (mul_div_rounding_up ain (ucast f) (MAX_FEE - ucast f)) (\<lambda>fee. Ok (q, ain, fee))
       else and_then (get_next_sqrt_price_from_input p l less_fee (q \<le> p))
         (\<lambda>r. Ok (r, less_fee, rem - less_fee))) (\<lambda>(r, ain, fee).
    and_then (if q \<le> p then get_amount_1_delta r p l False else get_amount_0_delta p r l False) (\<lambda>aout.
    Ok (r, ain, aout, fee)))))"
  using assms by (simp only: compute_swap_step_def Let_def if_True)

lemma step_output_code:
  assumes "sint rem < 0"
  shows "compute_swap_step p q l rem f =
    and_then (if q \<le> p then get_amount_1_delta q p l False else get_amount_0_delta p q l False) (\<lambda>aout.
    and_then (if - rem \<ge> aout then Ok (q, aout)
       else and_then (get_next_sqrt_price_from_output p l (- rem) (q \<le> p)) (\<lambda>r. Ok (r, - rem)))
      (\<lambda>(r, aout).
    and_then (if q \<le> p then get_amount_0_delta r p l True else get_amount_1_delta p r l True) (\<lambda>ain.
    and_then (mul_div_rounding_up ain (ucast f) (MAX_FEE - ucast f)) (\<lambda>fee.
    Ok (r, ain, aout, fee)))))"
  using assms by (simp only: compute_swap_step_def Let_def if_False not_le [symmetric])

lemma yield_delta:
  assumes "p \<noteq> 0" and "r \<noteq> 0" and "between p q r"
  shows "(if q \<le> p then get_amount_1_delta r p l False else get_amount_0_delta p r l False)
      = Ok (word_of_int (if q \<le> p then amount_1 (uint r) (uint p) (uint l) False
                         else amount_0 (uint p) (uint r) (uint l) False))"
    and "(if q \<le> p then get_amount_0_delta r p l True else get_amount_1_delta p r l True)
      = Ok (word_of_int (if q \<le> p then amount_0 (uint r) (uint p) (uint l) True
                         else amount_1 (uint p) (uint r) (uint l) True))"
  using assms amount_0_delta_ok(1) [of r p l True] amount_0_delta_ok(1) [of p r l False]
    amount_1_delta_ok(1) [of r p l False] amount_1_delta_ok(1) [of p r l True]
  by (auto simp: between_def split: if_splits)

lemma yield_bounds:
  fixes l :: u128
  assumes "p \<noteq> 0" and "r \<noteq> 0" and "between p q r"
  shows "uint (word_of_int (if q \<le> p then amount_1 (uint r) (uint p) (uint l) False
                         else amount_0 (uint p) (uint r) (uint l) False) :: u256)
      = (if q \<le> p then amount_1 (uint r) (uint p) (uint l) False
                         else amount_0 (uint p) (uint r) (uint l) False)"
    and "uint (word_of_int (if q \<le> p then amount_0 (uint r) (uint p) (uint l) True
                         else amount_1 (uint p) (uint r) (uint l) True) :: u256)
      = (if q \<le> p then amount_0 (uint r) (uint p) (uint l) True
                         else amount_1 (uint p) (uint r) (uint l) True)"
    and "(if q \<le> p then amount_0 (uint r) (uint p) (uint l) True
                         else amount_1 (uint p) (uint r) (uint l) True) < 2 ^ 224"
  using assms amount_0_delta_ok(2,3) [of r p l True] amount_0_delta_ok(2,3) [of p r l False]
    amount_1_delta_ok(2,3) [of r p l False] amount_1_delta_ok(2,3) [of p r l True]
  by (auto simp: between_def simp del: uint_of_int of_int_numeral split: if_splits)

lemma between_target: "between p q q"
  by (simp add: between_def) (metis linear)

lemma sint_nonneg_uint: "0 \<le> sint (x :: 'n::len word) \<Longrightarrow> uint x = sint x"
proof -
  assume s: "0 \<le> sint x"
  have "sint x < 2 ^ (LENGTH('n) - 1)" by (rule sint_lt)
  also have "(2 :: int) ^ (LENGTH('n) - 1) \<le> 2 ^ LENGTH('n)" by (intro power_increasing) simp_all
  finally show "uint x = sint x" using s by (simp add: uint_sint take_bit_int_eq_self)
qed

lemma uint_neg_sint: "sint (x :: 'n::len word) < 0 \<Longrightarrow> uint (- x) = - sint x"
proof -
  assume s: "sint x < 0"
  have "- (2 ^ (LENGTH('n) - 1)) \<le> sint x" by (rule sint_ge)
  moreover have "(2 :: int) ^ (LENGTH('n) - 1) < 2 ^ LENGTH('n)" by (intro power_strict_increasing) simp_all
  ultimately have "uint (word_of_int (- sint x) :: 'n word) = - sint x"
    using s by (intro uint_of_int) linarith+
  then show "uint (- x) = - sint x" by simp
qed

lemma amount_same: "0 < p \<Longrightarrow> amount_0 p p l b = 0" "amount_1 p p l b = 0"
  by (simp_all add: amount_0_def amount_1_def cdiv_def)

lemma cdiv_zero: "0 < b \<Longrightarrow> cdiv 0 b = 0"
  by (simp add: cdiv_def)

lemma between_same: "between p p r \<Longrightarrow> r = p"
  by (simp add: between_def order_antisym)

lemma move_cost_same: "p \<noteq> 0 \<Longrightarrow> move_cost p p l = 0"
  using amount_same(1) [OF uint_pos [of p]] by (simp add: move_cost_def)

text \<open>The outcome of an exact-input step and of an exact-output step, as the specification has them.\<close>

definition input_step_ok :: "u160 \<Rightarrow> u160 \<Rightarrow> u128 \<Rightarrow> i256 \<Rightarrow> u160 \<times> u256 \<times> u256 \<times> u256 \<Rightarrow> bool" where
  "input_step_ok p q l rem = (\<lambda>(r, ain, aout, fee).
     r \<noteq> 0 \<and> between p q r \<and> uint ain + uint fee \<le> uint rem \<and>
     (r = q \<or> uint ain + uint fee = uint rem) \<and> (p = q \<longrightarrow> ain = 0 \<and> fee = 0) \<and>
     (if q \<le> p
      then amount_0 (uint r) (uint p) (uint l) True \<le> uint ain \<and> uint aout = amount_1 (uint r) (uint p) (uint l) False
      else amount_1 (uint p) (uint r) (uint l) True \<le> uint ain \<and> uint aout = amount_0 (uint p) (uint r) (uint l) False))"

definition output_step_ok :: "u160 \<Rightarrow> u160 \<Rightarrow> u128 \<Rightarrow> i256 \<Rightarrow> u24 \<Rightarrow> u160 \<times> u256 \<times> u256 \<times> u256 \<Rightarrow> bool" where
  "output_step_ok p q l rem f = (\<lambda>(r, ain, aout, fee).
     r \<noteq> 0 \<and> between p q r \<and> uint aout \<le> - sint rem \<and> (r = q \<or> uint aout = - sint rem) \<and>
     uint fee = cdiv (uint ain * uint f) (1000000 - uint f) \<and>
     (if q \<le> p
      then uint ain = amount_0 (uint r) (uint p) (uint l) True \<and> uint aout \<le> amount_1 (uint r) (uint p) (uint l) False
      else uint ain = amount_1 (uint p) (uint r) (uint l) True \<and> uint aout \<le> amount_0 (uint p) (uint r) (uint l) False))"

lemma input_step_correct:
  fixes p q :: u160
  assumes nz: "p \<noteq> 0" "q \<noteq> 0" and f: "uint f < 1000000" and rem: "0 \<le> sint rem"
  shows "\<exists>v. compute_swap_step p q l rem f = Ok v \<and> input_step_ok p q l rem v"
proof -
  define less_fee where "less_fee = uint rem * (1000000 - uint f) div 1000000"
  have "less_fee \<le> uint rem * 1000000 div 1000000"
    unfolding less_fee_def by (intro zdiv_mono1 mult_left_mono) simp_all
  then have lf: "0 \<le> less_fee" "less_fee \<le> uint rem" "less_fee < 2 ^ 256"
    using f uint_less [of rem] by (simp_all add: less_fee_def pos_imp_zdiv_nonneg_iff)
  let ?lf = "word_of_int less_fee :: u256"
  have ulf: "uint ?lf = less_fee" using lf by (intro uint_of_int) simp_all
  have md: "mul_div rem (MAX_FEE - ucast f) MAX_FEE = Ok ?lf"
    using lf MAX_FEE_uint
    by (simp add: mul_div_Ok ulf fee_complement_uint(1) [OF f] less_fee_def [symmetric] word_eq_uint)
  let ?c = "move_cost p q l"
  have cost: "(if q \<le> p then get_amount_0_delta q p l True else get_amount_1_delta p q l True)
      = Ok (word_of_int ?c)"
    and uc: "uint (word_of_int ?c :: u256) = ?c" "?c < 2 ^ 224" "0 \<le> ?c"
    using yield_delta(2) [OF nz between_target] yield_bounds(2,3) [OF nz between_target]
      uint_ge_0 [of "word_of_int ?c :: u256"]
    unfolding move_cost_def by (simp_all only:)
  show ?thesis
  proof (cases "?c \<le> less_fee")
    case True
    let ?fee = "cdiv (?c * uint f) (1000000 - uint f)"
    have fits: "?c + ?fee \<le> uint rem" using fee_fits [OF f True [unfolded less_fee_def]] .
    have "0 \<le> ?fee" using f uc by (simp add: cdiv_nonneg)
    moreover have "?fee < 2 ^ 256" using fits uc(3) uint_less [of rem] by simp
    ultimately have fee: "mul_div_rounding_up (word_of_int ?c) (ucast f) (MAX_FEE - ucast f) = Ok (word_of_int ?fee)"
      and ufee: "uint (word_of_int ?fee :: u256) = ?fee"
      by (simp_all only: mul_div_cdiv fee_complement_uint [OF f] uc(1) fee_uint uint_of_int)
         (use fee_complement_uint [OF f] in \<open>simp_all add: uint_of_int\<close>)
    have le: "word_of_int ?c \<le> ?lf" using True by (simp only: word_le_def uc(1) ulf)
    have "compute_swap_step p q l rem f = Ok (q, word_of_int ?c,
        word_of_int (if q \<le> p then amount_1 (uint q) (uint p) (uint l) False
                     else amount_0 (uint p) (uint q) (uint l) False), word_of_int ?fee)"
      unfolding step_input_code [OF rem] md cost and_then.simps
      by (simp only: le if_True fee and_then.simps prod.case yield_delta(1) [OF nz between_target])
    moreover have same: "p = q \<longrightarrow> word_of_int ?c = (0 :: u256) \<and> word_of_int ?fee = (0 :: u256)"
    proof
      assume e: "p = q"
      then have c0: "?c = 0" using move_cost_same [OF nz(1), of l] by simp
      then have "?fee = 0" using cdiv_zero [of "1000000 - uint f"] f by simp
      with c0 show "word_of_int ?c = (0 :: u256) \<and> word_of_int ?fee = (0 :: u256)" by simp
    qed
    moreover have "input_step_ok p q l rem (q, word_of_int ?c,
        word_of_int (if q \<le> p then amount_1 (uint q) (uint p) (uint l) False
                     else amount_0 (uint p) (uint q) (uint l) False), word_of_int ?fee)"
      unfolding input_step_ok_def prod.case ufee uc(1) yield_bounds(1) [OF nz between_target]
      using nz fits between_target same by (simp add: move_cost_def)
    ultimately show ?thesis by blast
  next
    case False
    then have "uint ?lf < move_cost p q l" by (simp only: ulf not_le)
    then obtain r where r: "get_next_sqrt_price_from_input p l ?lf (q \<le> p) = Ok r" "between p q r" "r \<noteq> 0"
      "(if q \<le> p then amount_0 (uint r) (uint p) (uint l) True
        else amount_1 (uint p) (uint r) (uint l) True) \<le> uint ?lf"
      by (rule partial_input [OF nz])
    have sub: "uint (rem - ?lf) = uint rem - less_fee"
      using lf by (simp only: uint_sub_exact word_le_def ulf)
    have le: "\<not> word_of_int ?c \<le> ?lf" using False by (simp only: word_le_def uc(1) ulf) simp
    have "compute_swap_step p q l rem f = Ok (r, ?lf,
        word_of_int (if q \<le> p then amount_1 (uint r) (uint p) (uint l) False
                     else amount_0 (uint p) (uint r) (uint l) False), rem - ?lf)"
      unfolding step_input_code [OF rem] md cost and_then.simps
      by (simp only: le if_False r(1) and_then.simps prod.case yield_delta(1) [OF nz(1) r(3,2)])
    moreover have "input_step_ok p q l rem (r, ?lf,
        word_of_int (if q \<le> p then amount_1 (uint r) (uint p) (uint l) False
                     else amount_0 (uint p) (uint r) (uint l) False), rem - ?lf)"
      unfolding input_step_ok_def prod.case sub yield_bounds(1) [OF nz(1) r(3,2)]
      using r ulf False lf move_cost_same [OF nz(1), of l] by (cases "q \<le> p") auto
    ultimately show ?thesis by blast
  qed
qed

lemma fee_word:
  assumes f: "uint f < 1000000" and c: "0 \<le> c" "c < 2 ^ 224" "uint (word_of_int c :: u256) = c"
  shows "mul_div_rounding_up (word_of_int c) (ucast (f :: u24)) (MAX_FEE - ucast f)
      = Ok (word_of_int (cdiv (c * uint f) (1000000 - uint f)))"
    and "uint (word_of_int (cdiv (c * uint f) (1000000 - uint f)) :: u256) = cdiv (c * uint f) (1000000 - uint f)"
proof -
  have "c * uint f \<le> 2 ^ 224 * 2 ^ 24" using c uint_less [of f] by (intro mult_mono) simp_all
  also have "\<dots> \<le> 2 ^ 248 * (1000000 - uint f)" using f by simp
  finally have "cdiv (c * uint f) (1000000 - uint f) \<le> 2 ^ 248" using f by (simp only: cdiv_le)
  moreover have "0 \<le> cdiv (c * uint f) (1000000 - uint f)" using f c by (simp add: cdiv_nonneg)
  ultimately show u: "uint (word_of_int (cdiv (c * uint f) (1000000 - uint f)) :: u256) = cdiv (c * uint f) (1000000 - uint f)"
    by (intro uint_of_int) simp_all
  show "mul_div_rounding_up (word_of_int c) (ucast f) (MAX_FEE - ucast f)
      = Ok (word_of_int (cdiv (c * uint f) (1000000 - uint f)))"
    unfolding mul_div_cdiv u fee_complement_uint(1) [OF f] c(3) fee_uint
    using fee_complement_uint(2) [OF f] by simp
qed

lemma output_step_correct:
  fixes p q :: u160
  assumes nz: "p \<noteq> 0" "q \<noteq> 0" and f: "uint f < 1000000" and rem: "sint rem < 0"
  shows "\<exists>v. compute_swap_step p q l rem f = Ok v \<and> output_step_ok p q l rem f v"
proof -
  have urem: "uint (- rem) = - sint rem"
    by (rule uint_neg_sint [OF rem])
  let ?y = "move_yield p q l"
  have yield: "(if q \<le> p then get_amount_1_delta q p l False else get_amount_0_delta p q l False)
      = Ok (word_of_int ?y)"
    and uy: "uint (word_of_int ?y :: u256) = ?y"
    using yield_delta(1) [OF nz between_target] yield_bounds(1) [OF nz between_target]
    unfolding move_yield_def by (simp_all only:)
  obtain r aout where step: "(if - rem \<ge> word_of_int ?y then Ok (q, word_of_int ?y)
       else and_then (get_next_sqrt_price_from_output p l (- rem) (q \<le> p)) (\<lambda>r. Ok (r, - rem))) = Ok (r, aout)"
    and r: "r \<noteq> 0" "between p q r" "uint aout \<le> - sint rem" "r = q \<or> uint aout = - sint rem"
      "uint aout \<le> (if q \<le> p then amount_1 (uint r) (uint p) (uint l) False
        else amount_0 (uint p) (uint r) (uint l) False)"
  proof (cases "?y \<le> - sint rem")
    case True
    then show ?thesis
      using that [of q "word_of_int ?y"] nz between_target uy
      by (simp add: word_le_def urem move_yield_def)
  next
    case False
    then have "uint (- rem) < ?y" by (simp only: urem not_le)
    then obtain r where "get_next_sqrt_price_from_output p l (- rem) (q \<le> p) = Ok r" "between p q r" "r \<noteq> 0"
      "uint (- rem) \<le> (if q \<le> p then amount_1 (uint r) (uint p) (uint l) False
        else amount_0 (uint p) (uint r) (uint l) False)"
      by (rule partial_output [OF nz])
    then show ?thesis using that [of r "- rem"] False by (simp add: word_le_def urem uy)
  qed
  define c where "c = (if q \<le> p then amount_0 (uint r) (uint p) (uint l) True
                         else amount_1 (uint p) (uint r) (uint l) True)"
  have uc: "uint (word_of_int c :: u256) = c" "c < 2 ^ 224"
    unfolding c_def by (rule yield_bounds [OF nz(1) r(1,2)])+
  have c0: "0 \<le> c" using uc(1) uint_ge_0 [of "word_of_int c :: u256"] by simp
  note fee = fee_word [OF f c0 uc(2,1)]
  have "compute_swap_step p q l rem f =
      Ok (r, word_of_int c, aout, word_of_int (cdiv (c * uint f) (1000000 - uint f)))"
    unfolding step_output_code [OF rem] yield and_then.simps step prod.case
      yield_delta(2) [OF nz(1) r(1,2)] c_def [symmetric] fee(1) ..
  moreover have "output_step_ok p q l rem f (r, word_of_int c, aout, word_of_int (cdiv (c * uint f) (1000000 - uint f)))"
    unfolding output_step_ok_def prod.case fee(2) uc(1) using r by (cases "q \<le> p") (simp_all add: c_def)
  ultimately show ?thesis by blast
qed

section \<open>The loop: a rule for termination and invariants\<close>

definition swap_goes_on :: "swap_args \<Rightarrow> swap_state \<Rightarrow> bool" where
  "swap_goes_on a s \<longleftrightarrow> amount_specified_remaining s \<noteq> 0 \<and> sqrt_price_x96 s \<noteq> sa_limit a"

lemma swap_loop_stop: "\<not> swap_goes_on a s \<Longrightarrow> swap_loop a s = Some (Ok s)"
  by (subst swap_loop.simps) (auto simp: swap_goes_on_def)

lemma swap_loop_step:
  "swap_goes_on a s \<Longrightarrow> swap_loop a s = (case swap_iteration a s of Inl e \<Rightarrow> Some (Inl e)
     | Inr (Break s') \<Rightarrow> Some (Ok s') | Inr (Continue s') \<Rightarrow> swap_loop a s')"
  by (subst swap_loop.simps) (auto simp: swap_goes_on_def split: sum.split control.split)

text \<open>
  If every iteration keeps \<open>I\<close> and lowers the measure while the loop goes on, the loop returns; a
  state it returns satisfies \<open>R\<close>, and the loop stopped because of its condition or a zero liquidity.
\<close>

lemma swap_loop_rule:
  assumes "I s"
    and stop: "\<And>s. I s \<Longrightarrow> R s"
    and step: "\<And>s c. I s \<Longrightarrow> swap_goes_on a s \<Longrightarrow> swap_iteration a s = Ok c \<Longrightarrow>
      (case c of Break s' \<Rightarrow> R s' \<and> liquidity s' = 0
       | Continue s' \<Rightarrow> R s' \<and> (swap_goes_on a s' \<longrightarrow> I s' \<and> m s' < (m s :: nat)))"
  shows "\<exists>r. swap_loop a s = Some r \<and>
    (\<forall>s'. r = Ok s' \<longrightarrow> R s' \<and> (\<not> swap_goes_on a s' \<or> liquidity s' = 0))"
  using assms(1)
proof (induction s rule: measure_induct_rule [of m])
  case (less s)
  show ?case
  proof (cases "swap_goes_on a s")
    case False
    then show ?thesis using swap_loop_stop [OF False] stop [OF less.prems] by simp
  next
    case True
    show ?thesis
    proof (cases "swap_iteration a s")
      case (Inl e)
      then show ?thesis using swap_loop_step [OF True] by simp
    next
      case (Inr c)
      note this_step = step [OF less.prems True Inr]
      show ?thesis
      proof (cases c)
        case (Break s')
        then show ?thesis using swap_loop_step [OF True] Inr this_step by simp
      next
        case (Continue s')
        then have code: "swap_loop a s = swap_loop a s'" using swap_loop_step [OF True] Inr by simp
        show ?thesis
        proof (cases "swap_goes_on a s'")
          case True
          then show ?thesis using less.IH [of s'] this_step Continue code by simp
        next
          case False
          then show ?thesis using swap_loop_stop [OF False] this_step Continue code by simp
        qed
      qed
    qed
  qed
qed

section \<open>What one iteration does\<close>

text \<open>The sign of the remaining amount never changes; the price is never zero.\<close>

definition amounts_ok :: "swap_args \<Rightarrow> swap_state \<Rightarrow> bool" where
  "amounts_ok a s \<longleftrightarrow> sqrt_price_x96 s \<noteq> 0 \<and>
     (if sa_exact_input a then 0 \<le> sint (amount_specified_remaining s)
      else sint (amount_specified_remaining s) \<le> 0)"

definition step_price :: "swap_args \<Rightarrow> step_computations \<Rightarrow> u160" where
  "step_price a step = (if sa_zero_for_one a then max (sqrt_price_next_x96 step) (sa_limit a)
     else min (sqrt_price_next_x96 step) (sa_limit a))"

lemma sint_small: "uint (x :: i256) < 2 ^ 255 \<Longrightarrow> sint x = uint x"
proof -
  assume "uint x < 2 ^ 255"
  then have "sint (word_of_int (uint x) :: i256) = uint x"
    by (intro sint_of_int) (simp add: srange_def, use uint_ge_0 [of x] in linarith)
  then show ?thesis by simp
qed

lemma sint_zero: "sint x = 0 \<Longrightarrow> x = 0" for x :: "'n::len word"
proof -
  assume "sint x = 0"
  then have "(word_of_int (sint x) :: 'n word) = 0" by (simp only: of_int_0)
  then show "x = 0" by simp
qed

lemma remaining_input:
  fixes rem ain fee :: u256
  assumes "0 \<le> sint rem" and "uint ain + uint fee \<le> uint rem"
  shows "sint (rem - ain - fee) = sint rem - uint ain - uint fee"
    and "uint ain + uint fee = uint rem \<Longrightarrow> rem - ain - fee = 0"
proof -
  have a: "uint (rem - ain) = uint rem - uint ain"
    using assms by (intro uint_sub_exact) (simp add: word_le_def, use uint_ge_0 [of fee] in linarith)
  have f: "uint (rem - ain - fee) = uint rem - uint ain - uint fee"
    using assms uint_sub_exact [of fee "rem - ain"] by (simp add: word_le_def a)
  have "sint rem < 2 ^ (LENGTH(256) - 1)" by (rule sint_lt)
  then have r: "uint rem < 2 ^ 255" using sint_nonneg_uint [OF assms(1)] by simp
  have "uint rem - uint ain - uint fee < 2 ^ 255"
    using r uint_ge_0 [of ain] uint_ge_0 [of fee] by linarith
  then show "sint (rem - ain - fee) = sint rem - uint ain - uint fee"
    using sint_small [of "rem - ain - fee"] sint_nonneg_uint [OF assms(1)] by (simp add: f)
  show "uint ain + uint fee = uint rem \<Longrightarrow> rem - ain - fee = 0"
    using f by (simp add: word_eq_uint)
qed

lemma remaining_output:
  fixes rem aout :: i256
  assumes "sint rem < 0" and "uint aout \<le> - sint rem"
  shows "sint (rem + aout) = sint rem + uint aout"
    and "uint aout = - sint rem \<Longrightarrow> rem + aout = 0"
proof -
  have r: "- (2 ^ (LENGTH(256) - 1)) \<le> sint rem" by (rule sint_ge)
  have w: "rem + aout = word_of_int (sint rem + uint aout)" by simp
  have "srange LENGTH(256) (sint rem + uint aout)"
    using assms r unfolding srange_def by (simp, use uint_ge_0 [of aout] in linarith)
  from sint_of_int [OF this] show "sint (rem + aout) = sint rem + uint aout" by (simp only: w)
  show "uint aout = - sint rem \<Longrightarrow> rem + aout = 0" unfolding w by simp
qed

lemma step_amounts_correct:
  assumes ok: "amounts_ok a s" and rem: "amount_specified_remaining s \<noteq> 0"
    and q: "step_price a step \<noteq> 0" and f: "uint (sa_fee a) < 1000000"
  obtains s' ain aout fee where
    "step_amounts a s step = Ok (s', step\<lparr>amount_in := ain, amount_out := aout, fee_amount := fee\<rparr>)"
    and "amounts_ok a s'" and "tick_current s' = tick_current s" and "liquidity s' = liquidity s"
    and "between (sqrt_price_x96 s) (step_price a step) (sqrt_price_x96 s')"
    and "sqrt_price_x96 s' = step_price a step \<or> amount_specified_remaining s' = 0"
    and "\<bar>sint (amount_specified_remaining s')\<bar> \<le> \<bar>sint (amount_specified_remaining s)\<bar>"
    and "sqrt_price_x96 s = step_price a step \<longrightarrow> ain = 0 \<and> aout = 0 \<and> fee = 0"
proof -
  let ?p = "sqrt_price_x96 s" and ?q = "step_price a step" and ?rem = "amount_specified_remaining s"
  have p: "?p \<noteq> 0" using ok by (simp add: amounts_ok_def)
  show ?thesis
  proof (cases "sa_exact_input a")
    case True
    then have r: "0 \<le> sint ?rem" using ok by (simp add: amounts_ok_def)
    obtain p' ain aout fee where c: "compute_swap_step ?p ?q (liquidity s) ?rem (sa_fee a) = Ok (p', ain, aout, fee)"
      and i: "input_step_ok ?p ?q (liquidity s) ?rem (p', ain, aout, fee)"
      using input_step_correct [OF p q f r, of "liquidity s"] by (metis prod_cases4)
    have i': "p' \<noteq> 0" "between ?p ?q p'" "uint ain + uint fee \<le> uint ?rem"
      "p' = ?q \<or> uint ain + uint fee = uint ?rem" "?p = ?q \<longrightarrow> ain = 0 \<and> fee = 0"
      using i by (simp_all add: input_step_ok_def)
    have z: "?p = ?q \<longrightarrow> aout = 0"
    proof
      assume e: "?p = ?q"
      then have "p' = ?p" using i'(2) by (simp add: between_same)
      then have "uint aout = 0" using i e amount_same(2) by (simp add: input_step_ok_def)
      then show "aout = 0" by (simp add: word_eq_uint)
    qed
    note rr = remaining_input [OF r i'(3)]
    let ?s = "s\<lparr>sqrt_price_x96 := p', amount_specified_remaining := ?rem - ain - fee,
      amount_calculated := amount_calculated s - aout\<rparr>"
    have code: "step_amounts a s step = Ok (?s, step\<lparr>amount_in := ain, amount_out := aout, fee_amount := fee\<rparr>)"
      using c True by (simp add: step_amounts_def step_price_def)
    have left: "0 \<le> sint (?rem - ain - fee)" "sint (?rem - ain - fee) \<le> sint ?rem"
      using i'(3) sint_nonneg_uint [OF r] uint_ge_0 [of ain] uint_ge_0 [of fee] unfolding rr(1) by linarith+
    have "p' = ?q \<or> ?rem - ain - fee = 0" using i'(4) rr(2) by blast
    then show ?thesis
      by (intro that [OF code]) (use i' z True r left in \<open>simp_all add: amounts_ok_def\<close>)
  next
    case False
    then have "sint ?rem \<le> 0" using ok by (simp add: amounts_ok_def)
    then have r: "sint ?rem < 0" using sint_zero [of ?rem] rem by linarith
    obtain p' ain aout fee where c: "compute_swap_step ?p ?q (liquidity s) ?rem (sa_fee a) = Ok (p', ain, aout, fee)"
      and i: "output_step_ok ?p ?q (liquidity s) ?rem (sa_fee a) (p', ain, aout, fee)"
      using output_step_correct [OF p q f r, of "liquidity s"] by (metis prod_cases4)
    have i': "p' \<noteq> 0" "between ?p ?q p'" "uint aout \<le> - sint ?rem" "p' = ?q \<or> uint aout = - sint ?rem"
      using i by (simp_all add: output_step_ok_def)
    have z: "?p = ?q \<longrightarrow> ain = 0 \<and> aout = 0 \<and> fee = 0"
    proof
      assume e: "?p = ?q"
      then have "p' = ?p" using i'(2) by (simp add: between_same)
      then have "uint ain = 0" "uint aout \<le> 0"
        using i e amount_same(1) [OF uint_pos [OF q]] amount_same(2)
        by (simp_all add: output_step_ok_def)
      moreover from this have "uint aout = 0" using uint_ge_0 [of aout] by linarith
      moreover from calculation have "uint fee = 0" using i f by (simp add: output_step_ok_def cdiv_zero)
      ultimately show "ain = 0 \<and> aout = 0 \<and> fee = 0" by (simp add: word_eq_uint)
    qed
    note rr = remaining_output [OF r i'(3)]
    let ?s = "s\<lparr>sqrt_price_x96 := p', amount_specified_remaining := ?rem + aout,
      amount_calculated := amount_calculated s + ain + fee\<rparr>"
    have code: "step_amounts a s step = Ok (?s, step\<lparr>amount_in := ain, amount_out := aout, fee_amount := fee\<rparr>)"
      using c False by (simp add: step_amounts_def step_price_def)
    have left: "sint (?rem + aout) \<le> 0" "sint ?rem \<le> sint (?rem + aout)"
      using i'(3) uint_ge_0 [of aout] unfolding rr(1) by linarith+
    have "p' = ?q \<or> ?rem + aout = 0" using i'(4) rr(2) by blast
    then show ?thesis
      by (intro that [OF code]) (use i' z False r left in \<open>simp_all add: amounts_ok_def\<close>)
  qed
qed

text \<open>Where a step's target comes from.\<close>

definition search_ok :: "tick_search \<Rightarrow> bool" where
  "search_ok search = (case search of NextInitialized \<Rightarrow> True | WordBounded s \<Rightarrow> spacing_ok s)"

lemma clamp_range: "\<bar>clamp_tick t\<bar> \<le> MAX_TICK"
  by (auto simp: clamp_tick_def MIN_TICK_def MAX_TICK_def)

lemma next_tick_direction:
  assumes "bt_inv m" and "in_ticks t" and "search_ok search"
    and "next_initialized_tick m t zfo search = Ok (n, i)"
  shows "if zfo then n \<le> t else t < n \<or> (n = t \<and> search = NextInitialized \<and> \<not> i)"
proof (cases search)
  case (WordBounded s)
  then show ?thesis
    using assms next_down_word [OF assms(1,2), of s n i] next_up_word [OF assms(1,2), of s n i]
    by (cases zfo) (auto simp: search_ok_def)
next
  case NextInitialized
  then show ?thesis
    using assms next_down_unbounded [OF assms(1), of t n i] next_up_unbounded [OF assms(1,2), of n i]
    by (cases zfo) (auto split: if_splits)
qed

lemma step_target_Ok:
  "step_target a s = Ok step \<longleftrightarrow> (\<exists>n i.
     next_initialized_tick (sa_ticks a) (tick_current s) (sa_zero_for_one a) (sa_search a) = Ok (n, i) \<and>
     step = \<lparr>sqrt_price_start_x96 = sqrt_price_x96 s, tick_next = clamp_tick n, step_initialized = i,
       sqrt_price_next_x96 = word_of_int (tick_price (clamp_tick n)),
       amount_in = 0, amount_out = 0, fee_amount = 0\<rparr>)"
proof -
  have i24: "to_i24 (clamp_tick n) = Ok (clamp_tick n)" for n
    by (auto simp: to_i24_def srange_def clamp_tick_def MIN_TICK_def MAX_TICK_def)
  show ?thesis
    by (auto simp: step_target_def i24 get_sqrt_ratio_at_tick_Ok [OF clamp_range] Let_def and_then_Ok_iff)
qed

section \<open>Termination\<close>

definition loop_ok :: "swap_args \<Rightarrow> bool" where
  "loop_ok a \<longleftrightarrow> uint (sa_fee a) < 1000000 \<and> bt_inv (sa_ticks a) \<and> search_ok (sa_search a) \<and>
     (if sa_zero_for_one a then MIN_SQRT_RATIO < sa_limit a else sa_limit a < MAX_SQRT_RATIO \<and> sa_limit a \<noteq> 0)"

text \<open>
  Every iteration that goes on moves the tick in the direction of the swap, except the upward
  fallback of the unbounded search, which can repeat the tick once: the second component.
\<close>

definition ticks_left :: "swap_args \<Rightarrow> swap_state \<Rightarrow> nat" where
  "ticks_left a s =
     2 * nat (if sa_zero_for_one a then tick_current s - MIN_TICK + 2 else MAX_TICK - tick_current s + 2) +
     (if uint (sqrt_price_x96 s) = tick_price (clamp_tick (tick_current s)) then 0 else 1)"

lemma cross_tick_reached:
  assumes "cross_tick a s step = Ok (Continue s')" and "sqrt_price_x96 s = sqrt_price_next_x96 step"
  shows "sqrt_price_x96 s' = sqrt_price_x96 s \<and>
    tick_current s' = (if sa_zero_for_one a then tick_next step - 1 else tick_next step) \<and>
    amount_specified_remaining s' = amount_specified_remaining s"
  using assms by (auto simp: cross_tick_def Let_def and_then_Ok_iff split: if_splits)

lemma cross_tick_frame:
  assumes "cross_tick a s step = Ok c"
  shows "case c of Break s' \<Rightarrow> sqrt_price_x96 s' = sqrt_price_x96 s \<and> liquidity s' = 0 \<and>
        amount_specified_remaining s' = amount_specified_remaining s
     | Continue s' \<Rightarrow> sqrt_price_x96 s' = sqrt_price_x96 s \<and>
        amount_specified_remaining s' = amount_specified_remaining s"
  using assms by (auto simp: cross_tick_def Let_def and_then_Ok_iff split: if_splits control.splits)

end
