(* ===== verification/Swap_Loop.thy ===== *)
theory Swap_Loop
  imports Swap_Math
begin

text \<open>
  The loop of \<^verbatim>\<open>v3_swap\<close> (\<^verbatim>\<open>src/v3/swap_math.rs\<close>): it always returns, its price never
  passes the limit nor moves against the swap, and the amount left never leaves its range.
\<close>

section \<open>Termination\<close>

lemma step_price_nz:
  assumes "loop_ok a" and "step_target a s = Ok step"
  shows "step_price a step \<noteq> 0"
proof -
  obtain n where n: "sqrt_price_next_x96 step = word_of_int (tick_price (clamp_tick n))"
    using assms(2) by (auto simp: step_target_Ok)
  have "uint (sqrt_price_next_x96 step) = tick_price (clamp_tick n)"
    using uint_tick_price [OF clamp_range] by (simp add: n)
  then have "uint MIN_SQRT_RATIO \<le> uint (sqrt_price_next_x96 step)"
    using tick_price_range [OF clamp_range] by simp
  then have nz: "sqrt_price_next_x96 step \<noteq> 0" by (auto simp: MIN_SQRT_RATIO_def)
  have "sa_limit a \<noteq> 0"
    using assms(1) by (auto simp: loop_ok_def split: if_splits)
  with nz show ?thesis by (simp add: step_price_def min_def max_def)
qed

lemma iteration_cases:
  assumes ok: "amounts_ok a s" and go: "swap_goes_on a s" and a: "loop_ok a"
    and it: "swap_iteration a s = Ok c"
  obtains n i step s1 step1 where
    "next_initialized_tick (sa_ticks a) (tick_current s) (sa_zero_for_one a) (sa_search a) = Ok (n, i)"
    and "tick_next step1 = clamp_tick n" and "step_initialized step1 = i"
    and "uint (sqrt_price_next_x96 step1) = tick_price (clamp_tick n)"
    and "\<not> no_progress a s1 step1" and "cross_tick a s1 step1 = Ok c"
    and "amounts_ok a s1" and "tick_current s1 = tick_current s" and "liquidity s1 = liquidity s"
    and "between (sqrt_price_x96 s) (step_price a step1) (sqrt_price_x96 s1)"
    and "sqrt_price_x96 s1 = step_price a step1 \<or> amount_specified_remaining s1 = 0"
    and "\<bar>sint (amount_specified_remaining s1)\<bar> \<le> \<bar>sint (amount_specified_remaining s)\<bar>"
    and "sqrt_price_x96 s = step_price a step1 \<longrightarrow>
      amount_in step1 = 0 \<and> amount_out step1 = 0 \<and> fee_amount step1 = 0"
proof -
  obtain step s1 step1 where t: "step_target a s = Ok step" and am: "step_amounts a s step = Ok (s1, step1)"
    and np: "\<not> no_progress a s1 step1" and ct: "cross_tick a s1 step1 = Ok c"
    using it by (auto simp: swap_iteration_def and_then_Ok_iff split: if_splits)
  have nz: "step_price a step \<noteq> 0" by (rule step_price_nz [OF a t])
  have f: "uint (sa_fee a) < 1000000" using a by (simp add: loop_ok_def)
  have rem: "amount_specified_remaining s \<noteq> 0" using go by (simp add: swap_goes_on_def)
  obtain s' ain aout fee where
    s': "step_amounts a s step = Ok (s', step\<lparr>amount_in := ain, amount_out := aout, fee_amount := fee\<rparr>)"
    "amounts_ok a s'" "tick_current s' = tick_current s" "liquidity s' = liquidity s"
    "between (sqrt_price_x96 s) (step_price a step) (sqrt_price_x96 s')"
    "sqrt_price_x96 s' = step_price a step \<or> amount_specified_remaining s' = 0"
    "\<bar>sint (amount_specified_remaining s')\<bar> \<le> \<bar>sint (amount_specified_remaining s)\<bar>"
    "sqrt_price_x96 s = step_price a step \<longrightarrow> ain = 0 \<and> aout = 0 \<and> fee = 0"
    by (rule step_amounts_correct [OF ok rem nz f])
  have eq: "s1 = s'" "step1 = step\<lparr>amount_in := ain, amount_out := aout, fee_amount := fee\<rparr>"
    using am s'(1) by simp_all
  obtain n i where n: "next_initialized_tick (sa_ticks a) (tick_current s) (sa_zero_for_one a) (sa_search a) = Ok (n, i)"
    "tick_next step = clamp_tick n" "step_initialized step = i"
    "sqrt_price_next_x96 step = word_of_int (tick_price (clamp_tick n))"
    using t by (auto simp: step_target_Ok)
  have sp: "step_price a step1 = step_price a step" by (simp add: step_price_def eq)
  have p: "uint (sqrt_price_next_x96 step1) = tick_price (clamp_tick n)"
    unfolding eq(2) using n(4) uint_tick_price [OF clamp_range] by simp
  have z: "sqrt_price_x96 s = step_price a step1 \<longrightarrow>
      amount_in step1 = 0 \<and> amount_out step1 = 0 \<and> fee_amount step1 = 0"
    using s'(8) unfolding sp unfolding eq(2) by simp
  have t1: "tick_next step1 = clamp_tick n" "step_initialized step1 = i" using n by (simp_all add: eq(2))
  show ?thesis
    using that [OF n(1) t1 p np ct _ _ _ _ _ _ z] s'(2-7) unfolding sp eq(1) by blast
qed

lemma tick_price_low: "tick_price MIN_TICK = uint MIN_SQRT_RATIO" "tick_price MAX_TICK = uint MAX_SQRT_RATIO"
  by (rule tick_price_ends)+

lemma nat_double_less:
  "0 \<le> x \<Longrightarrow> x < y \<Longrightarrow> 2 * nat x + (if P then 0 else 1) < 2 * nat y + (if Q then 0 else 1 :: nat)"
  by auto

text \<open>A continuing iteration has crossed its next tick.\<close>

lemma continue_crossed:
  assumes s1: "sqrt_price_x96 s1 = step_price a step1 \<or> amount_specified_remaining s1 = 0"
    and ct: "cross_tick a s1 step1 = Ok (Continue s')" and go: "swap_goes_on a s'"
  shows "sqrt_price_x96 s1 = step_price a step1" and "sqrt_price_x96 s1 = sqrt_price_next_x96 step1"
    and "sqrt_price_next_x96 step1 \<noteq> sa_limit a"
proof -
  have fr: "sqrt_price_x96 s' = sqrt_price_x96 s1"
    "amount_specified_remaining s' = amount_specified_remaining s1"
    using cross_tick_frame [OF ct] by simp_all
  then show p: "sqrt_price_x96 s1 = step_price a step1"
    using s1 go by (auto simp: swap_goes_on_def)
  have nl: "sqrt_price_x96 s1 \<noteq> sa_limit a" using fr go by (simp add: swap_goes_on_def)
  show "sqrt_price_x96 s1 = sqrt_price_next_x96 step1"
    using p nl by (auto simp: step_price_def min_def max_def split: if_splits)
  then show "sqrt_price_next_x96 step1 \<noteq> sa_limit a" using nl by simp
qed

lemma crossed_inside:
  assumes a: "loop_ok a" and p: "sqrt_price_next_x96 step1 = step_price a step1"
    and nl: "sqrt_price_next_x96 step1 \<noteq> sa_limit a"
    and u: "uint (sqrt_price_next_x96 step1) = tick_price (clamp_tick n)"
  shows "if sa_zero_for_one a then sa_limit a < sqrt_price_next_x96 step1 \<and> MIN_TICK < clamp_tick n \<and> clamp_tick n \<le> n
    else sqrt_price_next_x96 step1 < sa_limit a \<and> clamp_tick n < MAX_TICK \<and> n \<le> clamp_tick n"
proof (cases "sa_zero_for_one a")
  case True
  then have lt: "sa_limit a < sqrt_price_next_x96 step1"
    using p nl by (simp add: step_price_def max_def split: if_splits)
  moreover have "MIN_SQRT_RATIO < sa_limit a" using a True by (simp add: loop_ok_def)
  ultimately have "tick_price MIN_TICK < tick_price (clamp_tick n)"
    by (simp add: tick_price_low word_less_def flip: u)
  then have "clamp_tick n \<noteq> MIN_TICK" by auto
  then have "MIN_TICK < clamp_tick n" "clamp_tick n \<le> n" by (auto simp: clamp_tick_def)
  with True lt show ?thesis by simp
next
  case False
  then have lt: "sqrt_price_next_x96 step1 < sa_limit a"
    using p nl by (simp add: step_price_def min_def split: if_splits)
  moreover have "sa_limit a < MAX_SQRT_RATIO" using a False by (simp add: loop_ok_def)
  ultimately have "tick_price (clamp_tick n) < tick_price MAX_TICK"
    by (simp add: tick_price_low word_less_def flip: u)
  then have "clamp_tick n \<noteq> MAX_TICK" by auto
  then have "clamp_tick n < MAX_TICK" "n \<le> clamp_tick n" by (auto simp: clamp_tick_def MIN_TICK_def MAX_TICK_def)
  with False lt show ?thesis by simp
qed

lemma ticks_left_less:
  assumes ok: "amounts_ok a s" and t: "in_ticks (tick_current s)" and go: "swap_goes_on a s"
    and a: "loop_ok a" and it: "swap_iteration a s = Ok (Continue s')" and go': "swap_goes_on a s'"
  shows "ticks_left a s' < ticks_left a s \<and> in_ticks (tick_current s')"
proof -
  obtain n i step s1 step1 where
    n: "next_initialized_tick (sa_ticks a) (tick_current s) (sa_zero_for_one a) (sa_search a) = Ok (n, i)"
    and st: "tick_next step1 = clamp_tick n" "uint (sqrt_price_next_x96 step1) = tick_price (clamp_tick n)"
    and np: "\<not> no_progress a s1 step1" and ct: "cross_tick a s1 step1 = Ok (Continue s')"
    and s1: "tick_current s1 = tick_current s"
      "sqrt_price_x96 s1 = step_price a step1 \<or> amount_specified_remaining s1 = 0"
    and z: "sqrt_price_x96 s = step_price a step1 \<longrightarrow>
      amount_in step1 = 0 \<and> amount_out step1 = 0 \<and> fee_amount step1 = 0"
    by (rule iteration_cases [OF ok go a it]) blast
  note cr = continue_crossed [OF s1(2) ct go']
  note c = cross_tick_reached [OF ct cr(2)]
  have dir: "if sa_zero_for_one a then n \<le> tick_current s else tick_current s < n \<or>
      (n = tick_current s \<and> sa_search a = NextInitialized \<and> \<not> i)"
    using next_tick_direction [OF _ t _ n] a by (simp add: loop_ok_def)
  have inside: "if sa_zero_for_one a
    then sa_limit a < sqrt_price_next_x96 step1 \<and> MIN_TICK < clamp_tick n \<and> clamp_tick n \<le> n
    else sqrt_price_next_x96 step1 < sa_limit a \<and> clamp_tick n < MAX_TICK \<and> n \<le> clamp_tick n"
    using cr by (intro crossed_inside [OF a _ cr(3) st(2)]) simp
  have tb: "MIN_TICK \<le> clamp_tick n" "clamp_tick n \<le> MAX_TICK"
    using clamp_range [of n] by (simp_all add: MIN_TICK_def)
  show ?thesis
  proof (cases "sa_zero_for_one a")
    case True
    then have t': "tick_current s' = clamp_tick n - 1" "clamp_tick n \<le> tick_current s" "MIN_TICK < clamp_tick n"
      using c dir inside st(1) by simp_all
    then have "ticks_left a s' < ticks_left a s"
      unfolding ticks_left_def using True by (simp only: if_True) (rule nat_double_less; simp)
    moreover have "in_ticks (tick_current s')" using t' tb t by (simp add: in_ticks_def)
    ultimately show ?thesis by simp
  next
    case False
    have t': "tick_current s' = clamp_tick n" using False c st(1) by simp
    have "in_ticks (tick_current s')" using tb by (simp add: t' in_ticks_def)
    moreover have "ticks_left a s' < ticks_left a s"
    proof (cases "tick_current s < clamp_tick n")
      case True
      then show ?thesis
        unfolding ticks_left_def using False t' tb by (simp only: if_False) (rule nat_double_less; simp)
    next
      case stuck: False
      then have eq: "clamp_tick n = tick_current s" using dir inside False by simp
      have "sqrt_price_x96 s \<noteq> step_price a step1"
      proof
        assume "sqrt_price_x96 s = step_price a step1"
        then have "no_progress a s1 step1" using z False st(1) s1(1) eq by (simp add: no_progress_def)
        with np show False ..
      qed
      then have "uint (sqrt_price_x96 s) \<noteq> tick_price (clamp_tick n)"
        using cr st(2) by (auto simp: word_eq_uint)
      moreover have "clamp_tick (clamp_tick n) = clamp_tick n" by (simp add: clamp_tick_def MIN_TICK_def MAX_TICK_def)
      moreover have "uint (sqrt_price_x96 s') = tick_price (clamp_tick n)" using c cr st(2) by simp
      ultimately show ?thesis using False t' eq by (simp add: ticks_left_def)
    qed
    ultimately show ?thesis by simp
  qed
qed

lemma iteration_amounts:
  assumes "amounts_ok a s" and "swap_goes_on a s" and "loop_ok a" and "swap_iteration a s = Ok (Continue s')"
  shows "amounts_ok a s'"
proof -
  obtain s1 step1 where "cross_tick a s1 step1 = Ok (Continue s')" "amounts_ok a s1"
    by (rule iteration_cases [OF assms]) blast
  then show ?thesis using cross_tick_frame [of a s1 step1 "Continue s'"] by (simp add: amounts_ok_def)
qed

lemma swap_loop_total:
  assumes "amounts_ok a s" and "in_ticks (tick_current s)" and a: "loop_ok a"
  shows "\<exists>r. swap_loop a s = Some r"
proof -
  have "\<exists>r. swap_loop a s = Some r \<and> (\<forall>s'. r = Ok s' \<longrightarrow> True \<and> (\<not> swap_goes_on a s' \<or> liquidity s' = 0))"
  proof (rule swap_loop_rule [where I = "\<lambda>s. amounts_ok a s \<and> in_ticks (tick_current s)"
        and R = "\<lambda>_. True" and m = "ticks_left a"])
    fix s c
    assume I: "amounts_ok a s \<and> in_ticks (tick_current s)" and go: "swap_goes_on a s"
      and it: "swap_iteration a s = Ok c"
    show "case c of Break s' \<Rightarrow> True \<and> liquidity s' = 0
       | Continue s' \<Rightarrow> True \<and> (swap_goes_on a s' \<longrightarrow>
          (amounts_ok a s' \<and> in_ticks (tick_current s')) \<and> ticks_left a s' < ticks_left a s)"
    proof (cases c)
      case (Break s')
      obtain s1 step1 where "cross_tick a s1 step1 = Ok c"
        using I by (auto intro: iteration_cases [OF _ go a it])
      then show ?thesis using Break cross_tick_frame [of a s1 step1 c] by simp
    next
      case (Continue s')
      then show ?thesis using I it ticks_left_less [OF _ _ go a, of s'] iteration_amounts [OF _ go a, of s'] by simp
    qed
  qed (use assms in simp_all)
  then show ?thesis by blast
qed

section \<open>Direction and bounds\<close>

text \<open>The current tick agrees with the current price, as far as the direction of the swap needs it.\<close>

definition tick_agrees :: "swap_args \<Rightarrow> swap_state \<Rightarrow> bool" where
  "tick_agrees a s \<longleftrightarrow>
     (if sa_zero_for_one a
      then MIN_TICK \<le> tick_current s \<and> tick_current s \<le> MAX_TICK \<and>
        tick_price (tick_current s) \<le> uint (sqrt_price_x96 s)
      else MIN_TICK - 1 \<le> tick_current s \<and> tick_current s < MAX_TICK \<and>
        uint (sqrt_price_x96 s) \<le> tick_price (tick_current s + 1))"

text \<open>What every returned state satisfies, for a swap that started at price \<open>p\<close> with amount \<open>r\<close>.\<close>

definition swap_bounded :: "swap_args \<Rightarrow> u160 \<Rightarrow> int \<Rightarrow> swap_state \<Rightarrow> bool" where
  "swap_bounded a p r s \<longleftrightarrow>
     (if sa_zero_for_one a then sa_limit a \<le> sqrt_price_x96 s \<and> sqrt_price_x96 s \<le> p
      else p \<le> sqrt_price_x96 s \<and> sqrt_price_x96 s \<le> sa_limit a) \<and>
     (if sa_exact_input a
      then 0 \<le> sint (amount_specified_remaining s) \<and> sint (amount_specified_remaining s) \<le> r
      else r \<le> sint (amount_specified_remaining s) \<and> sint (amount_specified_remaining s) \<le> 0)"

lemma target_direction:
  assumes a: "loop_ok a" and t: "tick_agrees a s"
    and n: "next_initialized_tick (sa_ticks a) (tick_current s) (sa_zero_for_one a) (sa_search a) = Ok (n, i)"
    and u: "uint (sqrt_price_next_x96 step1) = tick_price (clamp_tick n)"
    and dir: "sa_zero_for_one a \<or> sa_search a \<noteq> NextInitialized"
  shows "if sa_zero_for_one a then sqrt_price_next_x96 step1 \<le> sqrt_price_x96 s
    else sqrt_price_x96 s \<le> sqrt_price_next_x96 step1"
proof -
  have it: "in_ticks (tick_current s)"
    using t by (auto simp: tick_agrees_def in_ticks_def MIN_TICK_def MAX_TICK_def split: if_splits)
  have d: "if sa_zero_for_one a then n \<le> tick_current s else tick_current s < n"
    using next_tick_direction [OF _ it _ n] a dir by (auto simp: loop_ok_def split: if_splits)
  have tb: "MIN_TICK \<le> clamp_tick n" "clamp_tick n \<le> MAX_TICK"
    using clamp_range [of n] by (simp_all add: MIN_TICK_def)
  show ?thesis
  proof (cases "sa_zero_for_one a")
    case True
    then have "clamp_tick n \<le> tick_current s" using d t by (auto simp: clamp_tick_def tick_agrees_def)
    then have "tick_price (clamp_tick n) \<le> tick_price (tick_current s)"
      using True t tb by (intro tick_price_mono) (simp_all add: tick_agrees_def)
    then show ?thesis using True t u by (simp add: tick_agrees_def word_le_def)
  next
    case False
    then have "tick_current s + 1 \<le> clamp_tick n" using d t by (auto simp: clamp_tick_def tick_agrees_def)
    then have "tick_price (tick_current s + 1) \<le> tick_price (clamp_tick n)"
      using False t tb by (intro tick_price_mono) (simp_all add: tick_agrees_def)
    then show ?thesis using False t u by (simp add: tick_agrees_def word_le_def)
  qed
qed

lemma step_bounded:
  assumes b: "swap_bounded a p r s" and ok: "amounts_ok a s1"
    and dir: "if sa_zero_for_one a then sqrt_price_next_x96 step1 \<le> sqrt_price_x96 s
      else sqrt_price_x96 s \<le> sqrt_price_next_x96 step1"
    and btw: "between (sqrt_price_x96 s) (step_price a step1) (sqrt_price_x96 s1)"
    and rem: "\<bar>sint (amount_specified_remaining s1)\<bar> \<le> \<bar>sint (amount_specified_remaining s)\<bar>"
  shows "swap_bounded a p r s1"
proof -
  have "if sa_zero_for_one a then sa_limit a \<le> sqrt_price_x96 s1 \<and> sqrt_price_x96 s1 \<le> p
    else p \<le> sqrt_price_x96 s1 \<and> sqrt_price_x96 s1 \<le> sa_limit a"
  proof (cases "sa_zero_for_one a")
    case True
    then have q: "step_price a step1 \<le> sqrt_price_x96 s" "sa_limit a \<le> step_price a step1"
      using b dir by (simp_all add: swap_bounded_def step_price_def)
    then have "step_price a step1 \<le> sqrt_price_x96 s1" "sqrt_price_x96 s1 \<le> sqrt_price_x96 s"
      using btw by (simp_all add: between_def)
    with True q b show ?thesis by (auto simp: swap_bounded_def intro: order_trans)
  next
    case False
    then have q: "sqrt_price_x96 s \<le> step_price a step1" "step_price a step1 \<le> sa_limit a"
      using b dir by (simp_all add: swap_bounded_def step_price_def)
    have "sqrt_price_x96 s \<le> sqrt_price_x96 s1" "sqrt_price_x96 s1 \<le> step_price a step1"
      using btw q by (auto simp: between_def split: if_splits)
    with False q b show ?thesis by (auto simp: swap_bounded_def intro: order_trans)
  qed
  moreover have "if sa_exact_input a
      then 0 \<le> sint (amount_specified_remaining s1) \<and> sint (amount_specified_remaining s1) \<le> r
      else r \<le> sint (amount_specified_remaining s1) \<and> sint (amount_specified_remaining s1) \<le> 0"
    using ok rem b by (auto simp: amounts_ok_def swap_bounded_def split: if_splits)
  ultimately show ?thesis by (simp add: swap_bounded_def)
qed

lemma swap_bounded_frame:
  "sqrt_price_x96 s' = sqrt_price_x96 s \<Longrightarrow> amount_specified_remaining s' = amount_specified_remaining s \<Longrightarrow>
     swap_bounded a p r s' = swap_bounded a p r s"
  by (simp add: swap_bounded_def)

lemma swap_loop_bounded:
  assumes s: "amounts_ok a s" "in_ticks (tick_current s)" "tick_agrees a s" "swap_bounded a p r s"
    and a: "loop_ok a" and dir: "sa_zero_for_one a \<or> sa_search a \<noteq> NextInitialized"
  shows "\<exists>o'. swap_loop a s = Some o' \<and>
    (\<forall>s'. o' = Ok s' \<longrightarrow> swap_bounded a p r s' \<and> (\<not> swap_goes_on a s' \<or> liquidity s' = 0))"
proof (rule swap_loop_rule [where m = "ticks_left a" and
      I = "\<lambda>s. amounts_ok a s \<and> in_ticks (tick_current s) \<and> tick_agrees a s \<and> swap_bounded a p r s"])
  fix s c
  assume I: "amounts_ok a s \<and> in_ticks (tick_current s) \<and> tick_agrees a s \<and> swap_bounded a p r s"
    and go: "swap_goes_on a s" and it: "swap_iteration a s = Ok c"
  then have ok: "amounts_ok a s" by simp
  obtain n i step s1 step1 where
    n: "next_initialized_tick (sa_ticks a) (tick_current s) (sa_zero_for_one a) (sa_search a) = Ok (n, i)"
    and st: "tick_next step1 = clamp_tick n" "uint (sqrt_price_next_x96 step1) = tick_price (clamp_tick n)"
    and ct: "cross_tick a s1 step1 = Ok c" and ok1: "amounts_ok a s1"
    and btw: "between (sqrt_price_x96 s) (step_price a step1) (sqrt_price_x96 s1)"
    and stop: "sqrt_price_x96 s1 = step_price a step1 \<or> amount_specified_remaining s1 = 0"
    and rem: "\<bar>sint (amount_specified_remaining s1)\<bar> \<le> \<bar>sint (amount_specified_remaining s)\<bar>"
    by (rule iteration_cases [OF ok go a it]) blast
  have d: "if sa_zero_for_one a then sqrt_price_next_x96 step1 \<le> sqrt_price_x96 s
      else sqrt_price_x96 s \<le> sqrt_price_next_x96 step1"
    using I by (intro target_direction [OF a _ n st(2) dir]) simp
  have b1: "swap_bounded a p r s1" using I by (intro step_bounded [OF _ ok1 d btw rem]) simp
  have tb: "MIN_TICK \<le> clamp_tick n" "clamp_tick n \<le> MAX_TICK"
    using clamp_range [of n] by (simp_all add: MIN_TICK_def)
  show "case c of Break s' \<Rightarrow> swap_bounded a p r s' \<and> liquidity s' = 0
     | Continue s' \<Rightarrow> swap_bounded a p r s' \<and> (swap_goes_on a s' \<longrightarrow>
        (amounts_ok a s' \<and> in_ticks (tick_current s') \<and> tick_agrees a s' \<and> swap_bounded a p r s') \<and>
        ticks_left a s' < ticks_left a s)"
  proof (cases c)
    case (Break s')
    then show ?thesis using b1 cross_tick_frame [OF ct] swap_bounded_frame [of s' s1] by simp
  next
    case (Continue s')
    have b': "swap_bounded a p r s'"
      using Continue b1 cross_tick_frame [OF ct] swap_bounded_frame [of s' s1] by simp
    have "(amounts_ok a s' \<and> in_ticks (tick_current s') \<and> tick_agrees a s') \<and> ticks_left a s' < ticks_left a s"
      if go': "swap_goes_on a s'"
    proof -
      have it': "swap_iteration a s = Ok (Continue s')" using it Continue by simp
      have ct': "cross_tick a s1 step1 = Ok (Continue s')" using ct Continue by simp
      note cr = continue_crossed [OF stop ct' go']
      note c' = cross_tick_reached [OF ct' cr(2)]
      have inside: "if sa_zero_for_one a
        then sa_limit a < sqrt_price_next_x96 step1 \<and> MIN_TICK < clamp_tick n \<and> clamp_tick n \<le> n
        else sqrt_price_next_x96 step1 < sa_limit a \<and> clamp_tick n < MAX_TICK \<and> n \<le> clamp_tick n"
        using cr by (intro crossed_inside [OF a _ cr(3) st(2)]) simp
      have u: "uint (sqrt_price_x96 s') = tick_price (clamp_tick n)" using c' cr st(2) by simp
      have "tick_agrees a s'"
      proof (cases "sa_zero_for_one a")
        case True
        then have "tick_price (clamp_tick n - 1) \<le> tick_price (clamp_tick n)"
          using inside tb by (intro tick_price_mono) simp_all
        then show ?thesis using True c' st(1) u inside tb by (simp add: tick_agrees_def)
      next
        case False
        then have "tick_price (clamp_tick n) \<le> tick_price (clamp_tick n + 1)"
          using inside tb by (intro tick_price_mono) simp_all
        then show ?thesis using False c' st(1) u inside tb by (simp add: tick_agrees_def)
      qed
      then show ?thesis
        using I ticks_left_less [OF ok _ go a it' go'] iteration_amounts [OF ok go a it'] by simp
    qed
    with b' Continue show ?thesis by simp
  qed
qed (use s in simp_all)

section \<open>Properties\<close>



text \<open>An exact-output step under the same conditions always succeeds: it never pays out more than
  was asked nor more than the move yields, pays exactly what was asked when the target is not
  reached, charges the move's cost rounded up, and the fee rounded up on top of it.\<close>

theorem swap_step_exact_output:
  fixes p q :: u160
  assumes "p \<noteq> 0" and "q \<noteq> 0" and "uint f < 1000000" and "sint rem < 0"
  shows "\<exists>r ain aout fee. compute_swap_step p q l rem f = Ok (r, ain, aout, fee) \<and>
    (if q \<le> p then q \<le> r \<and> r \<le> p else p \<le> r \<and> r \<le> q) \<and>
    uint aout \<le> - sint rem \<and> (r = q \<or> uint aout = - sint rem) \<and>
    uint fee = cdiv (uint ain * uint f) (1000000 - uint f) \<and>
    (if q \<le> p
     then uint ain = amount_0 (uint r) (uint p) (uint l) True \<and> uint aout \<le> amount_1 (uint r) (uint p) (uint l) False
     else uint ain = amount_1 (uint p) (uint r) (uint l) True \<and> uint aout \<le> amount_0 (uint p) (uint r) (uint l) False)"
proof -
  obtain r ain aout fee where "compute_swap_step p q l rem f = Ok (r, ain, aout, fee)"
    and "output_step_ok p q l rem f (r, ain, aout, fee)"
    using output_step_correct [OF assms, of l] by (metis prod_cases4)
  then show ?thesis
    by (intro exI [of _ r] exI [of _ ain] exI [of _ aout] exI [of _ fee])
      (simp add: output_step_ok_def between_def)
qed

theorem swap_step_exact_output_witness:
  "\<exists>r ain aout fee. compute_swap_step (2 ^ 96 :: u160) (2 ^ 97) 1000000 (- 5000) 3000 = Ok (r, ain, aout, fee) \<and>
     uint aout \<le> 5000"
  using swap_step_exact_output [of "2 ^ 96" "2 ^ 97" 3000 "- 5000" 1000000]
  by (auto simp: word_le_def)

lemma v3_swap_total:
  assumes "uint fee < 1000000" and "bt_inv ticks" and "search_ok search"
    and "in_ticks tick" and "price \<noteq> 0"
  shows "\<exists>r. v3_swap fee price tick l ticks search zero_for_one amount limit = Some r"
proof -
  define lim where "lim = (case limit of Some x \<Rightarrow> x
     | None \<Rightarrow> if zero_for_one then MIN_SQRT_RATIO + 1 else MAX_SQRT_RATIO - 1)"
  let ?a = "\<lparr>sa_fee = fee, sa_ticks = ticks, sa_search = search, sa_zero_for_one = zero_for_one,
    sa_exact_input = (sint amount \<ge> 0), sa_limit = lim\<rparr>"
  let ?s = "\<lparr>amount_specified_remaining = amount, amount_calculated = 0, sqrt_price_x96 = price,
    tick_current = tick, liquidity = l\<rparr>"
  have "\<exists>r. swap_loop ?a ?s = Some r"
    if "if zero_for_one then lim > MIN_SQRT_RATIO else lim < MAX_SQRT_RATIO \<and> lim > price"
  proof (rule swap_loop_total)
    have "lim \<noteq> 0" if "\<not> zero_for_one"
      using that \<open>if zero_for_one then _ else _\<close> by (metis word_not_simps(1))
    then show "loop_ok ?a" using that assms by (auto simp: loop_ok_def)
  qed (use assms in \<open>simp_all add: amounts_ok_def\<close>)
  then show ?thesis by (auto simp: v3_swap_def Let_def lim_def [symmetric])
qed

text \<open>C16: \<open>v3_swap\<close> always returns (an error or a state): for every sorted tick map, every search with a
  usable spacing, every fee below 100%, every amount and limit, and a start inside the tick range.
  The argument is that each iteration that goes on moves to another tick.\<close>

theorem v3_swap_terminates:
  assumes "uint fee < 1000000" and "bt_inv ticks" and "search_ok search"
    and "in_ticks tick" and "price \<noteq> 0"
  shows "\<exists>r. v3_swap fee price tick l ticks search zero_for_one amount limit = Some r"
  by (rule v3_swap_total [OF assms])

theorem v3_swap_terminates_witness:
  "\<exists>r. v3_swap 3000 (2 ^ 96) 0 1000000 sample_ticks (WordBounded 60) True 5000 None = Some r"
  by (rule v3_swap_terminates)
    (simp_all add: sample_ticks_def bt_inv_def search_ok_def spacing_ok_def in_ticks_def MIN_TICK_def MAX_TICK_def)


lemmas swap_eval = v3_swap_def swap_loop.simps swap_iteration_def step_amounts_def no_progress_def cross_tick_def

lemma price_0: "tick_price 0 = 2 ^ 96"
  by (simp add: tick_price_def ratio_at_def ratio_constants_def ratio_table_def ratio_bit_0_def)

lemma sample_step:
  "compute_swap_step (79228162514264337593544998912 :: u160) 79228162514264337593543950336
     79228162514264337593544998912 1048576 0 = Ok (79228162514264337593543950336, 1048576, 1048576, 0)"
proof -
  have "MAX_FEE = 1000000" unfolding word_eq_uint MAX_FEE_uint by simp
  note f = this
  show ?thesis
    by (simp add: f step_input_code mul_div_eq amount_0_delta_eq amount_1_delta_eq mul_div_rounding_up_eq
        amount_0_def amount_1_def cdiv_def min_def max_def word_le_def)
qed

lemma sample_target:
  "tick_current s = 0 \<Longrightarrow> next_initialized_tick (sa_ticks a) 0 (sa_zero_for_one a) (sa_search a) = Ok (0, False) \<Longrightarrow>
   step_target a s = Ok \<lparr>sqrt_price_start_x96 = sqrt_price_x96 s, tick_next = 0, step_initialized = False,
     sqrt_price_next_x96 = 79228162514264337593543950336, amount_in = 0, amount_out = 0, fee_amount = 0\<rparr>"
  by (auto simp: step_target_Ok clamp_tick_def MIN_TICK_def MAX_TICK_def price_0)

lemma sample_swap:
  "v3_swap 0 (2 ^ 96 + 1048576) 0 (2 ^ 96 + 1048576) sample_ticks (WordBounded 60) True 1048576 None
     = Some (Ok \<lparr>amount_specified_remaining = 0, amount_calculated = - 1048576, sqrt_price_x96 = 2 ^ 96,
         tick_current = - 1, liquidity = 2 ^ 96 + 1048576\<rparr>)"
proof -
  have "next_initialized_tick sample_ticks 0 True (WordBounded 60) = Ok (0, False)" by code_simp
  then show ?thesis
    by (simp add: swap_eval sample_target sample_step MIN_SQRT_RATIO_def max_def)
qed


text \<open>
  The upward fallback of the unbounded search: with no initialized tick above a price strictly inside its
  tick, the step's target is the price of the current tick, below the price. The swap of token 1
  for token 0 is then computed in the other direction, and a swap that ends exactly there is
  returned as a quote at a lower price.
\<close>

lemma upward_fallback_quotes_down:
  "v3_swap 0 (2 ^ 96 + 1048576) 0 (2 ^ 96 + 1048576) [] NextInitialized False 1048576 None
     = Some (Ok \<lparr>amount_specified_remaining = 0, amount_calculated = - 1048576, sqrt_price_x96 = 2 ^ 96,
         tick_current = 0, liquidity = 2 ^ 96 + 1048576\<rparr>)"
proof -
  have "next_initialized_tick [] 0 False NextInitialized = Ok (0, False)" by code_simp
  then show ?thesis
    by (simp add: swap_eval sample_target sample_step MAX_SQRT_RATIO_def min_def)
qed

end
