(* ===== verification/V3_Pool.thy ===== *)
theory V3_Pool
  imports Swap_Math
begin

text \<open>
  \<^verbatim>\<open>src/v3/pool.rs\<close>: the state of a concentrated-liquidity pool, its quotes, and the events that
  change it. Decoding a log is generated code: the model starts from the decoded event, or from the
  fact that a log with a known topic did not decode. The wall clock (\<^verbatim>\<open>chrono::Utc::now\<close>) is the
  argument \<open>now\<close>. The floating-point and formatting methods are not modelled.
\<close>

section \<open>State\<close>

datatype v3_pool_type = UniswapV3 | PancakeV3 | AlgebraV3 | AlgebraTwoSideFee | AlgebraPoolFeeInState | RamsesCL

datatype fee_source = Unknown | Events | ReadFee | ReadCurrentFee

record v3_pool =
  v3_type :: v3_pool_type
  v3_address :: address
  v3_token0 :: address
  v3_token1 :: address
  v3_fee :: u24
  v3_tick_spacing :: int
  v3_sqrt_price_x96 :: u160
  v3_tick :: int
  v3_liquidity :: u128
  v3_ticks :: tick_map
  v3_factory :: address
  v3_last_updated :: u64
  v3_created_at :: u64
  v3_fee_source :: fee_source
  v3_swap_fee_misses :: "bool list"

definition SWAP_FEE_WINDOW :: nat where
  "SWAP_FEE_WINDOW = 10"

definition SWAP_FEE_MISSES_TO_STOP :: nat where
  "SWAP_FEE_MISSES_TO_STOP = 3"

definition ALGEBRA_DYNAMIC_FEE_FLAG :: u8 where
  "ALGEBRA_DYNAMIC_FEE_FLAG = 0x80"

definition classify_fee_source :: "v3_pool_type \<Rightarrow> u8 option \<Rightarrow> bool \<Rightarrow> fee_source" where
  "classify_fee_source pool_type algebra_plugin_config answers_current_fee =
     (if pool_type = AlgebraV3 then
        (case algebra_plugin_config of
           Some config \<Rightarrow> if config AND ALGEBRA_DYNAMIC_FEE_FLAG \<noteq> 0 then ReadFee else Events
         | None \<Rightarrow> Unknown)
      else if pool_type = RamsesCL \<and> answers_current_fee then ReadCurrentFee
      else Events)"

definition v3_new ::
    "address \<Rightarrow> address \<Rightarrow> address \<Rightarrow> u24 \<Rightarrow> int \<Rightarrow> u160 \<Rightarrow> int \<Rightarrow> u128 \<Rightarrow> address \<Rightarrow> v3_pool_type \<Rightarrow> u64 \<Rightarrow> v3_pool" where
  "v3_new address token0 token1 fee tick_spacing price tick l factory pool_type now =
     \<lparr>v3_type = pool_type, v3_address = address, v3_token0 = token0, v3_token1 = token1, v3_fee = fee,
      v3_tick_spacing = tick_spacing, v3_sqrt_price_x96 = price, v3_tick = tick, v3_liquidity = l,
      v3_ticks = [], v3_factory = factory, v3_last_updated = now, v3_created_at = now,
      v3_fee_source = Unknown, v3_swap_fee_misses = []\<rparr>"

section \<open>Fees\<close>

definition set_fee :: "u24 \<Rightarrow> v3_pool \<Rightarrow> v3_pool" where
  "set_fee fee p = p\<lparr>v3_fee := fee\<rparr>"

definition fee_needs_reading :: "v3_pool \<Rightarrow> bool" where
  "fee_needs_reading p =
     (case v3_fee_source p of
        ReadFee \<Rightarrow> True
      | ReadCurrentFee \<Rightarrow> True
      | Unknown \<Rightarrow> v3_type p = AlgebraV3 \<or> v3_type p = RamsesCL
      | Events \<Rightarrow> False)"

definition fee_unpredictable :: "v3_pool \<Rightarrow> bool" where
  "fee_unpredictable p \<longleftrightarrow> length (filter (\<lambda>missed. missed) (v3_swap_fee_misses p)) \<ge> SWAP_FEE_MISSES_TO_STOP"

text \<open>The warnings of \<^verbatim>\<open>record_swap_fee\<close> are logging only.\<close>

definition record_swap_fee :: "bool \<Rightarrow> v3_pool \<Rightarrow> v3_pool" where
  "record_swap_fee missed p =
     (let q = v3_swap_fee_misses p @ [missed]
      in p\<lparr>v3_swap_fee_misses := (if length q > SWAP_FEE_WINDOW then tl q else q)\<rparr>)"

section \<open>State updates\<close>

definition update_state :: "u64 \<Rightarrow> u160 \<Rightarrow> int \<Rightarrow> u128 \<Rightarrow> v3_pool \<Rightarrow> v3_pool \<times> unit res" where
  "update_state now price tick l p =
     (if price = 0 then (p, Err InvalidSqrtPriceZero)
      else if tick < -887272 \<or> tick > 887272 then (p, Err (TickOutOfBounds tick))
      else (p\<lparr>v3_sqrt_price_x96 := price, v3_tick := tick, v3_liquidity := l, v3_last_updated := now\<rparr>, Ok ()))"

definition update_tick :: "int \<Rightarrow> int \<Rightarrow> u128 \<Rightarrow> v3_pool \<Rightarrow> v3_pool" where
  "update_tick i net gross p =
     (if gross = 0 then p\<lparr>v3_ticks := bt_remove i (v3_ticks p)\<rparr>
      else p\<lparr>v3_ticks := bt_insert i \<lparr>index = i, liquidity_net = net, liquidity_gross = gross\<rparr> (v3_ticks p)\<rparr>)"

text \<open>\<^verbatim>\<open>amount as i128\<close> reinterprets the bits.\<close>

definition as_i128 :: "u128 \<Rightarrow> int" where
  "as_i128 amount = swrap 128 (uint amount)"

definition mint_lower :: "int \<Rightarrow> u128 \<Rightarrow> v3_pool \<Rightarrow> v3_pool" where
  "mint_lower i amount p =
     (case bt_get (v3_ticks p) i of
        Some t \<Rightarrow> p\<lparr>v3_ticks := bt_insert i
          (t\<lparr>liquidity_net := sclamp 128 (liquidity_net t + as_i128 amount),
             liquidity_gross := saturating_add (liquidity_gross t) amount\<rparr>) (v3_ticks p)\<rparr>
      | None \<Rightarrow> update_tick i (as_i128 amount) amount p)"

definition mint_upper :: "int \<Rightarrow> u128 \<Rightarrow> v3_pool \<Rightarrow> v3_pool" where
  "mint_upper i amount p =
     (case bt_get (v3_ticks p) i of
        Some t \<Rightarrow> p\<lparr>v3_ticks := bt_insert i
          (t\<lparr>liquidity_net := sclamp 128 (liquidity_net t - as_i128 amount),
             liquidity_gross := saturating_add (liquidity_gross t) amount\<rparr>) (v3_ticks p)\<rparr>
      | None \<Rightarrow> update_tick i (swrap 128 (- as_i128 amount)) amount p)"

definition apply_mint_event :: "int \<Rightarrow> int \<Rightarrow> u128 \<Rightarrow> v3_pool \<Rightarrow> v3_pool \<times> unit res" where
  "apply_mint_event tick_lower tick_upper amount p =
     (if tick_lower \<ge> tick_upper then (p, Err (InvalidTickRange tick_lower tick_upper))
      else
        let p = mint_lower tick_lower amount p;
            p = mint_upper tick_upper amount p;
            p = (if v3_tick p \<ge> tick_lower \<and> v3_tick p < tick_upper
                 then p\<lparr>v3_liquidity := saturating_add (v3_liquidity p) amount\<rparr> else p)
        in (p, Ok ()))"

text \<open>Debit one end of a burned range: the tick is removed when its gross liquidity reaches zero.\<close>

definition burn_end :: "int \<Rightarrow> (int \<Rightarrow> int) \<Rightarrow> u128 \<Rightarrow> v3_pool \<Rightarrow> v3_pool" where
  "burn_end i net amount p =
     (case bt_get (v3_ticks p) i of
        Some t \<Rightarrow>
          let t' = t\<lparr>liquidity_net := net (liquidity_net t),
                     liquidity_gross := saturating_sub (liquidity_gross t) amount\<rparr>;
              p = p\<lparr>v3_ticks := bt_insert i t' (v3_ticks p)\<rparr>
          in if liquidity_gross t' = 0 then update_tick i (liquidity_net t) 0 p else p
      | None \<Rightarrow> p)"

definition apply_burn_event :: "int \<Rightarrow> int \<Rightarrow> u128 \<Rightarrow> v3_pool \<Rightarrow> v3_pool \<times> unit res" where
  "apply_burn_event tick_lower tick_upper amount p =
     (if tick_lower \<ge> tick_upper then (p, Err (InvalidTickRange tick_lower tick_upper))
      else if bt_get (v3_ticks p) tick_lower = None then (p, Err (BurnUninitializedLower tick_lower))
      else if bt_get (v3_ticks p) tick_upper = None then (p, Err (BurnUninitializedUpper tick_upper))
      else
        let p = burn_end tick_lower (\<lambda>n. sclamp 128 (n - as_i128 amount)) amount p;
            p = burn_end tick_upper (\<lambda>n. sclamp 128 (n + as_i128 amount)) amount p;
            p = (if v3_tick p \<ge> tick_lower \<and> v3_tick p < tick_upper
                 then p\<lparr>v3_liquidity := saturating_sub (v3_liquidity p) amount\<rparr> else p)
        in (p, Ok ()))"

section \<open>Quotes\<close>

definition tick_search_of :: "v3_pool \<Rightarrow> tick_search" where
  "tick_search_of p = (if v3_type p = AlgebraV3 then NextInitialized else WordBounded (v3_tick_spacing p))"

text \<open>\<^verbatim>\<open>Signed::from_raw(amount).saturating_neg()\<close> and \<^verbatim>\<open>abs().into_raw()\<close>.\<close>

definition saturating_neg :: "i256 \<Rightarrow> i256" where
  "saturating_neg x = (if sint x = - (2 ^ 255) then word_of_int (2 ^ 255 - 1) else - x)"

definition abs_raw :: "i256 \<Rightarrow> u256" where
  "abs_raw x = (if sint x < 0 then - x else x)"

text \<open>A quote runs the swap loop, so it is an \<open>option\<close>: \<open>None\<close> would be a loop that never returns.\<close>

definition quote_swap :: "v3_pool \<Rightarrow> bool \<Rightarrow> u256 \<Rightarrow> bool \<Rightarrow> u256 res option" where
  "quote_swap p zero_for_one amount is_exact_input =
     map_option (\<lambda>r. and_then r (\<lambda>swap_state.
         if amount_specified_remaining swap_state \<noteq> 0 then Err AmountRemaining
         else Ok (abs_raw (amount_calculated swap_state))))
       (v3_swap (v3_fee p) (v3_sqrt_price_x96 p) (v3_tick p) (v3_liquidity p) (v3_ticks p) (tick_search_of p)
          zero_for_one (if is_exact_input then amount else saturating_neg amount) None)"

definition calculate_zero_for_one :: "v3_pool \<Rightarrow> u256 \<Rightarrow> bool \<Rightarrow> u256 res option" where
  "calculate_zero_for_one p amount is_exact_input = quote_swap p True amount is_exact_input"

definition calculate_one_for_zero :: "v3_pool \<Rightarrow> u256 \<Rightarrow> bool \<Rightarrow> u256 res option" where
  "calculate_one_for_zero p amount is_exact_input = quote_swap p False amount is_exact_input"

definition calculate_exact_input :: "v3_pool \<Rightarrow> address \<Rightarrow> u256 \<Rightarrow> u256 res option" where
  "calculate_exact_input p token_in amount =
     (if fee_unpredictable p then Some (Err FeeUnpredictable)
      else if token_in = v3_token0 p then calculate_zero_for_one p amount True
      else if token_in = v3_token1 p then calculate_one_for_zero p amount True
      else Some (Err TokenNotInPool))"

definition calculate_exact_output :: "v3_pool \<Rightarrow> address \<Rightarrow> u256 \<Rightarrow> u256 res option" where
  "calculate_exact_output p token_out amount =
     (if fee_unpredictable p then Some (Err FeeUnpredictable)
      else if token_out = v3_token0 p then calculate_one_for_zero p amount False
      else if token_out = v3_token1 p then calculate_zero_for_one p amount False
      else Some (Err TokenNotInPool))"

definition get_adjacent_ticks :: "v3_pool \<Rightarrow> int \<Rightarrow> tick option \<times> tick option" where
  "get_adjacent_ticks p t =
     (let below = filter (\<lambda>(k, _). k < t) (v3_ticks p); above = filter (\<lambda>(k, _). t \<le> k) (v3_ticks p)
      in (if below = [] then None else Some (snd (last below)),
          if above = [] then None else Some (snd (hd above))))"

definition has_sufficient_liquidity :: "v3_pool \<Rightarrow> bool" where
  "has_sufficient_liquidity p \<longleftrightarrow> v3_liquidity p \<noteq> 0 \<and> v3_ticks p \<noteq> []"

definition v3_contains_token :: "v3_pool \<Rightarrow> address \<Rightarrow> bool" where
  "v3_contains_token p token \<longleftrightarrow> token = v3_token0 p \<or> token = v3_token1 p"

definition apply_swap_internal :: "u64 \<Rightarrow> address \<Rightarrow> u256 \<Rightarrow> u256 \<Rightarrow> v3_pool \<Rightarrow> v3_pool \<times> unit res" where
  "apply_swap_internal now token_in ain aout p =
     (let p = p\<lparr>v3_last_updated := now\<rparr>
      in if \<not> v3_contains_token p token_in then (p, Err TokenNotInPool) else (p, Ok ()))"

definition v3_tick_to_word :: "v3_pool \<Rightarrow> int \<Rightarrow> int res" where
  "v3_tick_to_word p tick = tick_to_word tick (v3_tick_spacing p)"

section \<open>Events\<close>

datatype v3_topic =
    TUniswapSwap | TUniswapMint | TUniswapBurn | TPancakeSwap | TAlgebraSwap | TAlgebraBurn
  | TFeeAdjustment | TRamsesMint | TAlgebraFee | TAlgebraPluginConfig | TAlgebraPlugin | TAlgebraSwapFee

text \<open>The decoded log, by the event its first topic selects.\<close>

datatype v3_log =
    UniswapSwap u160 int u128
  | PancakeSwap u160 int u128
  | AlgebraSwap u160 int u128
  | FeeAdjustment u24 u24
  | UniswapMint int int u128
  | RamsesMint int int u128
  | UniswapBurn int int u128
  | AlgebraBurn int int u128
  | AlgebraFee u16
  | AlgebraPluginConfig
  | AlgebraPlugin
  | AlgebraSwapFee u24 u24
  | V3Undecodable v3_topic
  | V3Other

fun v3_log_topic :: "v3_log \<Rightarrow> v3_topic option" where
  "v3_log_topic (UniswapSwap _ _ _) = Some TUniswapSwap"
| "v3_log_topic (PancakeSwap _ _ _) = Some TPancakeSwap"
| "v3_log_topic (AlgebraSwap _ _ _) = Some TAlgebraSwap"
| "v3_log_topic (FeeAdjustment _ _) = Some TFeeAdjustment"
| "v3_log_topic (UniswapMint _ _ _) = Some TUniswapMint"
| "v3_log_topic (RamsesMint _ _ _) = Some TRamsesMint"
| "v3_log_topic (UniswapBurn _ _ _) = Some TUniswapBurn"
| "v3_log_topic (AlgebraBurn _ _ _) = Some TAlgebraBurn"
| "v3_log_topic (AlgebraFee _) = Some TAlgebraFee"
| "v3_log_topic AlgebraPluginConfig = Some TAlgebraPluginConfig"
| "v3_log_topic AlgebraPlugin = Some TAlgebraPlugin"
| "v3_log_topic (AlgebraSwapFee _ _) = Some TAlgebraSwapFee"
| "v3_log_topic (V3Undecodable t) = Some t"
| "v3_log_topic V3Other = None"

text \<open>The two plugin events carry no data the handler reads, so it never decodes them.\<close>

fun v3_apply_log :: "u64 \<Rightarrow> v3_log \<Rightarrow> v3_pool \<Rightarrow> v3_pool \<times> unit res" where
  "v3_apply_log now (UniswapSwap price tick l) p = update_state now price tick l p"
| "v3_apply_log now (PancakeSwap price tick l) p = update_state now price tick l p"
| "v3_apply_log now (AlgebraSwap price tick l) p = update_state now price tick l p"
| "v3_apply_log now (FeeAdjustment old_fee new_fee) p =
     (if v3_fee_source p = ReadCurrentFee then (p, Ok ()) else (set_fee new_fee p, Ok ()))"
| "v3_apply_log now (UniswapMint lo up amount) p = apply_mint_event lo up amount p"
| "v3_apply_log now (RamsesMint lo up amount) p = apply_mint_event lo up amount p"
| "v3_apply_log now (UniswapBurn lo up amount) p = apply_burn_event lo up amount p"
| "v3_apply_log now (AlgebraBurn lo up amount) p = apply_burn_event lo up amount p"
| "v3_apply_log now (AlgebraFee fee) p =
     (if v3_fee_source p \<noteq> ReadFee then (set_fee (ucast fee) p, Ok ()) else (p, Ok ()))"
| "v3_apply_log now AlgebraPluginConfig p = (p\<lparr>v3_fee_source := Unknown\<rparr>, Ok ())"
| "v3_apply_log now AlgebraPlugin p = (p\<lparr>v3_fee_source := Unknown\<rparr>, Ok ())"
| "v3_apply_log now (AlgebraSwapFee override_fee plugin_fee) p =
     (let held = (ucast (v3_fee p) :: u32);
          over = (ucast override_fee :: u32);
          base = (if over \<noteq> 0 then over else held);
          paid = base + ucast plugin_fee
      in (record_swap_fee (paid > held) p, Ok ()))"
| "v3_apply_log now (V3Undecodable t) p =
     (if t = TAlgebraPluginConfig \<or> t = TAlgebraPlugin then (p\<lparr>v3_fee_source := Unknown\<rparr>, Ok ())
      else (p, Err DecodeFailed))"
| "v3_apply_log now V3Other p = (p, Ok ())"

definition v3_topics :: "v3_topic list" where
  "v3_topics =
     [TUniswapSwap, TUniswapMint, TUniswapBurn, TPancakeSwap, TAlgebraSwap, TAlgebraBurn,
      TFeeAdjustment, TRamsesMint, TAlgebraFee, TAlgebraPluginConfig, TAlgebraPlugin, TAlgebraSwapFee]"

definition v3_profitable_topics :: "v3_topic list" where
  "v3_profitable_topics = [TUniswapSwap, TPancakeSwap, TAlgebraSwap]"

end
