(* ===== verification/Pool_Interface.thy ===== *)
theory Pool_Interface
  imports Dex_Prelude
begin

text \<open>
  The part of the traits \<^verbatim>\<open>PoolInterface\<close> and \<^verbatim>\<open>EventApplicable\<close> (\<^verbatim>\<open>src/pool/base.rs\<close>) that
  the registry and the collector rely on: applying a log never changes which pool it is. Each pool
  type interprets \<open>event_pool\<close> on its own \<open>apply_log\<close>; the pool types whose failing events leave the
  pool untouched interpret \<open>atomic_pool\<close> as well.
\<close>

locale event_pool =
  fixes apply_log :: "'log \<Rightarrow> 'pool \<Rightarrow> 'pool \<times> unit res"
    and identity :: "'pool \<Rightarrow> 'id"
  assumes identity_kept: "identity (fst (apply_log l p)) = identity p"
begin

text \<open>The collector applies logs in order and only reports the errors.\<close>

definition apply_all :: "'log list \<Rightarrow> 'pool \<Rightarrow> 'pool" where
  "apply_all ls p = foldl (\<lambda>p l. fst (apply_log l p)) p ls"

lemma apply_all_simps [simp]:
  "apply_all [] p = p"
  "apply_all (l # ls) p = apply_all ls (fst (apply_log l p))"
  "apply_all (ls @ ls') p = apply_all ls' (apply_all ls p)"
  by (simp_all add: apply_all_def)

lemma identity_kept_all: "identity (apply_all ls p) = identity p"
  by (induction ls arbitrary: p) (simp_all add: identity_kept)

end

locale atomic_pool = event_pool apply_log identity
  for apply_log :: "'log \<Rightarrow> 'pool \<Rightarrow> 'pool \<times> unit res" and identity :: "'pool \<Rightarrow> 'id" +
  assumes failed_unchanged: "apply_log l p = (p', Err e) \<Longrightarrow> p' = p"
begin

text \<open>So a failing log can be dropped from the stream.\<close>

lemma apply_all_skips_failures:
  assumes "\<And>p. \<exists>e. snd (apply_log l p) = Err e"
  shows "apply_all (ls @ [l] @ ls') p = apply_all (ls @ ls') p"
proof -
  have "fst (apply_log l q) = q" for q
    using assms [of q] failed_unchanged [of l q] by (metis prod.collapse)
  then show ?thesis by simp
qed

end

end
