(* ===== verification/V3_Liquidity.thy ===== *)
theory V3_Liquidity
  imports V3_Pool Pool_Interface
begin

text \<open>
  What the tick map of \<^verbatim>\<open>src/v3/pool.rs\<close> means. The specification is the history of liquidity changes, a
  list of ranges with signed amounts; a pool \<open>tracks\<close> a history when its ticks and its in-range
  liquidity are exactly the ones the history determines. Mint and burn events refine the extension of
  the history; the fee window and the frame of every event are here too.
\<close>

section \<open>Histories of liquidity changes\<close>

type_synonym change = "int \<times> int \<times> int"

definition weighted :: "(int \<Rightarrow> int \<Rightarrow> int) \<Rightarrow> change list \<Rightarrow> int" where
  "weighted w evs = (\<Sum>(lo, up, d) \<leftarrow> evs. w lo up * d)"

definition held :: "change list \<Rightarrow> int \<Rightarrow> int \<Rightarrow> int" where
  "held evs lo up = weighted (\<lambda>l u. of_bool (l = lo \<and> u = up)) evs"

definition gross_at :: "change list \<Rightarrow> int \<Rightarrow> int" where
  "gross_at evs t = weighted (\<lambda>lo up. of_bool (lo = t \<or> up = t)) evs"

definition net_at :: "change list \<Rightarrow> int \<Rightarrow> int" where
  "net_at evs t = weighted (\<lambda>lo up. of_bool (lo = t) - of_bool (up = t)) evs"

definition active_at :: "change list \<Rightarrow> int \<Rightarrow> int" where
  "active_at evs t = weighted (\<lambda>lo up. of_bool (lo \<le> t \<and> t < up)) evs"

definition total_held :: "change list \<Rightarrow> int" where
  "total_held evs = weighted (\<lambda>_ _. 1) evs"

text \<open>Ranges are proper, and no range ever holds a negative amount.\<close>

definition valid_history :: "change list \<Rightarrow> bool" where
  "valid_history evs \<longleftrightarrow> (\<forall>(lo, up, d) \<in> set evs. lo < up \<and> 0 \<le> held evs lo up)"

lemma weighted_simps [simp]:
  "weighted w [] = 0"
  "weighted w ((lo, up, d) # evs) = w lo up * d + weighted w evs"
  "weighted w (evs @ evs') = weighted w evs + weighted w evs'"
  by (simp_all add: weighted_def)

lemma weighted_by_range:
  "finite R \<Longrightarrow> (\<lambda>(lo, up, d). (lo, up)) ` set evs \<subseteq> R \<Longrightarrow>
     weighted w evs = (\<Sum>(lo, up) \<in> R. w lo up * held evs lo up)"
proof (induction evs)
  case Nil
  then show ?case by (simp add: held_def)
next
  case (Cons e evs)
  obtain l u d where e: "e = (l, u, d)" by (cases e)
  have mem: "(l, u) \<in> R" using Cons.prems e by auto
  have h: "held (e # evs) lo up = of_bool ((l, u) = (lo, up)) * d + held evs lo up" for lo up
    by (simp add: held_def e)
  have "(\<Sum>(lo, up) \<in> R. w lo up * held (e # evs) lo up)
      = (\<Sum>(lo, up) \<in> R. w lo up * (of_bool ((l, u) = (lo, up)) * d)) + (\<Sum>(lo, up) \<in> R. w lo up * held evs lo up)"
    unfolding h by (simp add: distrib_left sum.distrib case_prod_unfold)
  also have "(\<Sum>(lo, up) \<in> R. w lo up * (of_bool ((l, u) = (lo, up)) * d)) = w l u * d"
  proof -
    have "(\<Sum>(lo, up) \<in> R. w lo up * (of_bool ((l, u) = (lo, up)) * d))
        = (\<Sum>r \<in> R. if r = (l, u) then w l u * d else 0)"
      by (rule sum.cong) auto
    then show ?thesis using mem Cons.prems(1) by simp
  qed
  finally show ?case using Cons by (simp add: e)
qed

lemma held_nonneg: "valid_history evs \<Longrightarrow> 0 \<le> held evs lo up"
proof (cases "(lo, up) \<in> (\<lambda>(lo, up, d). (lo, up)) ` set evs")
  case True
  moreover assume "valid_history evs"
  ultimately show ?thesis by (auto simp: valid_history_def)
next
  case False
  then have "held evs lo up = 0"
    unfolding held_def by (induction evs) auto
  then show ?thesis by simp
qed

lemma weighted_mono:
  assumes v: "valid_history evs" and w: "\<And>lo up. lo < up \<Longrightarrow> w lo up \<le> w' lo up"
  shows "weighted w evs \<le> weighted w' evs"
proof -
  let ?R = "(\<lambda>(lo, up, d). (lo, up)) ` set evs"
  have range: "lo < up" if "(lo, up) \<in> ?R" for lo up using v that by (auto simp: valid_history_def)
  have "(\<Sum>(lo, up) \<in> ?R. w lo up * held evs lo up) \<le> (\<Sum>(lo, up) \<in> ?R. w' lo up * held evs lo up)"
  proof (rule sum_mono)
    fix r assume r: "r \<in> ?R"
    obtain lo up where lu: "r = (lo, up)" by (cases r)
    have "w lo up * held evs lo up \<le> w' lo up * held evs lo up"
      using r lu range held_nonneg [OF v] by (intro mult_right_mono w) auto
    then show "(case r of (lo, up) \<Rightarrow> w lo up * held evs lo up) \<le> (case r of (lo, up) \<Rightarrow> w' lo up * held evs lo up)"
      by (simp add: lu)
  qed
  then show ?thesis using weighted_by_range [of ?R evs] by simp
qed

lemma weighted_uminus: "weighted (\<lambda>lo up. - w lo up) evs = - weighted w evs"
  by (induction evs) auto

lemma history_bounds:
  assumes "valid_history evs"
  shows "0 \<le> gross_at evs t" and "gross_at evs t \<le> total_held evs"
    and "\<bar>net_at evs t\<bar> \<le> gross_at evs t"
    and "0 \<le> active_at evs t" and "active_at evs t \<le> total_held evs"
proof -
  have z: "weighted (\<lambda>_ _. 0) evs = 0" by (induction evs) auto
  show "0 \<le> gross_at evs t" "0 \<le> active_at evs t"
    using weighted_mono [OF assms, of "\<lambda>_ _. 0"] by (simp_all add: gross_at_def active_at_def z)
  show "gross_at evs t \<le> total_held evs" "active_at evs t \<le> total_held evs"
    unfolding gross_at_def active_at_def total_held_def by (intro weighted_mono [OF assms]; simp)+
  have "net_at evs t \<le> gross_at evs t"
    unfolding net_at_def gross_at_def by (rule weighted_mono [OF assms]) auto
  moreover have "- net_at evs t \<le> gross_at evs t"
    unfolding net_at_def gross_at_def weighted_uminus [symmetric] by (rule weighted_mono [OF assms]) auto
  ultimately show "\<bar>net_at evs t\<bar> \<le> gross_at evs t" by simp
qed

lemma valid_history_snoc:
  assumes "valid_history evs" and "lo < up" and "0 \<le> held evs lo up + d"
  shows "valid_history (evs @ [(lo, up, d)])"
proof -
  have h: "held (evs @ [(lo, up, d)]) l u = held evs l u + (if l = lo \<and> u = up then d else 0)" for l u
    by (auto simp: held_def)
  show ?thesis
    using assms held_nonneg [OF assms(1)] unfolding valid_history_def h by auto
qed

section \<open>One end of a range\<close>

text \<open>The map entry of a tick with net \<open>n\<close> and gross \<open>g\<close>: absent when the gross is zero.\<close>

definition tick_entry :: "int \<Rightarrow> int \<Rightarrow> int \<Rightarrow> tick option" where
  "tick_entry i n g = (if g = 0 then None
     else Some \<lparr>index = i, liquidity_net = n, liquidity_gross = word_of_int g\<rparr>)"

lemma uint_gross: "0 \<le> g \<Longrightarrow> g < 2 ^ 127 \<Longrightarrow> uint (word_of_int g :: u128) = g"
  by (rule uint_of_int) simp_all

lemma as_i128_small: "uint a < 2 ^ 127 \<Longrightarrow> as_i128 a = uint a"
  unfolding as_i128_def by (rule swrap_id) (simp_all add: srange_def, use uint_ge_0 [of a] in linarith)

lemma clamp_change:
  fixes a :: int
  assumes "0 \<le> a" and "0 \<le> g" and "g + a < 2 ^ 127" and "\<bar>n\<bar> \<le> g"
  shows "sclamp 128 (n + a) = n + a" and "sclamp 128 (n - a) = n - a" and "swrap 128 (- a) = - a"
  using assms by (auto intro!: sclamp_id swrap_id simp: srange_def)

lemma saturating_gross:
  fixes a :: u128
  assumes "0 \<le> g" and "g + uint a < 2 ^ 127"
  shows "saturating_add (word_of_int g) a = word_of_int (g + uint a)"
proof -
  have u: "uint (word_of_int g :: u128) = g"
    using assms uint_ge_0 [of a] by (intro uint_gross) linarith+
  have "uint (saturating_add (word_of_int g :: u128) a) = g + uint a"
    using assms by (simp add: uint_saturating_add u)
  then show ?thesis by (metis word_of_int_uint)
qed

text \<open>Every event end is one replacement of a tick's entry.\<close>

definition put_entry :: "int \<Rightarrow> int \<Rightarrow> int \<Rightarrow> tick_map \<Rightarrow> tick_map" where
  "put_entry i n g m = (case tick_entry i n g of None \<Rightarrow> bt_remove i m | Some t \<Rightarrow> bt_insert i t m)"

lemma put_entry_spec:
  assumes "bt_inv m"
  shows "bt_inv (put_entry i n g m)"
    and "bt_get (put_entry i n g m) j = (if j = i then tick_entry i n g else bt_get m j)"
  using assms by (auto simp: put_entry_def bt_simps split: option.split)

lemma mint_ends:
  fixes a :: u128
  assumes e: "bt_get (v3_ticks p) i = tick_entry i n g"
    and g: "0 \<le> g" "g + uint a < 2 ^ 127" and n: "\<bar>n\<bar> \<le> g"
  shows "mint_lower i a p = p\<lparr>v3_ticks := put_entry i (n + uint a) (g + uint a) (v3_ticks p)\<rparr>"
    and "mint_upper i a p = p\<lparr>v3_ticks := put_entry i (n - uint a) (g + uint a) (v3_ticks p)\<rparr>"
proof -
  have a0: "0 \<le> uint a" by simp
  then have a: "uint a < 2 ^ 127" using g by linarith
  note facts = clamp_change [OF a0 g n] as_i128_small [OF a] saturating_gross [OF g]
  have "mint_lower i a p = p\<lparr>v3_ticks := put_entry i (n + uint a) (g + uint a) (v3_ticks p)\<rparr> \<and>
      mint_upper i a p = p\<lparr>v3_ticks := put_entry i (n - uint a) (g + uint a) (v3_ticks p)\<rparr>"
  proof (cases "g = 0")
    case True
    with n e have "bt_get (v3_ticks p) i = None" "n = 0" by (simp_all add: tick_entry_def)
    moreover have "a = 0 \<longleftrightarrow> uint a = 0" by (simp add: word_eq_uint)
    ultimately show ?thesis
      using True facts(3,4)
      by (simp add: mint_lower_def mint_upper_def update_tick_def put_entry_def tick_entry_def)
  next
    case False
    then have "bt_get (v3_ticks p) i = Some \<lparr>index = i, liquidity_net = n, liquidity_gross = word_of_int g\<rparr>"
      using e by (simp add: tick_entry_def)
    moreover have "g + uint a \<noteq> 0" using False g a0 by linarith
    ultimately show ?thesis
      by (simp add: mint_lower_def mint_upper_def put_entry_def tick_entry_def facts)
  qed
  then show "mint_lower i a p = p\<lparr>v3_ticks := put_entry i (n + uint a) (g + uint a) (v3_ticks p)\<rparr>"
    and "mint_upper i a p = p\<lparr>v3_ticks := put_entry i (n - uint a) (g + uint a) (v3_ticks p)\<rparr>"
    by simp_all
qed

lemma burn_ends:
  fixes a :: u128
  assumes inv: "bt_inv (v3_ticks p)" and e: "bt_get (v3_ticks p) i = tick_entry i n g"
    and g: "g \<noteq> 0" "uint a \<le> g" "g < 2 ^ 127"
  shows "burn_end i f a p = p\<lparr>v3_ticks := put_entry i (f n) (g - uint a) (v3_ticks p)\<rparr>"
proof -
  have a0: "0 \<le> uint a" by simp
  then have g0: "0 \<le> g" using g by linarith
  have get: "bt_get (v3_ticks p) i = Some \<lparr>index = i, liquidity_net = n, liquidity_gross = word_of_int g\<rparr>"
    using e g by (simp add: tick_entry_def)
  have "uint (saturating_sub (word_of_int g :: u128) a) = g - uint a"
    using g uint_gross [OF g0 g(3)] by (simp add: uint_saturating_sub)
  then have s: "saturating_sub (word_of_int g) a = (word_of_int (g - uint a) :: u128)" by (metis word_of_int_uint)
  have z: "(word_of_int (g - uint a) :: u128) = 0 \<longleftrightarrow> g - uint a = 0"
  proof -
    have "uint (word_of_int (g - uint a) :: u128) = g - uint a" using g a0 by (intro uint_gross) linarith+
    then show ?thesis by (metis word_eq_uint uint_0_eq)
  qed
  show ?thesis
  proof (cases "g - uint a = 0")
    case True
    then show ?thesis
      using s z inv by (simp add: burn_end_def get update_tick_def put_entry_def tick_entry_def bt_remove_insert)
  next
    case False
    then show ?thesis using s z by (simp add: burn_end_def get put_entry_def tick_entry_def Let_def)
  qed
qed

section \<open>The pool tracks a history\<close>

definition tracks :: "v3_pool \<Rightarrow> change list \<Rightarrow> bool" where
  "tracks p evs \<longleftrightarrow> bt_inv (v3_ticks p) \<and>
     (\<forall>t. bt_get (v3_ticks p) t = tick_entry t (net_at evs t) (gross_at evs t)) \<and>
     uint (v3_liquidity p) = active_at evs (v3_tick p)"

lemma change_sums:
  "gross_at (evs @ [(lo, up, d)]) t = gross_at evs t + of_bool (lo = t \<or> up = t) * d"
  "net_at (evs @ [(lo, up, d)]) t = net_at evs t + (of_bool (lo = t) - of_bool (up = t)) * d"
  "active_at (evs @ [(lo, up, d)]) t = active_at evs t + of_bool (lo \<le> t \<and> t < up) * d"
  "total_held (evs @ [(lo, up, d)]) = total_held evs + d"
  "held (evs @ [(lo, up, d)]) l u = held evs l u + of_bool (lo = l \<and> up = u) * d"
  by (simp_all add: gross_at_def net_at_def active_at_def total_held_def held_def)

text \<open>Replacing the entries of both ends turns a map of one history into a map of its extension.\<close>

lemma put_both:
  assumes "bt_inv m" and "\<forall>t. bt_get m t = tick_entry t (net_at evs t) (gross_at evs t)" and "lo \<noteq> up"
  shows "bt_inv (put_entry up (net_at evs up - d) (gross_at evs up + d)
      (put_entry lo (net_at evs lo + d) (gross_at evs lo + d) m))"
    and "bt_get (put_entry up (net_at evs up - d) (gross_at evs up + d)
      (put_entry lo (net_at evs lo + d) (gross_at evs lo + d) m)) t =
      tick_entry t (net_at (evs @ [(lo, up, d)]) t) (gross_at (evs @ [(lo, up, d)]) t)"
  using assms by (auto simp: put_entry_spec change_sums)

lemma mint_refines_history:
  assumes tr: "tracks p evs" and v: "valid_history evs" and lt: "lo < up"
    and room: "total_held evs + uint (a :: u128) < 2 ^ 127"
  shows "\<exists>p'. apply_mint_event lo up a p = (p', Ok ()) \<and> tracks p' (evs @ [(lo, up, uint a)]) \<and>
    v3_tick p' = v3_tick p"
proof -
  note b = history_bounds [OF v]
  have inv: "bt_inv (v3_ticks p)" and liq: "uint (v3_liquidity p) = active_at evs (v3_tick p)"
    using tr by (simp_all add: tracks_def)
  have get: "bt_get (v3_ticks p) t = tick_entry t (net_at evs t) (gross_at evs t)" for t
    using tr by (simp add: tracks_def)
  have fits: "gross_at evs t + uint a < 2 ^ 127" for t using b(2) [of t] room by linarith
  let ?p1 = "p\<lparr>v3_ticks := put_entry lo (net_at evs lo + uint a) (gross_at evs lo + uint a) (v3_ticks p)\<rparr>"
  let ?m = "put_entry up (net_at evs up - uint a) (gross_at evs up + uint a) (v3_ticks ?p1)"
  have 1: "mint_lower lo a p = ?p1" by (rule mint_ends(1) [OF get b(1) fits b(3)])
  have "bt_get (v3_ticks ?p1) up = tick_entry up (net_at evs up) (gross_at evs up)"
    using inv get lt by (simp add: put_entry_spec)
  from mint_ends(2) [OF this b(1) fits b(3)] have 2: "mint_upper up a ?p1 = p\<lparr>v3_ticks := ?m\<rparr>" by simp
  let ?l = "if lo \<le> v3_tick p \<and> v3_tick p < up then saturating_add (v3_liquidity p) a else v3_liquidity p"
  have "apply_mint_event lo up a p = (p\<lparr>v3_ticks := ?m, v3_liquidity := ?l\<rparr>, Ok ())"
    using lt 1 2 by (simp add: apply_mint_event_def Let_def)
  moreover have "uint ?l = active_at (evs @ [(lo, up, uint a)]) (v3_tick p)"
    using liq b(5) [of "v3_tick p"] room by (auto simp: change_sums uint_saturating_add)
  ultimately show ?thesis
    using put_both [OF inv, of evs lo up "uint a"] get lt by (auto simp: tracks_def)
qed

lemma burn_refines_history:
  assumes tr: "tracks p evs" and v: "valid_history evs" and lt: "lo < up"
    and h: "0 < held evs lo up" "uint (a :: u128) \<le> held evs lo up" and room: "total_held evs < 2 ^ 127"
  shows "\<exists>p'. apply_burn_event lo up a p = (p', Ok ()) \<and> tracks p' (evs @ [(lo, up, - uint a)]) \<and>
    v3_tick p' = v3_tick p"
proof -
  note b = history_bounds [OF v]
  have inv: "bt_inv (v3_ticks p)" and liq: "uint (v3_liquidity p) = active_at evs (v3_tick p)"
    using tr by (simp_all add: tracks_def)
  have get: "bt_get (v3_ticks p) t = tick_entry t (net_at evs t) (gross_at evs t)" for t
    using tr by (simp add: tracks_def)
  have g: "held evs lo up \<le> gross_at evs t" if "t = lo \<or> t = up" for t
    unfolding held_def gross_at_def using that by (intro weighted_mono [OF v]) auto
  have act: "held evs lo up \<le> active_at evs t" if "lo \<le> t" "t < up" for t
    unfolding held_def active_at_def using that by (intro weighted_mono [OF v]) auto
  have gn: "gross_at evs t \<noteq> 0" "uint a \<le> gross_at evs t" "gross_at evs t < 2 ^ 127" if "t = lo \<or> t = up" for t
    using g [OF that] h b(2) [of t] room by linarith+
  have a0: "0 \<le> uint a" by simp
  have a: "as_i128 a = uint a" using h b(2) [of lo] g [of lo] room by (intro as_i128_small) simp
  have small: "gross_at evs t - uint a + uint a < 2 ^ 127" if "t = lo \<or> t = up" for t using gn(3) [OF that] by simp
  have c: "sclamp 128 (net_at evs lo - uint a) = net_at evs lo - uint a"
    "sclamp 128 (net_at evs up + uint a) = net_at evs up + uint a"
  proof -
    have "valid_history (evs @ [(lo, up, - uint a)])" using h by (intro valid_history_snoc [OF v lt]) simp
    note n = history_bounds(3) [OF this]
    have "\<bar>net_at evs lo - uint a\<bar> \<le> gross_at evs lo - uint a" using n [of lo] lt by (simp add: change_sums)
    moreover have "\<bar>net_at evs up + uint a\<bar> \<le> gross_at evs up - uint a" using n [of up] lt by (simp add: change_sums)
    moreover have "gross_at evs lo - uint a < 2 ^ 127" "gross_at evs up - uint a < 2 ^ 127"
      using gn(3) [of lo] gn(3) [of up] a0 by linarith+
    ultimately show "sclamp 128 (net_at evs lo - uint a) = net_at evs lo - uint a"
      "sclamp 128 (net_at evs up + uint a) = net_at evs up + uint a"
      by (intro sclamp_id; auto simp: srange_def)+
  qed
  let ?p1 = "p\<lparr>v3_ticks := put_entry lo (net_at evs lo - uint a) (gross_at evs lo - uint a) (v3_ticks p)\<rparr>"
  let ?m = "put_entry up (net_at evs up + uint a) (gross_at evs up - uint a) (v3_ticks ?p1)"
  have 1: "burn_end lo (\<lambda>n. sclamp 128 (n - as_i128 a)) a p = ?p1"
    using burn_ends [OF inv get, of lo a "\<lambda>n. sclamp 128 (n - as_i128 a)"] gn [of lo] by (simp add: a c)
  have inv1: "bt_inv (v3_ticks ?p1)" using inv by (simp add: put_entry_spec)
  have get1: "bt_get (v3_ticks ?p1) up = tick_entry up (net_at evs up) (gross_at evs up)"
    using inv get lt by (simp add: put_entry_spec)
  have 2: "burn_end up (\<lambda>n. sclamp 128 (n + as_i128 a)) a ?p1 = p\<lparr>v3_ticks := ?m\<rparr>"
    using burn_ends [OF inv1 get1, of a "\<lambda>n. sclamp 128 (n + as_i128 a)"] gn [of up] by (simp add: a c)
  have some: "bt_get (v3_ticks p) t \<noteq> None" if "t = lo \<or> t = up" for t
    using gn(1) [OF that] by (simp add: get tick_entry_def)
  let ?l = "if lo \<le> v3_tick p \<and> v3_tick p < up then saturating_sub (v3_liquidity p) a else v3_liquidity p"
  have "apply_burn_event lo up a p = (p\<lparr>v3_ticks := ?m, v3_liquidity := ?l\<rparr>, Ok ())"
    using lt 1 2 some [of lo] some [of up] by (simp add: apply_burn_event_def Let_def)
  moreover have "uint ?l = active_at (evs @ [(lo, up, - uint a)]) (v3_tick p)"
    using liq act [of "v3_tick p"] h by (auto simp: change_sums uint_saturating_sub)
  ultimately show ?thesis
    using put_both [OF inv, of evs lo up "- uint a"] get lt by (auto simp: tracks_def)
qed

section \<open>Streams of events\<close>

text \<open>The history after an event, and what the chain guarantees of the event.\<close>

fun history_step :: "change list \<Rightarrow> v3_log \<Rightarrow> change list" where
  "history_step evs (UniswapMint lo up a) = evs @ [(lo, up, uint a)]"
| "history_step evs (RamsesMint lo up a) = evs @ [(lo, up, uint a)]"
| "history_step evs (UniswapBurn lo up a) = evs @ [(lo, up, - uint a)]"
| "history_step evs (AlgebraBurn lo up a) = evs @ [(lo, up, - uint a)]"
| "history_step evs _ = evs"

definition mint_allowed :: "change list \<Rightarrow> int \<Rightarrow> int \<Rightarrow> u128 \<Rightarrow> bool" where
  "mint_allowed evs lo up a \<longleftrightarrow> lo < up \<and> total_held evs + uint a < 2 ^ 127"

definition burn_allowed :: "change list \<Rightarrow> int \<Rightarrow> int \<Rightarrow> u128 \<Rightarrow> bool" where
  "burn_allowed evs lo up a \<longleftrightarrow> lo < up \<and> 0 < held evs lo up \<and> uint a \<le> held evs lo up"

definition swap_allowed :: "change list \<Rightarrow> u160 \<Rightarrow> int \<Rightarrow> u128 \<Rightarrow> bool" where
  "swap_allowed evs price tick l \<longleftrightarrow>
     price \<noteq> 0 \<and> - 887272 \<le> tick \<and> tick \<le> 887272 \<and> uint l = active_at evs tick"

fun log_allowed :: "change list \<Rightarrow> v3_log \<Rightarrow> bool" where
  "log_allowed evs (UniswapMint lo up a) = mint_allowed evs lo up a"
| "log_allowed evs (RamsesMint lo up a) = mint_allowed evs lo up a"
| "log_allowed evs (UniswapBurn lo up a) = burn_allowed evs lo up a"
| "log_allowed evs (AlgebraBurn lo up a) = burn_allowed evs lo up a"
| "log_allowed evs (UniswapSwap price tick l) = swap_allowed evs price tick l"
| "log_allowed evs (PancakeSwap price tick l) = swap_allowed evs price tick l"
| "log_allowed evs (AlgebraSwap price tick l) = swap_allowed evs price tick l"
| "log_allowed evs (V3Undecodable _) = False"
| "log_allowed evs _ = True"

fun v3_run :: "u64 \<Rightarrow> v3_log list \<Rightarrow> v3_pool \<Rightarrow> v3_pool \<times> unit res" where
  "v3_run now [] p = (p, Ok ())"
| "v3_run now (e # es) p = (case v3_apply_log now e p of (p', Ok _) \<Rightarrow> v3_run now es p' | (p', Err x) \<Rightarrow> (p', Err x))"

fun logs_allowed :: "change list \<Rightarrow> v3_log list \<Rightarrow> bool" where
  "logs_allowed evs [] = True"
| "logs_allowed evs (e # es) \<longleftrightarrow> log_allowed evs e \<and> logs_allowed (history_step evs e) es"

definition history_of :: "change list \<Rightarrow> v3_log list \<Rightarrow> change list" where
  "history_of evs es = foldl history_step evs es"

lemma step_keeps_history:
  assumes "valid_history evs" and "total_held evs < 2 ^ 127" and "log_allowed evs e"
  shows "valid_history (history_step evs e) \<and> total_held (history_step evs e) < 2 ^ 127"
proof -
  have m: "valid_history (evs @ [(lo, up, uint a)]) \<and> total_held (evs @ [(lo, up, uint a)]) < 2 ^ 127"
    if "mint_allowed evs lo up a" for lo up a
    using that assms held_nonneg [OF assms(1), of lo up]
    by (auto simp: mint_allowed_def change_sums intro!: valid_history_snoc)
  have b: "valid_history (evs @ [(lo, up, - uint a)]) \<and> total_held (evs @ [(lo, up, - uint a)]) < 2 ^ 127"
    if "burn_allowed evs lo up a" for lo up a
  proof -
    have "total_held evs + - uint a < 2 ^ 127" using assms(2) uint_ge_0 [of a] by linarith
    then show ?thesis using that assms by (auto simp: burn_allowed_def change_sums intro!: valid_history_snoc)
  qed
  show ?thesis using assms m b by (cases e) auto
qed

lemma step_tracks:
  assumes tr: "tracks p evs" and v: "valid_history evs" and room: "total_held evs < 2 ^ 127"
    and ok: "log_allowed evs e"
  shows "\<exists>p'. v3_apply_log now e p = (p', Ok ()) \<and> tracks p' (history_step evs e)"
proof -
  have m: "\<exists>p'. apply_mint_event lo up a p = (p', Ok ()) \<and> tracks p' (evs @ [(lo, up, uint a)])"
    if "mint_allowed evs lo up a" for lo up a
    using that mint_refines_history [OF tr v, of lo up a] by (auto simp: mint_allowed_def)
  have b: "\<exists>p'. apply_burn_event lo up a p = (p', Ok ()) \<and> tracks p' (evs @ [(lo, up, - uint a)])"
    if "burn_allowed evs lo up a" for lo up a
    using that burn_refines_history [OF tr v, of lo up a] room by (auto simp: burn_allowed_def)
  have s: "\<exists>p'. update_state now price tick l p = (p', Ok ()) \<and> tracks p' evs" if "swap_allowed evs price tick l"
    for price tick l
    using that tr by (auto simp: swap_allowed_def update_state_def tracks_def)
  show ?thesis using ok m b s tr
    by (cases e) (auto simp: tracks_def set_fee_def record_swap_fee_def Let_def)
qed

lemma run_tracks:
  assumes "tracks p evs" and "valid_history evs" and "total_held evs < 2 ^ 127" and "logs_allowed evs es"
  shows "\<exists>p'. v3_run now es p = (p', Ok ()) \<and> tracks p' (history_of evs es)"
  using assms
proof (induction es arbitrary: p evs)
  case (Cons e es)
  obtain p1 where p1: "v3_apply_log now e p = (p1, Ok ())" "tracks p1 (history_step evs e)"
    using step_tracks [of p evs e now] Cons.prems by auto
  from Cons.IH [OF p1(2)] step_keeps_history [of evs e] Cons.prems p1(1) show ?case
    by (auto simp: history_of_def)
qed (simp add: history_of_def)

section \<open>Equal maps and the round trip of a range\<close>

lemma tracks_unique:
  assumes "tracks p evs" and "tracks q evs'" and "v3_tick p = v3_tick q"
    and "\<And>t. net_at evs t = net_at evs' t" and "\<And>t. gross_at evs t = gross_at evs' t"
    and "active_at evs (v3_tick p) = active_at evs' (v3_tick p)"
  shows "v3_ticks p = v3_ticks q \<and> v3_liquidity p = v3_liquidity q"
  using assms by (auto simp: tracks_def word_eq_uint intro: bt_eqI)

lemma burn_frame:
  "v3_ticks q = v3_ticks p \<Longrightarrow> v3_liquidity q = v3_liquidity p \<Longrightarrow>
    q = p\<lparr>v3_ticks := v3_ticks q, v3_liquidity := v3_liquidity q\<rparr> \<Longrightarrow> q = p"
  by simp

lemma mint_burn_shape:
  "\<exists>m l. fst (apply_mint_event lo up a p) = p\<lparr>v3_ticks := m, v3_liquidity := l\<rparr>"
  "\<exists>m l. fst (apply_burn_event lo up a p) = p\<lparr>v3_ticks := m, v3_liquidity := l\<rparr>"
proof -
  have u: "\<exists>m. update_tick i n g p = p\<lparr>v3_ticks := m\<rparr>" for i n g and p :: v3_pool
    by (auto simp: update_tick_def)
  have lo: "\<exists>m. mint_lower i a p = p\<lparr>v3_ticks := m\<rparr>" "\<exists>m. mint_upper i a p = p\<lparr>v3_ticks := m\<rparr>" for i a and p :: v3_pool
    using u by (auto simp: mint_lower_def mint_upper_def split: option.split)
  have be: "\<exists>m. burn_end i f a p = p\<lparr>v3_ticks := m\<rparr>" for i f a and p :: v3_pool
  proof (cases "bt_get (v3_ticks p) i")
    case None
    then show ?thesis by (intro exI [of _ "v3_ticks p"]) (simp add: burn_end_def)
  next
    case (Some t)
    then show ?thesis by (auto simp: burn_end_def Let_def update_tick_def)
  qed
  have id: "\<exists>m l. p = p\<lparr>v3_ticks := m, v3_liquidity := l\<rparr>" for p :: v3_pool
    by (intro exI [of _ "v3_ticks p"] exI [of _ "v3_liquidity p"]) simp
  obtain m1 where m1: "mint_lower lo a p = p\<lparr>v3_ticks := m1\<rparr>" using lo(1) by blast
  obtain m2 where m2: "mint_upper up a (p\<lparr>v3_ticks := m1\<rparr>) = p\<lparr>v3_ticks := m2\<rparr>"
    using lo(2) [of up a "p\<lparr>v3_ticks := m1\<rparr>"] by auto
  show "\<exists>m l. fst (apply_mint_event lo up a p) = p\<lparr>v3_ticks := m, v3_liquidity := l\<rparr>"
    using id [of p] id [of "p\<lparr>v3_ticks := m2\<rparr>"] by (auto simp: apply_mint_event_def Let_def m1 m2)
  obtain b1 where b1: "burn_end lo (\<lambda>n. sclamp 128 (n - as_i128 a)) a p = p\<lparr>v3_ticks := b1\<rparr>" using be by blast
  obtain b2 where b2: "burn_end up (\<lambda>n. sclamp 128 (n + as_i128 a)) a (p\<lparr>v3_ticks := b1\<rparr>) = p\<lparr>v3_ticks := b2\<rparr>"
    using be [of up "\<lambda>n. sclamp 128 (n + as_i128 a)" a "p\<lparr>v3_ticks := b1\<rparr>"] by auto
  show "\<exists>m l. fst (apply_burn_event lo up a p) = p\<lparr>v3_ticks := m, v3_liquidity := l\<rparr>"
    using id [of p] id [of "p\<lparr>v3_ticks := b2\<rparr>"] by (auto simp: apply_burn_event_def Let_def b1 b2)
qed

section \<open>The pool as an event pool\<close>

definition v3_identity :: "v3_pool \<Rightarrow> address \<times> address \<times> address \<times> v3_pool_type \<times> int \<times> address \<times> u64" where
  "v3_identity p = (v3_address p, v3_token0 p, v3_token1 p, v3_type p, v3_tick_spacing p, v3_factory p, v3_created_at p)"

lemma v3_event_frame: "v3_identity (fst (v3_apply_log now e p)) = v3_identity p"
proof -
  have m: "v3_identity (fst (apply_mint_event lo up a p)) = v3_identity p"
    "v3_identity (fst (apply_burn_event lo up a p)) = v3_identity p" for lo up a
    using mint_burn_shape [of lo up a p] by (auto simp: v3_identity_def)
  then show ?thesis
    by (cases e) (auto simp: update_state_def set_fee_def record_swap_fee_def Let_def v3_identity_def)
qed

lemma v3_event_atomic: "v3_apply_log now e p = (p', Err x) \<Longrightarrow> p' = p"
  by (cases e)
    (auto simp: update_state_def apply_mint_event_def apply_burn_event_def Let_def split: if_splits)

interpretation v3: atomic_pool "v3_apply_log now" v3_identity
  by unfold_locales (auto simp: v3_event_frame dest: v3_event_atomic)

section \<open>The fee window\<close>

lemma record_fees_window:
  assumes "length (v3_swap_fee_misses p) \<le> 10"
  shows "v3_swap_fee_misses (foldl (\<lambda>p m. record_swap_fee m p) p ms) =
    drop (length (v3_swap_fee_misses p) + length ms - 10) (v3_swap_fee_misses p @ ms)"
  using assms
proof (induction ms arbitrary: p)
  case (Cons m ms)
  let ?w = "v3_swap_fee_misses p"
  have w: "v3_swap_fee_misses (record_swap_fee m p) = (if length ?w = 10 then tl ?w @ [m] else ?w @ [m])"
    using Cons.prems by (cases ?w) (auto simp: record_swap_fee_def SWAP_FEE_WINDOW_def)
  show ?case
  proof (cases "length ?w = 10")
    case True
    then obtain x xs where x: "?w = x # xs" "length xs = 9" by (cases ?w) auto
    have "v3_swap_fee_misses (foldl (\<lambda>p m. record_swap_fee m p) (record_swap_fee m p) ms) =
        drop (length (xs @ [m]) + length ms - 10) ((xs @ [m]) @ ms)"
      using Cons.IH [of "record_swap_fee m p"] w x by simp
    then show ?thesis using x by (simp add: Suc_diff_le)
  next
    case False
    then have "v3_swap_fee_misses (foldl (\<lambda>p m. record_swap_fee m p) (record_swap_fee m p) ms) =
        drop (length (?w @ [m]) + length ms - 10) ((?w @ [m]) @ ms)"
      using Cons.IH [of "record_swap_fee m p"] w Cons.prems by simp
    then show ?thesis by simp
  qed
qed simp

section \<open>Properties\<close>

text \<open>C4: starting from any tracked pool, a stream of events that a chain can emit (mints of proper ranges, burns of at most
  what the range holds, swaps that report the in-range liquidity) is applied without an error, and
  the tick map and the in-range liquidity are afterwards exactly the ones the history of liquidity
  changes determines: every tick with a non-zero gross is present, with its net and gross, and no other.\<close>

theorem v3_events_refine_history:
  assumes "tracks p evs" and "valid_history evs" and "total_held evs < 2 ^ 127" and "logs_allowed evs es"
  shows "\<exists>p'. v3_run now es p = (p', Ok ()) \<and> bt_inv (v3_ticks p') \<and>
    uint (v3_liquidity p') = active_at (history_of evs es) (v3_tick p') \<and>
    (\<forall>t. bt_get (v3_ticks p') t =
      (if gross_at (history_of evs es) t = 0 then None
       else Some \<lparr>index = t, liquidity_net = net_at (history_of evs es) t,
         liquidity_gross = word_of_int (gross_at (history_of evs es) t)\<rparr>))"
  using run_tracks [OF assms, of now] by (auto simp: tracks_def tick_entry_def)

definition sample_pool :: v3_pool where
  "sample_pool = v3_new 1 2 3 3000 60 (2 ^ 96) 0 0 4 UniswapV3 1700000000"

lemma sample_tracks: "tracks sample_pool []"
  by (simp add: tracks_def sample_pool_def v3_new_def bt_inv_def gross_at_def net_at_def active_at_def tick_entry_def)

theorem v3_events_refine_history_witness:
  "\<exists>p'. v3_run 0 [UniswapMint (-60) 60 1000, UniswapMint 0 120 500, UniswapBurn (-60) 60 1000] sample_pool = (p', Ok ()) \<and>
     uint (v3_liquidity p') = 500 \<and> bt_get (v3_ticks p') 60 = None"
proof -
  let ?es = "[UniswapMint (-60) 60 1000, UniswapMint 0 120 500, UniswapBurn (-60) 60 1000]"
  have "valid_history []" "total_held [] < 2 ^ 127" by (simp_all add: valid_history_def total_held_def)
  moreover have "logs_allowed [] ?es"
    by (simp add: mint_allowed_def burn_allowed_def total_held_def held_def)
  ultimately obtain p' where p': "v3_run 0 ?es sample_pool = (p', Ok ())"
    "uint (v3_liquidity p') = active_at (history_of [] ?es) (v3_tick p')"
    "\<forall>t. bt_get (v3_ticks p') t = (if gross_at (history_of [] ?es) t = 0 then None
       else Some \<lparr>index = t, liquidity_net = net_at (history_of [] ?es) t,
         liquidity_gross = word_of_int (gross_at (history_of [] ?es) t)\<rparr>)"
    using v3_events_refine_history [OF sample_tracks, of ?es 0] by blast
  have "v3_tick (fst (v3_run 0 ?es sample_pool)) = 0" by code_simp
  then have "v3_tick p' = 0" unfolding p'(1) by simp
  then show ?thesis using p' by (auto simp: history_of_def gross_at_def active_at_def)
qed

text \<open>C28: on a tracked pool, a mint followed by the burn of the same range and amount restores the whole
  pool, entry for entry.\<close>

theorem v3_mint_burn_roundtrip:
  assumes "tracks p evs" and "valid_history evs" and "lo < up" and "a \<noteq> 0"
    and "total_held evs + uint a < 2 ^ 127"
  shows "v3_run now [UniswapMint lo up a, UniswapBurn lo up a] p = (p, Ok ())"
proof -
  obtain p1 where p1: "apply_mint_event lo up a p = (p1, Ok ())" "tracks p1 (evs @ [(lo, up, uint a)])"
    "v3_tick p1 = v3_tick p"
    using mint_refines_history [OF assms(1,2,3,5)] by blast
  have v: "valid_history (evs @ [(lo, up, uint a)])"
    using held_nonneg [OF assms(2), of lo up] by (intro valid_history_snoc assms) simp
  have h: "0 < held (evs @ [(lo, up, uint a)]) lo up" "uint a \<le> held (evs @ [(lo, up, uint a)]) lo up"
    using held_nonneg [OF assms(2), of lo up] uint_pos [OF assms(4)] by (simp_all add: change_sums)
  obtain p2 where p2: "apply_burn_event lo up a p1 = (p2, Ok ())"
    "tracks p2 ((evs @ [(lo, up, uint a)]) @ [(lo, up, - uint a)])" "v3_tick p2 = v3_tick p1"
    using burn_refines_history [OF p1(2) v assms(3) h] assms(5) by (auto simp: change_sums)
  have "v3_ticks p2 = v3_ticks p \<and> v3_liquidity p2 = v3_liquidity p"
  proof (rule tracks_unique [OF p2(2) assms(1)])
    show "v3_tick p2 = v3_tick p" using p1(3) p2(3) by simp
  qed (simp_all only: change_sums mult_minus_right add.assoc add.right_inverse add_0_right)
  moreover obtain m l m' l' where "p1 = p\<lparr>v3_ticks := m, v3_liquidity := l\<rparr>"
    "p2 = p1\<lparr>v3_ticks := m', v3_liquidity := l'\<rparr>"
    using mint_burn_shape(1) [of lo up a p] mint_burn_shape(2) [of lo up a p1] p1(1) p2(1) by auto
  ultimately have "p2 = p" by simp
  then show ?thesis using p1(1) p2(1) by simp
qed

theorem v3_mint_burn_roundtrip_witness:
  "v3_run 0 [UniswapMint (-60) 60 1000, UniswapBurn (-60) 60 1000] sample_pool = (sample_pool, Ok ())"
  by (rule v3_mint_burn_roundtrip [OF sample_tracks]) (simp_all add: valid_history_def total_held_def)

text \<open>C29: an event that fails (an undecodable log, a zero price, an inverted range, a burn with an uninitialized
  end) leaves the pool exactly as it was.\<close>

theorem v3_failed_event_changes_nothing:
  assumes "v3_apply_log now e p = (p', Err x)"
  shows "p' = p"
  using assms by (rule v3.failed_unchanged)

theorem v3_failed_event_changes_nothing_witness:
  "fst (v3_apply_log 0 (UniswapBurn (-60) 60 5) sample_pool) = sample_pool"
proof -
  have "v3_apply_log 0 (UniswapBurn (-60) 60 5) sample_pool = (sample_pool, Err (BurnUninitializedLower (-60)))"
    by (simp add: apply_burn_event_def sample_pool_def v3_new_def)
  from v3_failed_event_changes_nothing [OF this] show ?thesis by (simp add: apply_burn_event_def sample_pool_def v3_new_def)
qed

text \<open>The fee check looks at exactly the last ten recorded swaps: the pool stops quoting when at least
  three of them paid more than the fee held, and quotes again as soon as fewer did.\<close>

theorem fee_window_is_last_ten:
  assumes "v3_swap_fee_misses p = []"
  shows "fee_unpredictable (foldl (\<lambda>p m. record_swap_fee m p) p ms) \<longleftrightarrow>
    3 \<le> length (filter id (drop (length ms - 10) ms))"
  using record_fees_window [of p ms] assms
  by (simp add: fee_unpredictable_def SWAP_FEE_MISSES_TO_STOP_def id_def)

theorem fee_window_is_last_ten_witness:
  "fee_unpredictable (foldl (\<lambda>p m. record_swap_fee m p) sample_pool [True, False, True, True]) \<and>
   \<not> fee_unpredictable (foldl (\<lambda>p m. record_swap_fee m p) sample_pool ([True, True, True] @ replicate 8 False))"
  using fee_window_is_last_ten [of sample_pool "[True, False, True, True]"]
    fee_window_is_last_ten [of sample_pool "[True, True, True] @ replicate 8 False"]
  by (simp add: sample_pool_def v3_new_def eval_nat_numeral)

end
