(* ===== verification/V3_Quotes.thy ===== *)
theory V3_Quotes
  imports V3_Pool Swap_Loop
begin

text \<open>
  The quotes of \<^verbatim>\<open>src/v3/pool.rs\<close> over the swap loop: they always return, and a quote that
  succeeds used the whole amount on a token of the pool while the pool's fee was trusted.
\<close>

definition v3_usable :: "v3_pool \<Rightarrow> bool" where
  "v3_usable p \<longleftrightarrow> uint (v3_fee p) < 1000000 \<and> bt_inv (v3_ticks p) \<and> spacing_ok (v3_tick_spacing p) \<and>
     in_ticks (v3_tick p) \<and> v3_sqrt_price_x96 p \<noteq> 0"

lemma search_of_usable: "v3_usable p \<Longrightarrow> search_ok (tick_search_of p)"
  by (simp add: v3_usable_def search_ok_def tick_search_of_def)

lemma quote_swap_total: "v3_usable p \<Longrightarrow> \<exists>r. quote_swap p zero_for_one amount exact = Some r"
  using v3_swap_total [OF _ _ search_of_usable, of "v3_fee p" "v3_ticks p" p "v3_tick p" "v3_sqrt_price_x96 p"
      "v3_liquidity p" zero_for_one "if exact then amount else saturating_neg amount" None]
  by (auto simp: quote_swap_def v3_usable_def)

lemma quote_swap_Ok:
  "quote_swap p zero_for_one amount exact = Some (Ok out) \<longleftrightarrow>
     (\<exists>s. v3_swap (v3_fee p) (v3_sqrt_price_x96 p) (v3_tick p) (v3_liquidity p) (v3_ticks p) (tick_search_of p)
        zero_for_one (if exact then amount else saturating_neg amount) None = Some (Ok s) \<and>
      amount_specified_remaining s = 0 \<and> out = abs_raw (amount_calculated s))"
  by (auto simp: quote_swap_def and_then_Ok_iff split: if_splits)

section \<open>Properties\<close>



end
