(* ===== verification/V2_Pool.thy ===== *)
theory V2_Pool
  imports Dex_Prelude
begin

text \<open>
  \<^verbatim>\<open>src/v2/pool.rs\<close>: a two-reserve pool, priced by the constant product (\<open>UniswapV2\<close>) or by the
  curve \<open>x\<^sup>3y + xy\<^sup>3\<close> (\<open>Stable\<close>), its quotes and its events. As for the V3 pool, the model starts
  from the decoded event and takes the wall clock as the argument \<open>now\<close>.
\<close>

section \<open>State\<close>

datatype v2_pool_type = UniswapV2 | Stable

record v2_pool =
  v2_type :: v2_pool_type
  v2_address :: address
  v2_token0 :: address
  v2_token1 :: address
  v2_decimals0 :: u128
  v2_decimals1 :: u128
  v2_reserve0 :: u256
  v2_reserve1 :: u256
  v2_fee :: u256
  v2_last_updated :: u64
  v2_created_at :: u64

definition FEE_DENOMINATOR :: u256 where
  "FEE_DENOMINATOR = 1000000"

definition exp18 :: u256 where
  "exp18 = 1000000000000000000"

text \<open>\<^verbatim>\<open>10_u128.pow(decimals)\<close> wraps.\<close>

definition v2_new ::
    "v2_pool_type \<Rightarrow> address \<Rightarrow> address \<Rightarrow> address \<Rightarrow> u8 \<Rightarrow> u8 \<Rightarrow> u256 \<Rightarrow> u256 \<Rightarrow> u256 \<Rightarrow> u64 \<Rightarrow> v2_pool" where
  "v2_new pool_type address token0 token1 decimals_0 decimals_1 r0 r1 fee now =
     \<lparr>v2_type = pool_type, v2_address = address, v2_token0 = token0, v2_token1 = token1,
      v2_decimals0 = 10 ^ unat decimals_0, v2_decimals1 = 10 ^ unat decimals_1,
      v2_reserve0 = r0, v2_reserve1 = r1, v2_fee = fee, v2_last_updated = now, v2_created_at = now\<rparr>"

definition update_reserves :: "u64 \<Rightarrow> u256 \<Rightarrow> u256 \<Rightarrow> v2_pool \<Rightarrow> v2_pool \<times> unit res" where
  "update_reserves now r0 r1 p =
     (p\<lparr>v2_reserve0 := r0, v2_reserve1 := r1, v2_last_updated := now\<rparr>, Ok ())"

definition constant_product :: "v2_pool \<Rightarrow> u256" where
  "constant_product p = v2_reserve0 p * v2_reserve1 p"

definition is_valid :: "v2_pool \<Rightarrow> bool" where
  "is_valid p \<longleftrightarrow> v2_reserve0 p \<noteq> 0 \<and> v2_reserve1 p \<noteq> 0"

section \<open>The stable curve\<close>

definition scaled :: "u256 \<Rightarrow> u128 \<Rightarrow> u256 res" where
  "scaled x decimals = udiv (x * exp18) (ucast decimals)"

definition stable_k :: "v2_pool \<Rightarrow> u256 \<Rightarrow> u256 \<Rightarrow> u256 res" where
  "stable_k p x y =
     (if v2_type p = Stable then
        and_then (scaled x (v2_decimals0 p)) (\<lambda>x.
        and_then (scaled y (v2_decimals1 p)) (\<lambda>y.
        let a = (x * y) div exp18; b = (x * x) div exp18 + (y * y) div exp18
        in Ok ((a * b) div exp18)))
      else Ok (x * y))"

definition stable_f :: "u256 \<Rightarrow> u256 \<Rightarrow> u256" where
  "stable_f x0 y =
     (let a = (x0 * y) div exp18; b = (x0 * x0) div exp18 + (y * y) div exp18
      in (a * b) div exp18)"

definition stable_d :: "u256 \<Rightarrow> u256 \<Rightarrow> u256" where
  "stable_d x0 y =
     (3 * x0 * ((y * y) div exp18)) div exp18 + (((x0 * x0) div exp18) * x0) div exp18"

text \<open>The loop \<^verbatim>\<open>for _ in 0..255\<close>: the first argument counts the iterations left.\<close>

fun get_y_loop :: "nat \<Rightarrow> v2_pool \<Rightarrow> u256 \<Rightarrow> u256 \<Rightarrow> u256 \<Rightarrow> u256 res" where
  "get_y_loop 0 p x0 xy y = Err StableNoConvergence"
| "get_y_loop (Suc n) p x0 xy y =
     (let k = stable_f x0 y
      in if k < xy then
           and_then (udiv ((xy - k) * exp18) (stable_d x0 y)) (\<lambda>dy.
             if dy = 0 then
               (if k = xy then Ok y
                else and_then (stable_k p x0 (y + 1)) (\<lambda>k'.
                  if k' > xy then Ok (y + 1) else get_y_loop n p x0 xy (y + 1)))
             else get_y_loop n p x0 xy (y + dy))
         else
           and_then (udiv ((k - xy) * exp18) (stable_d x0 y)) (\<lambda>dy.
             if dy = 0 then
               (if k = xy \<or> stable_f x0 (y - 1) < xy then Ok y
                else get_y_loop n p x0 xy (y - 1))
             else get_y_loop n p x0 xy (y - dy)))"

definition get_y :: "v2_pool \<Rightarrow> u256 \<Rightarrow> u256 \<Rightarrow> u256 \<Rightarrow> u256 res" where
  "get_y p x0 xy y = get_y_loop 255 p x0 xy y"

definition calculate_stable_output :: "v2_pool \<Rightarrow> u256 \<Rightarrow> bool \<Rightarrow> u256 res" where
  "calculate_stable_output p amount zero_for_one =
     (let amount_in_with_fee = saturating_mul amount (FEE_DENOMINATOR - v2_fee p) div FEE_DENOMINATOR
      in and_then (stable_k p (v2_reserve0 p) (v2_reserve1 p)) (\<lambda>xy.
         and_then (scaled (v2_reserve0 p) (v2_decimals0 p)) (\<lambda>r0.
         and_then (scaled (v2_reserve1 p) (v2_decimals1 p)) (\<lambda>r1.
         let (reserve_a, reserve_b, decimals_in, decimals_out) =
               (if zero_for_one then (r0, r1, v2_decimals0 p, v2_decimals1 p)
                else (r1, r0, v2_decimals1 p, v2_decimals0 p))
         in and_then (scaled amount_in_with_fee decimals_in) (\<lambda>amount_in_parsed.
            and_then (get_y p (amount_in_parsed + reserve_a) xy reserve_b) (\<lambda>new_b.
            let y = reserve_b - new_b
            in Ok ((y * ucast decimals_out) div exp18)))))))"

section \<open>Quotes\<close>

definition calculate_output_0_to_1 :: "v2_pool \<Rightarrow> u256 \<Rightarrow> u256 res" where
  "calculate_output_0_to_1 p amount =
     (if amount = 0 then Err ZeroInput
      else if \<not> is_valid p then Err InvalidReserves
      else case v2_type p of
        UniswapV2 \<Rightarrow>
          let amount_in_with_fee = saturating_mul amount (FEE_DENOMINATOR - v2_fee p);
              numerator = amount_in_with_fee * v2_reserve1 p;
              denominator = v2_reserve0 p * FEE_DENOMINATOR + amount_in_with_fee
          in and_then (udiv numerator denominator) (\<lambda>out.
               if out \<ge> v2_reserve1 p then Err InsufficientLiquidity else Ok out)
      | Stable \<Rightarrow> calculate_stable_output p amount True)"

definition calculate_output_1_to_0 :: "v2_pool \<Rightarrow> u256 \<Rightarrow> u256 res" where
  "calculate_output_1_to_0 p amount =
     (if amount = 0 then Err ZeroInput
      else if \<not> is_valid p then Err InvalidReserves
      else case v2_type p of
        UniswapV2 \<Rightarrow>
          let amount_in_with_fee = saturating_mul amount (FEE_DENOMINATOR - v2_fee p);
              numerator = amount_in_with_fee * v2_reserve0 p;
              denominator = v2_reserve1 p * FEE_DENOMINATOR + amount_in_with_fee
          in and_then (udiv numerator denominator) (\<lambda>out.
               if out \<ge> v2_reserve0 p then Err InsufficientLiquidity else Ok out)
      | Stable \<Rightarrow> calculate_stable_output p amount False)"

definition calculate_input_0_to_1 :: "v2_pool \<Rightarrow> u256 \<Rightarrow> u256 res" where
  "calculate_input_0_to_1 p out =
     (if out = 0 then Err ZeroOutput
      else if \<not> is_valid p then Err InvalidReserves
      else if out \<ge> v2_reserve1 p then Err InsufficientLiquidity
      else let numerator = v2_reserve0 p * out * FEE_DENOMINATOR;
               denominator = (v2_reserve1 p - out) * (FEE_DENOMINATOR - v2_fee p)
           in and_then (udiv numerator denominator) (\<lambda>q. Ok (q + 1)))"

definition calculate_input_1_to_0 :: "v2_pool \<Rightarrow> u256 \<Rightarrow> u256 res" where
  "calculate_input_1_to_0 p out =
     (if out = 0 then Err ZeroOutput
      else if \<not> is_valid p then Err InvalidReserves
      else if out \<ge> v2_reserve0 p then Err InsufficientLiquidity
      else let numerator = v2_reserve1 p * out * FEE_DENOMINATOR;
               denominator = (v2_reserve0 p - out) * (FEE_DENOMINATOR - v2_fee p)
           in and_then (udiv numerator denominator) (\<lambda>q. Ok (q + 1)))"

section \<open>The pool interface\<close>

definition v2_calculate_output :: "v2_pool \<Rightarrow> address \<Rightarrow> u256 \<Rightarrow> u256 res" where
  "v2_calculate_output p token_in amount =
     (if token_in = v2_token0 p then calculate_output_0_to_1 p amount
      else if token_in = v2_token1 p then calculate_output_1_to_0 p amount
      else Err TokenNotInPool)"

definition v2_calculate_input :: "v2_pool \<Rightarrow> address \<Rightarrow> u256 \<Rightarrow> u256 res" where
  "v2_calculate_input p token_out amount =
     (if token_out = v2_token0 p then calculate_input_1_to_0 p amount
      else if token_out = v2_token1 p then calculate_input_0_to_1 p amount
      else Err TokenNotInPool)"

definition v2_apply_swap :: "u64 \<Rightarrow> address \<Rightarrow> u256 \<Rightarrow> u256 \<Rightarrow> v2_pool \<Rightarrow> v2_pool \<times> unit res" where
  "v2_apply_swap now token_in ain aout p =
     (if token_in = v2_token0 p then
        if aout \<ge> v2_reserve1 p then (p, Err InsufficientLiquidity)
        else (p\<lparr>v2_reserve0 := v2_reserve0 p + ain, v2_reserve1 := v2_reserve1 p - aout,
                v2_last_updated := now\<rparr>, Ok ())
      else if token_in = v2_token1 p then
        if aout \<ge> v2_reserve0 p then (p, Err InsufficientLiquidity)
        else (p\<lparr>v2_reserve1 := v2_reserve1 p + ain, v2_reserve0 := v2_reserve0 p - aout,
                v2_last_updated := now\<rparr>, Ok ())
      else (p, Err TokenNotInPool))"

definition v2_tokens :: "v2_pool \<Rightarrow> address \<times> address" where
  "v2_tokens p = (v2_token0 p, v2_token1 p)"

text \<open>\<^verbatim>\<open>self.fee.to::<u128>() as u64\<close>: the conversion panics, the cast truncates.\<close>

definition v2_fee_raw :: "v2_pool \<Rightarrow> u64 res" where
  "v2_fee_raw p = and_then (to_uint (v2_fee p) :: u128 res) (\<lambda>f. Ok (ucast f))"

definition v2_contains_token :: "v2_pool \<Rightarrow> address \<Rightarrow> bool" where
  "v2_contains_token p token \<longleftrightarrow> token = v2_token0 p \<or> token = v2_token1 p"

section \<open>Events\<close>

datatype v2_topic = TV2Swap | TV2Sync | TV2SyncUint256

text \<open>The decoded log; a swap event is accepted without being decoded.\<close>

datatype v2_log =
    V2Sync "112 word" "112 word"
  | V2SyncUint256 u256 u256
  | V2Swap
  | V2Undecodable v2_topic
  | V2Other

fun v2_apply_log :: "u64 \<Rightarrow> v2_log \<Rightarrow> v2_pool \<Rightarrow> v2_pool \<times> unit res" where
  "v2_apply_log now (V2Sync r0 r1) p = update_reserves now (ucast r0) (ucast r1) p"
| "v2_apply_log now (V2SyncUint256 r0 r1) p = update_reserves now r0 r1 p"
| "v2_apply_log now V2Swap p = (p, Ok ())"
| "v2_apply_log now (V2Undecodable t) p = (p, if t = TV2Swap then Ok () else Err DecodeFailed)"
| "v2_apply_log now V2Other p = (p, Ok ())"

fun v2_log_topic :: "v2_log \<Rightarrow> v2_topic option" where
  "v2_log_topic (V2Sync _ _) = Some TV2Sync"
| "v2_log_topic (V2SyncUint256 _ _) = Some TV2SyncUint256"
| "v2_log_topic V2Swap = Some TV2Swap"
| "v2_log_topic (V2Undecodable t) = Some t"
| "v2_log_topic V2Other = None"

definition v2_topics :: "v2_topic list" where
  "v2_topics = [TV2Swap, TV2Sync, TV2SyncUint256]"

definition v2_profitable_topics :: "v2_topic list" where
  "v2_profitable_topics = [TV2Swap]"

end
