(* ===== verification/V2_Quotes.thy ===== *)
theory V2_Quotes
  imports V2_Pool Pool_Interface
begin

text \<open>
  What the V2 pool's quotes and events guarantee. Both directions of a constant-product quote are one
  word formula over the two reserves (\<open>cp_quote\<close>, \<open>cp_cost\<close>); below \<open>2\<^sup>1\<^sup>1\<^sup>2\<close>, the width of a pair's
  reserves on chain, it is exact.
\<close>

section \<open>The two directions as one formula\<close>

definition cp_quote :: "u256 \<Rightarrow> u256 \<Rightarrow> u256 \<Rightarrow> u256 \<Rightarrow> u256 res" where
  "cp_quote fee a rin rout =
     (let x = saturating_mul a (FEE_DENOMINATOR - fee)
      in and_then (udiv (x * rout) (rin * FEE_DENOMINATOR + x)) (\<lambda>out.
           if out \<ge> rout then Err InsufficientLiquidity else Ok out))"

definition cp_cost :: "u256 \<Rightarrow> u256 \<Rightarrow> u256 \<Rightarrow> u256 \<Rightarrow> u256 res" where
  "cp_cost fee out rin rout =
     (if out \<ge> rout then Err InsufficientLiquidity
      else and_then (udiv (rin * out * FEE_DENOMINATOR) ((rout - out) * (FEE_DENOMINATOR - fee))) (\<lambda>q. Ok (q + 1)))"

definition cp_out :: "int \<Rightarrow> int \<Rightarrow> int \<Rightarrow> int \<Rightarrow> int" where
  "cp_out fee a rin rout = a * (1000000 - fee) * rout div (rin * 1000000 + a * (1000000 - fee))"

text \<open>The reserves a swap of \<open>token_in\<close> is quoted against, and the pools whose quotes are exact.\<close>

definition sides :: "v2_pool \<Rightarrow> address \<Rightarrow> u256 \<times> u256" where
  "sides p token_in =
     (if token_in = v2_token0 p then (v2_reserve0 p, v2_reserve1 p) else (v2_reserve1 p, v2_reserve0 p))"

definition v2_usual :: "v2_pool \<Rightarrow> bool" where
  "v2_usual p \<longleftrightarrow> v2_type p = UniswapV2 \<and> is_valid p \<and> uint (v2_fee p) < 1000000 \<and>
     uint (v2_reserve0 p) < 2 ^ 112 \<and> uint (v2_reserve1 p) < 2 ^ 112"

lemma output_cp:
  assumes "v2_type p = UniswapV2" and "is_valid p" and "a \<noteq> 0" and "v2_contains_token p token_in"
  shows "v2_calculate_output p token_in a = cp_quote (v2_fee p) a (fst (sides p token_in)) (snd (sides p token_in))"
  using assms
  by (auto simp: v2_calculate_output_def calculate_output_0_to_1_def calculate_output_1_to_0_def
      cp_quote_def sides_def v2_contains_token_def Let_def)

lemma input_cp:
  assumes "is_valid p" and "out \<noteq> 0" and "v2_tokens p = (token_in, token_out) \<or> v2_tokens p = (token_out, token_in)"
    and "token_in \<noteq> token_out"
  shows "v2_calculate_input p token_out out = cp_cost (v2_fee p) out (fst (sides p token_in)) (snd (sides p token_in))"
  using assms
  by (auto simp: v2_calculate_input_def calculate_input_0_to_1_def calculate_input_1_to_0_def
      cp_cost_def sides_def v2_tokens_def Let_def)

lemmas pair_simps =
  v2_calculate_output_def v2_calculate_input_def calculate_output_0_to_1_def calculate_output_1_to_0_def
  calculate_input_0_to_1_def calculate_input_1_to_0_def is_valid_def FEE_DENOMINATOR_def saturating_mul_def udiv_def

section \<open>Exactness\<close>

lemma DENOMINATOR_uint [simp]: "uint FEE_DENOMINATOR = 1000000"
  by (simp add: FEE_DENOMINATOR_def)

lemma complement_uint: "uint fee \<le> 1000000 \<Longrightarrow> uint (FEE_DENOMINATOR - fee) = 1000000 - uint fee"
  by (subst uint_sub_exact) (simp_all add: word_le_def)

lemma prod_bound: "0 \<le> a \<Longrightarrow> a \<le> A \<Longrightarrow> 0 \<le> b \<Longrightarrow> b \<le> B \<Longrightarrow> a * b \<le> A * B" for a b A B :: int
  by (rule mult_mono) auto

lemma cp_out_bounds:
  assumes "0 \<le> fee" "fee \<le> 1000000" "0 \<le> a" "0 < rin" "0 < rout"
  shows "0 \<le> cp_out fee a rin rout" and "cp_out fee a rin rout < rout"
proof -
  have d: "0 < rin * 1000000 + a * (1000000 - fee)" using assms by (simp add: add_pos_nonneg)
  show "0 \<le> cp_out fee a rin rout"
    using assms d by (simp add: cp_out_def pos_imp_zdiv_nonneg_iff)
  have "a * (1000000 - fee) * rout < rout * (rin * 1000000 + a * (1000000 - fee))"
    using assms by (simp add: algebra_simps)
  then have "\<not> rout \<le> cp_out fee a rin rout" unfolding cp_out_def le_div_int [OF d] by simp
  then show "cp_out fee a rin rout < rout" by simp
qed

lemma cp_quote_exact:
  assumes f: "uint fee \<le> 1000000" and a: "uint a < 2 ^ 112" and r: "rin \<noteq> 0" "rout \<noteq> 0"
    "uint rin < 2 ^ 112" "uint rout < 2 ^ 112"
  shows "\<exists>out. cp_quote fee a rin rout = Ok out \<and> uint out = cp_out (uint fee) (uint a) (uint rin) (uint rout)"
proof -
  define x where "x = saturating_mul a (FEE_DENOMINATOR - fee)"
  have "uint a * (1000000 - uint fee) \<le> 2 ^ 112 * 1000000"
    using a f by (intro prod_bound) simp_all
  then have x: "uint x = uint a * (1000000 - uint fee)" "uint x \<le> 2 ^ 112 * 1000000"
    using f by (simp_all add: x_def uint_saturating_mul complement_uint)
  have "uint x * uint rout \<le> 2 ^ 112 * 1000000 * 2 ^ 112"
    using x(2) r by (intro prod_bound uint_ge_0) simp_all
  then have n: "uint (x * rout) = uint x * uint rout" by (intro uint_mul_exact) simp
  have d1: "uint (rin * FEE_DENOMINATOR) = uint rin * 1000000"
    using r by (subst uint_mul_exact) simp_all
  have d: "uint (rin * FEE_DENOMINATOR + x) = uint rin * 1000000 + uint x"
    using d1 x r by (subst uint_add_exact) simp_all
  have dz: "rin * FEE_DENOMINATOR + x \<noteq> 0"
  proof -
    have "0 < uint rin * 1000000 + uint x" using uint_pos [OF r(1)] by (intro add_pos_nonneg) simp_all
    then show ?thesis using d by (metis uint_zero_iff less_irrefl)
  qed
  define out where "out = (x * rout) div (rin * FEE_DENOMINATOR + x)"
  have o: "uint out = cp_out (uint fee) (uint a) (uint rin) (uint rout)"
    by (simp add: out_def uint_div_distrib n d cp_out_def x)
  have "uint out < uint rout"
    unfolding o using f uint_pos [OF r(1)] uint_pos [OF r(2)] by (intro cp_out_bounds) simp_all
  then have "cp_quote fee a rin rout = Ok out"
    using dz by (simp add: cp_quote_def udiv_def Let_def x_def [symmetric] out_def [symmetric] word_le_def)
  with o show ?thesis by blast
qed

lemma cp_quote_reserve:
  assumes "uint fee \<le> 1000000" and "uint a < 2 ^ 112" and "rin \<noteq> 0" "rout \<noteq> 0"
    "uint rin < 2 ^ 112" "uint rout < 2 ^ 112" and q: "cp_quote fee a rin rout = Ok out"
  shows "out < rout" and "uint rin * uint rout \<le> (uint rin + uint a) * (uint rout - uint out)"
proof -
  let ?c = "1000000 - uint fee" and ?d = "uint rin * 1000000 + uint a * (1000000 - uint fee)"
  have o: "uint out = cp_out (uint fee) (uint a) (uint rin) (uint rout)"
    using cp_quote_exact [OF assms(1-6)] q by auto
  have pos: "0 < uint rin" "0 < uint rout" using assms(3,4) by (simp_all add: uint_pos)
  have d: "0 < ?d" using pos assms(1) by (intro add_pos_nonneg) simp_all
  have lt: "uint out < uint rout" unfolding o using assms(1) pos by (intro cp_out_bounds) simp_all
  then show "out < rout" by (simp add: word_less_def)
  have "uint out * ?d \<le> uint a * ?c * uint rout"
    by (rule iffD1 [OF le_div_int [OF d]]) (simp add: o cp_out_def)
  then have "uint rin * uint rout * 1000000 \<le> ?d * (uint rout - uint out)" by (simp add: algebra_simps)
  also have "?d * (uint rout - uint out) \<le> ((uint rin + uint a) * 1000000) * (uint rout - uint out)"
    using lt assms(1) by (intro mult_right_mono) (simp_all add: algebra_simps)
  also have "\<dots> = (uint rin + uint a) * (uint rout - uint out) * 1000000" by simp
  finally show "uint rin * uint rout \<le> (uint rin + uint a) * (uint rout - uint out)" by simp
qed

text \<open>The cost is one more than the floor, so it suffices, and nothing below it yields more.\<close>

lemma cp_cost_exact:
  assumes f: "uint fee < 1000000" and r: "rin \<noteq> 0" "uint rin < 2 ^ 112" "uint rout < 2 ^ 112"
    and c: "cp_cost fee out rin rout = Ok a"
  shows "out < rout" and "uint a = uint rin * uint out * 1000000 div ((uint rout - uint out) * (1000000 - uint fee)) + 1"
proof -
  show lt: "out < rout" using c by (auto simp: cp_cost_def split: if_splits)
  then have lt': "uint out < uint rout" by (simp add: word_less_def)
  have p: "uint rin * uint out \<le> 2 ^ 112 * 2 ^ 112" using lt' r by (intro prod_bound) simp_all
  then have p1: "uint (rin * out) = uint rin * uint out" by (intro uint_mul_exact) simp
  have "uint (rin * out) * uint FEE_DENOMINATOR < 2 ^ LENGTH(256)"
    unfolding p1 using mult_right_mono [OF p, of 1000000] by simp
  from uint_mul_exact [OF this] have p2: "uint (rin * out * FEE_DENOMINATOR) = uint rin * uint out * 1000000"
    by (simp add: p1)
  have s: "uint (rout - out) = uint rout - uint out" using lt by (intro uint_sub_exact) simp
  have "(uint rout - uint out) * (1000000 - uint fee) \<le> 2 ^ 112 * 1000000"
    using r lt' f uint_ge_0 [of out] uint_ge_0 [of fee] by (intro prod_bound) linarith+
  then have d: "uint ((rout - out) * (FEE_DENOMINATOR - fee)) = (uint rout - uint out) * (1000000 - uint fee)"
    using f s complement_uint [of fee] by (subst uint_mul_exact) simp_all
  have dp: "0 < (uint rout - uint out) * (1000000 - uint fee)" using lt' f by simp
  then have dz: "(rout - out) * (FEE_DENOMINATOR - fee) \<noteq> 0" using d by auto
  let ?q = "(rin * out * FEE_DENOMINATOR) div ((rout - out) * (FEE_DENOMINATOR - fee))"
  have q: "uint ?q = uint rin * uint out * 1000000 div ((uint rout - uint out) * (1000000 - uint fee))"
    by (simp add: uint_div_distrib p2 d)
  have "uint ?q \<le> uint rin * uint out * 1000000"
    unfolding q using dp zdiv_mono2 [of "uint rin * uint out * 1000000" 1 "(uint rout - uint out) * (1000000 - uint fee)"]
    by simp
  also have "\<dots> \<le> 2 ^ 112 * 2 ^ 112 * 1000000" using mult_right_mono [OF p, of 1000000] by simp
  finally have "uint ?q + uint (1 :: u256) < 2 ^ LENGTH(256)" by simp
  then have "uint (?q + 1) = uint ?q + 1" using uint_add_exact [of ?q 1] by simp
  moreover have "a = ?q + 1" using c lt [folded not_le] dz by (simp add: cp_cost_def udiv_def)
  ultimately show "uint a = uint rin * uint out * 1000000 div ((uint rout - uint out) * (1000000 - uint fee)) + 1"
    using q by simp
qed

lemma cp_cost_suffices:
  assumes "uint fee < 1000000" and "rin \<noteq> 0" "uint rin < 2 ^ 112" "uint rout < 2 ^ 112"
    and c: "cp_cost fee out rin rout = Ok a"
  shows "uint out \<le> cp_out (uint fee) (uint a) (uint rin) (uint rout)"
    and "0 \<le> b \<Longrightarrow> b < uint a \<Longrightarrow> cp_out (uint fee) b (uint rin) (uint rout) \<le> uint out"
proof -
  let ?k = "1000000 - uint fee" and ?s = "uint rout - uint out"
  note a = cp_cost_exact [OF assms]
  have s: "0 < ?s" using a(1) by (simp add: word_less_def)
  then have dp: "0 < ?s * ?k" using assms(1) by simp
  have rin: "0 < uint rin" using assms(2) by (rule uint_pos)
  have d: "0 < uint rin * 1000000 + x * ?k" if "0 \<le> x" for x
    using rin that assms(1) by (simp add: add_pos_nonneg)
  have "uint rin * uint out * 1000000 < (uint a - 1 + 1) * (?s * ?k)"
    by (rule iffD1 [OF div_le_int [OF dp]]) (simp add: a(2))
  then have "uint out * (uint rin * 1000000 + uint a * ?k) \<le> uint a * ?k * uint rout"
    by (simp add: algebra_simps)
  then show "uint out \<le> cp_out (uint fee) (uint a) (uint rin) (uint rout)"
    using d [of "uint a"] by (simp add: cp_out_def le_div_int)
  show "cp_out (uint fee) b (uint rin) (uint rout) \<le> uint out" if b: "0 \<le> b" "b < uint a"
  proof -
    have "b * (?s * ?k) \<le> uint rin * uint out * 1000000"
      using b a(2) by (intro iffD1 [OF le_div_int [OF dp]]) simp
    then have "b * ?k * uint rout \<le> uint out * (uint rin * 1000000 + b * ?k)" by (simp add: algebra_simps)
    also have "\<dots> < (uint out + 1) * (uint rin * 1000000 + b * ?k)" using d [OF b(1)] by (simp add: algebra_simps)
    finally show ?thesis using div_le_int [OF d [OF b(1)]] by (simp add: cp_out_def)
  qed
qed

section \<open>Events\<close>

definition v2_identity :: "v2_pool \<Rightarrow> v2_pool_type \<times> address \<times> address \<times> address \<times> u128 \<times> u128 \<times> u256" where
  "v2_identity p = (v2_type p, v2_address p, v2_token0 p, v2_token1 p, v2_decimals0 p, v2_decimals1 p, v2_fee p)"

interpretation v2: atomic_pool "v2_apply_log now" v2_identity for now
proof
  show "v2_identity (fst (v2_apply_log now l p)) = v2_identity p" for l p
    by (cases l) (auto simp: v2_identity_def update_reserves_def)
  show "p' = p" if "v2_apply_log now l p = (p', Err e)" for l p p' e
    using that by (cases l) (auto simp: update_reserves_def split: if_splits)
qed

text \<open>The reserves a log reports, when it reports any.\<close>

fun reported :: "v2_log \<Rightarrow> (u256 \<times> u256) option" where
  "reported (V2Sync r0 r1) = Some (ucast r0, ucast r1)"
| "reported (V2SyncUint256 r0 r1) = Some (r0, r1)"
| "reported _ = None"

fun last_reported :: "u256 \<times> u256 \<Rightarrow> v2_log list \<Rightarrow> u256 \<times> u256" where
  "last_reported r [] = r"
| "last_reported r (l # ls) = last_reported (case reported l of None \<Rightarrow> r | Some r' \<Rightarrow> r') ls"

lemma reserves_step:
  "(v2_reserve0 (fst (v2_apply_log now l p)), v2_reserve1 (fst (v2_apply_log now l p))) =
     (case reported l of None \<Rightarrow> (v2_reserve0 p, v2_reserve1 p) | Some r \<Rightarrow> r)"
  by (cases l) (simp_all add: update_reserves_def)

lemma reserves_run:
  "(v2_reserve0 (v2.apply_all now ls p), v2_reserve1 (v2.apply_all now ls p)) =
     last_reported (v2_reserve0 p, v2_reserve1 p) ls"
proof (induction ls arbitrary: p)
  case (Cons l ls)
  then show ?case using reserves_step [of now l p] by simp
qed simp

section \<open>The stable curve's root\<close>

text \<open>What a value the iteration returns guarantees; \<open>stable_k\<close> also rescales by the decimals.\<close>

definition brackets :: "v2_pool \<Rightarrow> u256 \<Rightarrow> u256 \<Rightarrow> u256 \<Rightarrow> bool" where
  "brackets p x0 xy y \<longleftrightarrow>
     (xy \<le> stable_f x0 y \<and> (stable_f x0 y = xy \<or> stable_f x0 (y - 1) < xy)) \<or>
     (stable_f x0 (y - 1) < xy \<and> (\<exists>k. stable_k p x0 y = Ok k \<and> xy < k))"

lemma get_y_loop_brackets: "get_y_loop n p x0 xy y = Ok r \<Longrightarrow> brackets p x0 xy r"
proof (induction n p x0 xy y rule: get_y_loop.induct)
  case (2 n p x0 xy y)
  show ?case
  proof (cases "stable_f x0 y < xy")
    case True
    then obtain dy where dy: "udiv ((xy - stable_f x0 y) * exp18) (stable_d x0 y) = Ok dy"
      using 2(5) by (auto simp: Let_def)
    show ?thesis
    proof (cases "dy = 0")
      case z: True
      from 2(5) True dy z obtain k' where k: "stable_k p x0 (y + 1) = Ok k'"
        and r: "(if k' > xy then Ok (y + 1) else get_y_loop n p x0 xy (y + 1)) = Ok r"
        by (auto simp: Let_def split: if_splits)
      show ?thesis
        using r k True 2(1) [OF refl True dy z _ k] by (auto simp: brackets_def split: if_splits)
    next
      case False
      then show ?thesis using 2(2) [OF refl True dy False] 2(5) True dy by (simp add: Let_def)
    qed
  next
    case False
    then obtain dy where dy: "udiv ((stable_f x0 y - xy) * exp18) (stable_d x0 y) = Ok dy"
      using 2(5) by (auto simp: Let_def)
    show ?thesis
      using 2(3) [OF refl False dy] 2(4) [OF refl False dy] 2(5) False dy
      by (auto simp: Let_def brackets_def not_less split: if_splits)
  qed
qed simp

section \<open>Properties\<close>

definition sample_pair :: v2_pool where
  "sample_pair = v2_new UniswapV2 1 10 20 18 6 5000000 20000000 3000 0"

lemma sample_pair_simps [simp]:
  "v2_type sample_pair = UniswapV2" "v2_token0 sample_pair = 10" "v2_token1 sample_pair = 20"
  "v2_reserve0 sample_pair = 5000000" "v2_reserve1 sample_pair = 20000000" "v2_fee sample_pair = 3000"
  by (simp_all add: sample_pair_def v2_new_def)

lemma sample_pair_usual: "v2_usual sample_pair"
  by (simp add: v2_usual_def is_valid_def)

lemma v2_quote_cp:
  assumes "v2_usual p" and "v2_calculate_output p token_in a = Ok out"
  shows "cp_quote (v2_fee p) a (fst (sides p token_in)) (snd (sides p token_in)) = Ok out"
    and "v2_contains_token p token_in"
proof -
  show t: "v2_contains_token p token_in"
    using assms(2) by (auto simp: v2_calculate_output_def v2_contains_token_def split: if_splits)
  have "a \<noteq> 0"
    using assms(2) by (auto simp: v2_calculate_output_def calculate_output_0_to_1_def
      calculate_output_1_to_0_def split: if_splits)
  then show "cp_quote (v2_fee p) a (fst (sides p token_in)) (snd (sides p token_in)) = Ok out"
    using assms t by (simp add: output_cp v2_usual_def)
qed

text \<open>C20: on a constant-product pool with reserves of at most 112 bits, applying a swap of a quoted output
  is accepted and never lowers the product of the reserves.\<close>

theorem v2_swap_keeps_product:
  assumes "v2_usual p" and "uint a < 2 ^ 112" and "v2_calculate_output p token_in a = Ok out"
  shows "\<exists>p'. v2_apply_swap now token_in a out p = (p', Ok ()) \<and>
    uint (v2_reserve0 p) * uint (v2_reserve1 p) \<le> uint (v2_reserve0 p') * uint (v2_reserve1 p')"
proof -
  let ?i = "fst (sides p token_in)" and ?o = "snd (sides p token_in)"
  note q = v2_quote_cp [OF assms(1,3)]
  have u: "uint (v2_fee p) \<le> 1000000" "?i \<noteq> 0" "?o \<noteq> 0" "uint ?i < 2 ^ 112" "uint ?o < 2 ^ 112"
    using assms(1) by (simp_all add: v2_usual_def sides_def is_valid_def)
  note r = cp_quote_reserve [OF u(1) assms(2) u(2-5) q(1)]
  have "uint (?i + a) = uint ?i + uint a" using u assms(2) by (subst uint_add_exact) simp_all
  moreover have "uint (?o - out) = uint ?o - uint out" using r(1) by (intro uint_sub_exact) simp
  ultimately show ?thesis
    using r q(2) by (auto simp: v2_apply_swap_def sides_def v2_contains_token_def not_le mult.commute split: if_splits)
qed

theorem v2_swap_keeps_product_witness:
  "\<exists>p'. v2_apply_swap 7 10 1000 3987 sample_pair = (p', Ok ()) \<and>
    5000000 * 20000000 \<le> uint (v2_reserve0 p') * uint (v2_reserve1 p')"
proof -
  have "v2_calculate_output sample_pair 10 1000 = Ok 3987"
    by (simp add: pair_simps sample_pair_def v2_new_def)
  from v2_swap_keeps_product [OF sample_pair_usual _ this, of 7] show ?thesis by simp
qed

text \<open>C33: the input a constant-product pool asks for an output buys at least that output, and no smaller
  input buys more than it.\<close>

theorem v2_input_suffices:
  assumes "v2_usual p" and "token_in \<noteq> token_out"
    and "v2_tokens p = (token_in, token_out) \<or> v2_tokens p = (token_out, token_in)"
    and "v2_calculate_input p token_out out = Ok a" and "uint a < 2 ^ 112"
  shows "\<exists>got. v2_calculate_output p token_in a = Ok got \<and> out \<le> got \<and>
    (\<forall>b less. b < a \<and> v2_calculate_output p token_in b = Ok less \<longrightarrow> less \<le> out)"
proof -
  let ?i = "fst (sides p token_in)" and ?o = "snd (sides p token_in)"
  have u: "uint (v2_fee p) < 1000000" "?i \<noteq> 0" "?o \<noteq> 0" "uint ?i < 2 ^ 112" "uint ?o < 2 ^ 112" "is_valid p"
    using assms(1) by (simp_all add: v2_usual_def sides_def is_valid_def)
  have "out \<noteq> 0"
    using assms(4) by (auto simp: v2_calculate_input_def calculate_input_0_to_1_def
      calculate_input_1_to_0_def split: if_splits)
  then have c: "cp_cost (v2_fee p) out ?i ?o = Ok a" using assms u by (simp add: input_cp)
  note s = cp_cost_suffices [OF u(1,2,4,5) c]
  have exact: "\<exists>got. cp_quote (v2_fee p) b ?i ?o = Ok got \<and> uint got = cp_out (uint (v2_fee p)) (uint b) (uint ?i) (uint ?o)"
    if "uint b < 2 ^ 112" for b
    using that u by (intro cp_quote_exact) simp_all
  have less: "less \<le> out" if b: "b < a" and q: "v2_calculate_output p token_in b = Ok less" for b less
    using exact [of b] s(2) [of "uint b"] v2_quote_cp(1) [OF assms(1) q] b assms(5)
    by (auto simp: word_le_def word_less_def)
  have "a \<noteq> 0" using cp_cost_exact [OF u(1,2,4,5) c] cp_cost_suffices(1) [OF u(1,2,4,5) c] \<open>out \<noteq> 0\<close>
      uint_pos [OF \<open>out \<noteq> 0\<close>] by (auto simp: cp_out_def)
  then obtain got where "v2_calculate_output p token_in a = Ok got"
      "uint got = cp_out (uint (v2_fee p)) (uint a) (uint ?i) (uint ?o)"
    using exact [OF assms(5)] assms(1,3) by (auto simp: output_cp v2_usual_def v2_contains_token_def v2_tokens_def)
  with s(1) less show ?thesis by (auto simp: word_le_def)
qed

theorem v2_input_suffices_witness:
  "\<exists>got. v2_calculate_output sample_pair 10 1004 = Ok got \<and> 4000 \<le> got"
proof -
  have "v2_calculate_input sample_pair 20 4000 = Ok 1004"
    by (simp add: pair_simps sample_pair_def v2_new_def)
  from v2_input_suffices [OF sample_pair_usual _ _ this, of 10] show ?thesis by (auto simp: v2_tokens_def)
qed



text \<open>After any sequence of logs, decodable or not, the reserves are the ones the last decodable sync
  event reported, and everything else that makes the pool what it is has not changed.\<close>

theorem v2_reserves_follow_syncs:
  shows "let q = foldl (\<lambda>p l. fst (v2_apply_log now l p)) p ls
    in (v2_reserve0 q, v2_reserve1 q) = last_reported (v2_reserve0 p, v2_reserve1 p) ls \<and>
       v2_identity q = v2_identity p"
  using reserves_run [of now ls p] v2.identity_kept_all [of now ls p] by (simp add: v2.apply_all_def Let_def)

text \<open>
  The input quote of a stable pool uses the constant-product formula: what it asks for does not buy
  the output.
\<close>

lemma stable_input_as_product: "v2_calculate_input (p\<lparr>v2_type := t\<rparr>) token_out out = v2_calculate_input p token_out out"
  by (simp add: v2_calculate_input_def calculate_input_0_to_1_def calculate_input_1_to_0_def is_valid_def)

lemma stable_input_insufficient:
  "v2_calculate_input (v2_new Stable 1 10 20 0 0 1 9 0 0) 20 3 = Ok 1 \<and>
   v2_calculate_output (v2_new Stable 1 10 20 0 0 1 9 0 0) 10 1 = Ok 2"
  by code_simp

end
