(* ===== verification/LB_Math.thy ===== *)
theory LB_Math
  imports Dex_Prelude
begin

text \<open>
  \<^verbatim>\<open>src/lb/math.rs\<close>: the 128.128 fixed-point prices of the Liquidity Book's bins, its fees, and the
  decoding of packed amounts. A \<^verbatim>\<open>bytes32\<close> is the word its 32 big-endian bytes spell, so its first
  sixteen bytes are the upper half.
\<close>

section \<open>Definitions\<close>

definition SCALE_OFFSET :: nat where
  "SCALE_OFFSET = 128"

definition SCALE :: u256 where
  "SCALE = from_limbs [0, 0, 1, 0]"

definition PRECISION :: u128 where
  "PRECISION = 1000000000000000000"

definition MAX_FEE :: u128 where
  "MAX_FEE = 100000000000000000"

definition BASIS_POINT_MAX :: u128 where
  "BASIS_POINT_MAX = 10000"

definition REAL_ID_SHIFT :: int where
  "REAL_ID_SHIFT = 8388608"

definition get_base :: "u16 \<Rightarrow> u256" where
  "get_base bin_step = SCALE + push_bit SCALE_OFFSET (ucast bin_step) div ucast BASIS_POINT_MAX"

text \<open>\<^verbatim>\<open>id as i32 - REAL_ID_SHIFT\<close>, wrapping.\<close>

definition get_exponent :: "u32 \<Rightarrow> int" where
  "get_exponent bin = swrap 32 (sint bin - REAL_ID_SHIFT)"

text \<open>The low 256 bits of the shifted 512-bit product.\<close>

definition mul_128x128 :: "u256 \<Rightarrow> u256 \<Rightarrow> u256" where
  "mul_128x128 a b = word_of_int (uint a * uint b div 2 ^ SCALE_OFFSET)"

text \<open>The loop \<^verbatim>\<open>for bit in 0..20\<close> over the pair of \<open>result\<close> and \<open>squared\<close>.\<close>

definition pow_step :: "u32 \<Rightarrow> nat \<Rightarrow> u256 \<times> u256 \<Rightarrow> u256 \<times> u256" where
  "pow_step abs_y n = (\<lambda>(result, squared).
     (if abs_y AND push_bit n 1 \<noteq> 0 then mul_128x128 result squared else result,
      mul_128x128 squared squared))"

definition pow_128x128 :: "u256 \<Rightarrow> int \<Rightarrow> u256 res" where
  "pow_128x128 x y =
     (if y = 0 then Ok SCALE
      else let abs_y = (word_of_int \<bar>y\<bar> :: u32);
               (squared, invert) =
                 (if x > SCALE then (U256_MAX div x, \<not> y < 0) else (x, y < 0));
               result = fst (fold (pow_step abs_y) [0..<20] (SCALE, squared))
           in if result = 0 then Ok 0
              else if invert then udiv U256_MAX result
              else Ok result)"

definition get_price_from_id :: "u32 \<Rightarrow> u16 \<Rightarrow> u256 res" where
  "get_price_from_id bin bin_step = pow_128x128 (get_base bin_step) (get_exponent bin)"

section \<open>Fees\<close>

definition get_base_fee :: "u16 \<Rightarrow> u16 \<Rightarrow> u128" where
  "get_base_fee base_factor bin_step = ucast base_factor * ucast bin_step * 10000000000"

definition get_variable_fee :: "u32 \<Rightarrow> u16 \<Rightarrow> u32 \<Rightarrow> u128" where
  "get_variable_fee volatility_accumulator bin_step variable_fee_control =
     (if variable_fee_control = 0 then 0
      else let prod = ucast volatility_accumulator * ucast bin_step
           in (prod * prod * ucast variable_fee_control + 99) div 100)"

definition get_total_fee :: "u16 \<Rightarrow> u16 \<Rightarrow> u32 \<Rightarrow> u32 \<Rightarrow> u128" where
  "get_total_fee base_factor bin_step volatility_accumulator variable_fee_control =
     min (get_base_fee base_factor bin_step +
          get_variable_fee volatility_accumulator bin_step variable_fee_control) MAX_FEE"

text \<open>The two \<^verbatim>\<open>debug_assert!\<close>s are off in the release profile.\<close>

definition get_fee_amount_from :: "u128 \<Rightarrow> u128 \<Rightarrow> u128 res" where
  "get_fee_amount_from amount_with_fees total_fee =
     (let numerator = (ucast amount_with_fees :: u256) * ucast total_fee + ucast (PRECISION - 1)
      in and_then (udiv numerator (ucast PRECISION)) (\<lambda>result. to_uint result))"

definition get_fee_amount :: "u128 \<Rightarrow> u128 \<Rightarrow> u128 res" where
  "get_fee_amount amount total_fee =
     (let denominator = PRECISION - total_fee;
          numerator = (ucast amount :: u256) * ucast total_fee + ucast (denominator - 1)
      in and_then (udiv numerator (ucast denominator)) (\<lambda>result. to_uint result))"

section \<open>Packed amounts and scaled products\<close>

definition decode_amounts :: "u256 \<Rightarrow> u128 \<times> u128" where
  "decode_amounts packed =
     (let y = ucast (drop_bit 128 packed); x = ucast packed in (x, y))"

definition decode_amount :: "u256 \<Rightarrow> bool \<Rightarrow> u128" where
  "decode_amount packed decode_x = (let (x, y) = decode_amounts packed in if decode_x then x else y)"

definition mul_shift_round_down :: "u256 \<Rightarrow> u256 \<Rightarrow> nat \<Rightarrow> u256" where
  "mul_shift_round_down x y off = word_of_int (uint x * uint y div 2 ^ off)"

definition mul_shift_round_up :: "u256 \<Rightarrow> u256 \<Rightarrow> nat \<Rightarrow> u256" where
  "mul_shift_round_up x y off =
     (let result = mul_shift_round_down x y off;
          product = (word_of_int (uint x * uint y) :: u512);
          mask = (if off \<ge> 512 then 0 else push_bit off 1 - 1)
      in if product AND mask > 0 then result + 1 else result)"

definition shift_div_round_down :: "u256 \<Rightarrow> nat \<Rightarrow> u256 \<Rightarrow> u256" where
  "shift_div_round_down x off denominator =
     (if denominator = 0 then 0
      else ucast (push_bit off (ucast x :: u512) div ucast denominator))"

definition shift_div_round_up :: "u256 \<Rightarrow> nat \<Rightarrow> u256 \<Rightarrow> u256" where
  "shift_div_round_up x off denominator =
     (if denominator = 0 then 0
      else let result = shift_div_round_down x off denominator
           in if push_bit off (ucast x :: u512) mod ucast denominator > 0 then result + 1 else result)"

section \<open>Exactness at the widths the pool uses\<close>

lemma SCALE_uint: "uint SCALE = 2 ^ 128"
  by (simp add: SCALE_def from_limbs_def uint_push_bit)

lemma PRECISION_uint [simp]: "uint PRECISION = 1000000000000000000"
  by (simp add: PRECISION_def)

lemma LB_MAX_FEE_uint [simp]: "uint MAX_FEE = 100000000000000000"
  by (simp add: MAX_FEE_def)

lemma uint_wide [simp]: "uint (ucast (x :: u128) :: u256) = uint x"
  by (rule uint_ucast_up) simp

lemma uint_wider [simp]: "uint (ucast (x :: u256) :: u512) = uint x"
  by (rule uint_ucast_up) simp

lemma total_fee_le: "uint (get_total_fee b s v c) \<le> 100000000000000000"
  using LB_MAX_FEE_uint by (simp add: get_total_fee_def min_def word_le_def)

lemma uint_product_128: "uint (a :: u128) * uint (b :: u128) \<le> (2 ^ 128 - 1) * (2 ^ 128 - 1)"
  using uint_less [of a] uint_less [of b] by (intro mult_mono) simp_all

text \<open>A fee sum in 256 bits, rounded up and narrowed.\<close>

lemma fee_quotient:
  fixes a t d :: u128
  assumes d: "d \<noteq> 0" and q: "cdiv (uint a * uint t) (uint d) < 2 ^ 128"
  shows "and_then (udiv ((ucast a :: u256) * ucast t + ucast (d - 1)) (ucast d)) to_uint =
    Ok (word_of_int (cdiv (uint a * uint t) (uint d)) :: u128)"
proof -
  have dp: "0 < uint d" using d by (rule uint_pos)
  have p: "uint a * uint t \<le> (2 ^ 128 - 1) * (2 ^ 128 - 1)" by (rule uint_product_128)
  have d1: "uint (d - 1) = uint d - 1" using dp by (subst uint_sub_exact) (simp_all add: word_le_def)
  have m: "uint ((ucast a :: u256) * ucast t) = uint a * uint t"
    using p by (subst uint_mul_exact) simp_all
  have n: "uint ((ucast a :: u256) * ucast t + ucast (d - 1)) = uint a * uint t + uint d - 1"
    using p m d1 uint_less [of d] by (subst uint_add_exact) simp_all
  have dz: "(ucast d :: u256) \<noteq> 0" using dp by (simp flip: uint_zero_iff)
  have c: "0 \<le> cdiv (uint a * uint t) (uint d)" using dp by (simp add: cdiv_nonneg)
  have "uint ((ucast a * ucast t + ucast (d - 1)) div (ucast d) :: u256) = cdiv (uint a * uint t) (uint d)"
    by (simp add: uint_div_distrib n cdiv_def)
  then show ?thesis
    using dz c q by (simp add: udiv_def to_width_Ok uint_of_int)
qed

lemma cdiv_fraction_le: "0 < d \<Longrightarrow> 0 \<le> a \<Longrightarrow> t \<le> d \<Longrightarrow> cdiv (a * t) d \<le> a"
  by (simp add: cdiv_le mult_left_mono)

lemma fee_from_eq:
  assumes "uint t \<le> 100000000000000000"
  shows "get_fee_amount_from a t = Ok (word_of_int (cdiv (uint a * uint t) 1000000000000000000))"
proof -
  have "cdiv (uint a * uint t) (uint PRECISION) \<le> uint a" using assms by (intro cdiv_fraction_le) simp_all
  then have "cdiv (uint a * uint t) (uint PRECISION) < 2 ^ 128" using uint_less [of a] by simp
  moreover have "PRECISION \<noteq> 0" by (simp add: PRECISION_def)
  ultimately show ?thesis using fee_quotient [of PRECISION a t] by (simp add: get_fee_amount_from_def Let_def)
qed

lemma complement_fee: "uint t \<le> 100000000000000000 \<Longrightarrow> uint (PRECISION - t) = 1000000000000000000 - uint t"
  by (subst uint_sub_exact) (simp_all add: word_le_def)

lemma fee_amount_eq:
  assumes t: "uint t \<le> 100000000000000000"
  shows "get_fee_amount a t = Ok (word_of_int (cdiv (uint a * uint t) (1000000000000000000 - uint t)))"
proof -
  have "cdiv (uint a * uint t) (uint (PRECISION - t)) \<le> uint a"
    using t by (intro cdiv_fraction_le) (simp_all add: complement_fee)
  then have "cdiv (uint a * uint t) (uint (PRECISION - t)) < 2 ^ 128" using uint_less [of a] by simp
  moreover have "PRECISION - t \<noteq> 0" using complement_fee [OF t] t by (auto simp flip: uint_zero_iff)
  ultimately show ?thesis
    using fee_quotient [of "PRECISION - t" a t] t by (simp add: get_fee_amount_def Let_def complement_fee)
qed

lemma fee_amount_uint:
  assumes "uint t \<le> 100000000000000000" and "get_fee_amount a t = Ok f"
  shows "uint f = cdiv (uint a * uint t) (1000000000000000000 - uint t)" and "uint f \<le> uint a"
proof -
  let ?f = "cdiv (uint a * uint t) (1000000000000000000 - uint t)"
  have b: "0 \<le> ?f" "?f \<le> uint a"
    using assms(1) by (simp_all add: cdiv_nonneg cdiv_fraction_le)
  have "f = word_of_int ?f" using assms fee_amount_eq [of t a] by simp
  then show "uint f = ?f" using b uint_less [of a] by (simp add: uint_of_int)
  with b show "uint f \<le> uint a" by simp
qed

lemma fee_from_uint:
  assumes "uint t \<le> 100000000000000000" and "get_fee_amount_from a t = Ok f"
  shows "uint f = cdiv (uint a * uint t) 1000000000000000000" and "uint f \<le> uint a"
proof -
  let ?f = "cdiv (uint a * uint t) 1000000000000000000"
  have b: "0 \<le> ?f" "?f \<le> uint a"
    using assms(1) by (simp_all add: cdiv_nonneg cdiv_fraction_le)
  have "f = word_of_int ?f" using assms fee_from_eq [of t a] by simp
  then show "uint f = ?f" using b uint_less [of a] by (simp add: uint_of_int)
  with b show "uint f \<le> uint a" by simp
qed

text \<open>Taking the fee out of an amount it was added to gives the same fee back, both rounding up.\<close>

lemma fee_added_taken:
  fixes a t p :: int
  assumes "0 \<le> a" "0 \<le> t" "t < p"
  shows "cdiv ((a + cdiv (a * t) (p - t)) * t) p = cdiv (a * t) (p - t)"
proof (rule antisym)
  let ?f = "cdiv (a * t) (p - t)"
  have d: "0 < p - t" "0 < p" using assms by simp_all
  have f: "a * t \<le> ?f * (p - t)" using d by (intro cdiv_mult_ge)
  then show "cdiv ((a + ?f) * t) p \<le> ?f" using d by (simp add: cdiv_le algebra_simps)
  have "(?f - 1) * (p - t) < a * t" using d le_cdiv [of "p - t" ?f "a * t"] by simp
  moreover have "0 \<le> t" by fact
  ultimately have "(?f - 1) * p < (a + ?f) * t" by (simp add: algebra_simps)
  then show "?f \<le> cdiv ((a + ?f) * t) p" using d by (simp add: le_cdiv)
qed

section \<open>Scaled products\<close>

lemma low_mask_zero: "(x :: u512) AND (push_bit n 1 - 1) > 0 \<longleftrightarrow> uint x mod 2 ^ n \<noteq> 0"
proof -
  have "push_bit n 1 - 1 = (mask n :: u512)" by (simp add: mask_eq_exp_minus_1 push_bit_eq_mult)
  then have "x AND (push_bit n 1 - 1) = take_bit n x" by (simp add: take_bit_eq_mask)
  moreover have "uint (take_bit n x) = uint x mod 2 ^ n"
    unfolding unsigned_take_bit_eq by (simp add: take_bit_eq_mod)
  ultimately show ?thesis by (metis uint_zero_iff word_greater_zero_iff)
qed

lemma mul_shift_exact:
  assumes "uint x < 2 ^ 128"
  shows "uint (mul_shift_round_down x y 128) = uint x * uint y div 2 ^ 128"
    and "uint (mul_shift_round_up x y 128) = cdiv (uint x * uint y) (2 ^ 128)"
proof -
  have p: "uint x * uint y \<le> (2 ^ 128 - 1) * (2 ^ 256 - 1)"
    using assms uint_less [of y] by (intro mult_mono) simp_all
  have "uint x * uint y div 2 ^ 128 \<le> (2 ^ 128 - 1) * (2 ^ 256 - 1) div 2 ^ 128"
    using p by (rule zdiv_mono1) simp
  then have q: "0 \<le> uint x * uint y div 2 ^ 128" "uint x * uint y div 2 ^ 128 < 2 ^ 256 - 1"
    by (simp_all add: pos_imp_zdiv_nonneg_iff)
  then show r: "uint (mul_shift_round_down x y 128) = uint x * uint y div 2 ^ 128"
    by (simp add: mul_shift_round_down_def uint_of_int)
  have w: "uint (word_of_int (uint x * uint y) :: u512) = uint x * uint y"
    using p by (intro uint_of_int) simp_all
  have u: "uint (mul_shift_round_down x y 128 + 1) = uint x * uint y div 2 ^ 128 + 1"
    using q r by (subst uint_add_exact) simp_all
  show "uint (mul_shift_round_up x y 128) = cdiv (uint x * uint y) (2 ^ 128)"
    using r u low_mask_zero [of "word_of_int (uint x * uint y)" 128, unfolded w]
    by (simp add: mul_shift_round_up_def Let_def cdiv_div)
qed

lemma shift_div_exact:
  assumes x: "uint x < 2 ^ 128" and d: "d \<noteq> 0"
  shows "uint (shift_div_round_down x 128 d) = uint x * 2 ^ 128 div uint d"
    and "uint (shift_div_round_up x 128 d) = cdiv (uint x * 2 ^ 128) (uint d)"
proof -
  have dp: "0 < uint d" using d by (rule uint_pos)
  have sx: "0 \<le> uint x * 2 ^ 128" "uint x * 2 ^ 128 \<le> 2 ^ 256 - 2 ^ 128"
    using x by simp_all
  have s: "uint (push_bit 128 (ucast x :: u512)) = uint x * 2 ^ 128"
    using sx by (simp add: uint_push_bit)
  have dz: "(ucast d :: u512) \<noteq> 0" using dp by (simp flip: uint_zero_iff)
  have q0: "uint x * 2 ^ 128 div uint d \<le> uint x * 2 ^ 128"
    using dp sx zdiv_mono2 [of "uint x * 2 ^ 128" 1 "uint d"] by simp
  then have q: "0 \<le> uint x * 2 ^ 128 div uint d" "uint x * 2 ^ 128 div uint d < 2 ^ 256 - 1"
    using dp sx by (simp_all add: pos_imp_zdiv_nonneg_iff)
  have u: "uint (push_bit 128 (ucast x :: u512) div ucast d) = uint x * 2 ^ 128 div uint d"
    by (simp only: uint_div_distrib s uint_wider)
  show r: "uint (shift_div_round_down x 128 d) = uint x * 2 ^ 128 div uint d"
    using d q u by (simp add: shift_div_round_down_def uint_ucast_exact)
  have m: "push_bit 128 (ucast x :: u512) mod ucast d > 0 \<longleftrightarrow> uint x * 2 ^ 128 mod uint d \<noteq> 0"
    unfolding word_greater_zero_iff word_eq_uint uint_mod_distrib s by simp
  have u1: "uint (shift_div_round_down x 128 d + 1) = uint x * 2 ^ 128 div uint d + 1"
    using q r by (subst uint_add_exact) simp_all
  show "uint (shift_div_round_up x 128 d) = cdiv (uint x * 2 ^ 128) (uint d)"
    using r u1 d dp by (simp add: shift_div_round_up_def Let_def m cdiv_div)
qed

section \<open>Prices\<close>

lemma mul_128x128_bounds:
  assumes "uint a \<le> 2 ^ 128" "uint b \<le> 2 ^ 128"
  shows "uint (mul_128x128 a b) = uint a * uint b div 2 ^ 128" and "uint (mul_128x128 a b) \<le> 2 ^ 128"
proof -
  have p: "uint a * uint b \<le> 2 ^ 128 * 2 ^ 128" using assms by (intro mult_mono) simp_all
  have "uint a * uint b div 2 ^ 128 \<le> 2 ^ 128 * 2 ^ 128 div 2 ^ 128" using p by (rule zdiv_mono1) simp
  then have q: "uint a * uint b div 2 ^ 128 \<le> 2 ^ 128" "0 \<le> uint a * uint b div 2 ^ 128"
    by (simp_all add: pos_imp_zdiv_nonneg_iff)
  then show "uint (mul_128x128 a b) = uint a * uint b div 2 ^ 128"
    by (simp add: mul_128x128_def SCALE_OFFSET_def uint_of_int)
  with q show "uint (mul_128x128 a b) \<le> 2 ^ 128" by simp
qed

lemma pow_loop_bounds:
  assumes "uint r \<le> 2 ^ 128" "uint s \<le> 2 ^ 128"
  shows "uint (fst (fold (pow_step a) ns (r, s))) \<le> 2 ^ 128"
  using assms
proof (induction ns arbitrary: r s)
  case (Cons n ns)
  then show ?case using mul_128x128_bounds(2) by (simp add: pow_step_def)
qed simp

lemma pow_loop_skips:
  "\<forall>n \<in> set ns. a AND push_bit n 1 = 0 \<Longrightarrow> fst (fold (pow_step a) ns (r, s)) = r"
  by (induction ns arbitrary: s) (simp_all add: pow_step_def)

lemma base_uint: "uint (get_base bin_step) = 2 ^ 128 + uint bin_step * 2 ^ 128 div 10000"
proof -
  have s: "uint (ucast bin_step :: u256) = uint bin_step" by (rule uint_ucast_up) simp
  have b: "uint bin_step \<le> 65535" using uint_less [of bin_step] by simp
  have "uint bin_step * 2 ^ 128 \<le> 65535 * 2 ^ 128" using b by (intro mult_right_mono) simp_all
  then have p: "uint bin_step * 2 ^ 128 < 2 ^ 256" by simp
  have q: "uint bin_step * 2 ^ 128 div 10000 \<le> 65535 * 2 ^ 128 div 10000"
    using b by (intro zdiv_mono1 mult_right_mono) simp_all
  have d: "uint (push_bit 128 (ucast bin_step :: u256) div 10000) = uint bin_step * 2 ^ 128 div 10000"
    using p by (simp add: uint_div_distrib uint_push_bit s)
  show ?thesis
    using q d by (simp add: get_base_def SCALE_OFFSET_def BASIS_POINT_MAX_def uint_add_exact SCALE_uint)
qed

lemma base_gt: "bin_step \<noteq> 0 \<Longrightarrow> SCALE < get_base bin_step"
proof -
  assume "bin_step \<noteq> 0"
  then have "1 \<le> uint bin_step" using uint_pos by force
  then have "1 * 2 ^ 128 div 10000 \<le> uint bin_step * 2 ^ 128 div 10000"
    by (intro zdiv_mono1 mult_right_mono) simp_all
  then show ?thesis by (simp add: word_less_def SCALE_uint base_uint)
qed

lemma U256_MAX_int: "uint U256_MAX = 2 ^ 256 - 1"
  by (simp add: U256_MAX_def uint_max)

lemma inverse_price: "r \<noteq> 0 \<Longrightarrow> uint r \<le> 2 ^ 128 \<Longrightarrow> 2 ^ 128 - 1 \<le> uint (U256_MAX div r)"
proof -
  assume r: "r \<noteq> 0" "uint r \<le> 2 ^ 128"
  then have "(2 ^ 256 - 1) div 2 ^ 128 \<le> (2 ^ 256 - 1) div uint r"
    using uint_pos [OF r(1)] by (intro zdiv_mono2) simp_all
  then show ?thesis by (simp add: uint_div_distrib U256_MAX_int)
qed

lemma inverse_base: "SCALE < x \<Longrightarrow> uint (U256_MAX div x) \<le> 2 ^ 128"
proof -
  assume "SCALE < x"
  then have "(2 ^ 256 - 1) div uint x \<le> (2 ^ 256 - 1) div 2 ^ 128"
    by (intro zdiv_mono2) (simp_all add: word_less_def SCALE_uint)
  then show ?thesis by (simp add: uint_div_distrib U256_MAX_int)
qed

text \<open>The prices of a pool: never a panic, one in the middle, at most one below, at least one (or a
  underflown zero) above.\<close>

lemma pow_above_one:
  assumes "SCALE < x"
  shows "\<exists>price. pow_128x128 x y = Ok price \<and> (y = 0 \<longrightarrow> price = SCALE) \<and>
    (y < 0 \<longrightarrow> uint price \<le> 2 ^ 128) \<and> (0 < y \<longrightarrow> price = 0 \<or> 2 ^ 128 - 1 \<le> uint price)"
proof (cases "y = 0")
  case True
  then show ?thesis by (simp add: pow_128x128_def)
next
  case False
  define r where "r = fst (fold (pow_step (word_of_int \<bar>y\<bar>)) [0..<20] (SCALE, U256_MAX div x))"
  have r: "uint r \<le> 2 ^ 128"
    unfolding r_def using SCALE_uint inverse_base [OF assms] by (intro pow_loop_bounds) simp_all
  have "pow_128x128 x y = (if r = 0 then Ok 0 else if \<not> y < 0 then udiv U256_MAX r else Ok r)"
    using False assms by (simp add: pow_128x128_def Let_def r_def)
  then show ?thesis
    using r inverse_price [of r] False by (auto simp: udiv_def)
qed

lemma high_exponent_bits_ignored:
  "get_price_from_id (8388608 + 1048576) 25 = Ok (SCALE - 1) \<and> get_price_from_id (8388608 - 1048576) 25 = Ok SCALE"
proof -
  have s: "fst (fold (pow_step (1048576 :: u32)) [0..<20] (SCALE, q)) = SCALE" for q
    by (rule pow_loop_skips) (simp add: upt_rec push_bit_eq_mult)
  have b: "SCALE < get_base 25" by (rule base_gt) simp
  have z: "SCALE \<noteq> 0" using SCALE_uint by auto
  have "U256_MAX div SCALE = SCALE - 1"
    by (simp add: word_eq_uint uint_div_distrib uint_sub_exact word_le_def U256_MAX_int SCALE_uint)
  then show ?thesis
    using s b z by (simp add: get_price_from_id_def get_exponent_def REAL_ID_SHIFT_def swrap_def pow_128x128_def Let_def udiv_def)
qed

section \<open>Properties\<close>

text \<open>For every bin step above zero and every bin of 24 bits the price is computed without a panic; it is one
  at the middle bin, at most one below it, and above it at least one unit under one or an underflown
  zero.\<close>

theorem lb_price_side:
  assumes "bin_step \<noteq> 0" and "uint bin < 2 ^ 24"
  shows "\<exists>price. get_price_from_id bin bin_step = Ok price \<and>
    (uint bin = 8388608 \<longrightarrow> uint price = 2 ^ 128) \<and>
    (uint bin < 8388608 \<longrightarrow> uint price \<le> 2 ^ 128) \<and>
    (8388608 < uint bin \<longrightarrow> price = 0 \<or> 2 ^ 128 - 1 \<le> uint price)"
proof -
  have "sint (word_of_int (uint bin) :: u32) = uint bin"
    by (rule sint_of_int) (use assms(2) in \<open>simp add: srange_def order_trans [OF _ uint_ge_0]\<close>)
  then have "sint bin = uint bin" by simp
  moreover have "srange 32 (uint bin - 8388608)" using assms(2) by (simp add: srange_def)
  ultimately have "get_exponent bin = uint bin - 8388608"
    by (simp add: get_exponent_def REAL_ID_SHIFT_def swrap_id)
  then show ?thesis
    using pow_above_one [OF base_gt [OF assms(1)], of "get_exponent bin"] SCALE_uint
    by (auto simp: get_price_from_id_def)
qed

theorem lb_price_side_witness:
  "\<exists>price. get_price_from_id 8388608 25 = Ok price \<and> uint price = 2 ^ 128"
  using lb_price_side [of 25 8388608] by auto

text \<open>The fee added to a net amount is the fee taken back out of the sum: swapping in what \<^verbatim>\<open>get_fee_amount\<close>
  says to add leaves exactly the net amount.\<close>

theorem lb_fee_roundtrip:
  assumes "uint fee \<le> uint MAX_FEE" and "get_fee_amount a fee = Ok f" and "uint a + uint f < 2 ^ 128"
  shows "get_fee_amount_from (a + f) fee = Ok f"
proof -
  have t: "uint fee \<le> 100000000000000000" using assms(1) by simp
  have "uint (a + f) = uint a + uint f" using assms(3) by (intro uint_add_exact) simp
  then have "cdiv (uint (a + f) * uint fee) 1000000000000000000 = uint f"
    using fee_amount_uint [OF t assms(2)] fee_added_taken [of "uint a" "uint fee" 1000000000000000000] t by simp
  then show ?thesis using fee_from_eq [OF t, of "a + f"] by simp
qed

theorem lb_fee_roundtrip_witness: "get_fee_amount_from (1000000 + 3010) 3000000000000000 = Ok 3010"
  by (rule lb_fee_roundtrip) (simp_all add: fee_amount_eq cdiv_def)

end
