(* ===== verification/LB_Pool.thy ===== *)
theory LB_Pool
  imports LB_Math BTree_Map
begin

text \<open>
  \<^verbatim>\<open>src/lb/pool.rs\<close>: a Liquidity Book pair. Its liquidity sits in bins, each with its own fixed price;
  a quote walks the bins from the active one, and the events keep bins, active bin and the
  variable-fee state. The model starts from the decoded event together with the log's optional
  block timestamp; every \<^verbatim>\<open>chrono::Utc::now()\<close> of one call is the argument \<open>now\<close>.
\<close>

section \<open>State\<close>

datatype lb_version = V2_0 | V2_1 | V2_2

record lb_pool =
  lb_address :: address
  lb_token_x :: address
  lb_token_y :: address
  lb_bin_step :: u16
  lb_active_id :: u32
  lb_bins :: "(u32, u128 \<times> u128) btree"
  lb_base_factor :: u16
  lb_filter_period :: u16
  lb_decay_period :: u16
  lb_reduction_factor :: u16
  lb_variable_fee_control :: u32
  lb_protocol_share :: u16
  lb_max_volatility_accumulator :: u32
  lb_volatility_accumulator :: u32
  lb_volatility_reference :: u32
  lb_id_reference :: u32
  lb_time_of_last_update :: u64
  lb_last_updated :: u64
  lb_created_at :: u64
  lb_pool_version :: lb_version
  lb_hooks_parameters :: "u256 option"

text \<open>\<^verbatim>\<open>new\<close> takes the fields in this order; the last one is the wall clock.\<close>

definition lb_new ::
    "address \<Rightarrow> address \<Rightarrow> address \<Rightarrow> u16 \<Rightarrow> u32 \<Rightarrow> (u32, u128 \<times> u128) btree \<Rightarrow> u16 \<Rightarrow> u16 \<Rightarrow> u16 \<Rightarrow> u16 \<Rightarrow>
     u32 \<Rightarrow> u16 \<Rightarrow> u32 \<Rightarrow> u32 \<Rightarrow> u32 \<Rightarrow> u32 \<Rightarrow> u64 \<Rightarrow> u64 \<Rightarrow> lb_pool" where
  "lb_new address token_x token_y bin_step active_id bins base_factor filter_period decay_period
     reduction_factor variable_fee_control protocol_share max_accumulator accumulator reference
     id_reference time_of_last_update now =
     \<lparr>lb_address = address, lb_token_x = token_x, lb_token_y = token_y, lb_bin_step = bin_step,
      lb_active_id = active_id, lb_bins = bins, lb_base_factor = base_factor,
      lb_filter_period = filter_period, lb_decay_period = decay_period,
      lb_reduction_factor = reduction_factor, lb_variable_fee_control = variable_fee_control,
      lb_protocol_share = protocol_share, lb_max_volatility_accumulator = max_accumulator,
      lb_volatility_accumulator = accumulator, lb_volatility_reference = reference,
      lb_id_reference = id_reference, lb_time_of_last_update = time_of_last_update,
      lb_last_updated = now, lb_created_at = now, lb_pool_version = V2_1, lb_hooks_parameters = None\<rparr>"

definition with_version :: "lb_version \<Rightarrow> lb_pool \<Rightarrow> lb_pool" where
  "with_version version p = p\<lparr>lb_pool_version := version\<rparr>"

definition with_hooks_parameters :: "u256 option \<Rightarrow> lb_pool \<Rightarrow> lb_pool" where
  "with_hooks_parameters hooks p = p\<lparr>lb_hooks_parameters := hooks\<rparr>"

definition lb_total_fee :: "lb_pool \<Rightarrow> u128" where
  "lb_total_fee p =
     get_total_fee (lb_base_factor p) (lb_bin_step p) (lb_volatility_accumulator p) (lb_variable_fee_control p)"

definition lb_fee_raw :: "lb_pool \<Rightarrow> u64" where
  "lb_fee_raw p = ucast (lb_total_fee p div 1000000000000)"

section \<open>Bins and volatility\<close>

text \<open>\<^verbatim>\<open>id + 1\<close> wraps, so above the largest \<^verbatim>\<open>u32\<close> the upward search starts from zero again.\<close>

definition next_non_empty_bin :: "lb_pool \<Rightarrow> bool \<Rightarrow> u32 \<Rightarrow> u32 option" where
  "next_non_empty_bin p swap_for_y i =
     (if swap_for_y then last_key (filter (\<lambda>(k, _). k < i) (lb_bins p))
      else first_key (filter (\<lambda>(k, _). i + 1 \<le> k) (lb_bins p)))"

definition update_bin :: "u32 \<Rightarrow> u128 \<Rightarrow> u128 \<Rightarrow> lb_pool \<Rightarrow> lb_pool" where
  "update_bin i reserve_x reserve_y p =
     (if reserve_x = 0 \<and> reserve_y = 0 then p\<lparr>lb_bins := bt_remove i (lb_bins p)\<rparr>
      else p\<lparr>lb_bins := bt_insert i (reserve_x, reserve_y) (lb_bins p)\<rparr>)"

definition bin_reserves :: "lb_pool \<Rightarrow> u32 \<Rightarrow> u128 \<times> u128" where
  "bin_reserves p i = (case bt_get (lb_bins p) i of Some r \<Rightarrow> r | None \<Rightarrow> (0, 0))"

definition update_references :: "lb_pool \<Rightarrow> u64 \<Rightarrow> u32 \<times> u32" where
  "update_references p timestamp =
     (let dt = saturating_sub timestamp (lb_time_of_last_update p)
      in if dt \<ge> ucast (lb_filter_period p) then
           (if dt < ucast (lb_decay_period p)
            then ucast ((ucast (lb_volatility_accumulator p) * ucast (lb_reduction_factor p) :: u64) div 10000)
            else 0,
            lb_active_id p)
         else (lb_volatility_reference p, lb_id_reference p))"

definition abs_diff :: "u32 \<Rightarrow> u32 \<Rightarrow> u32" where
  "abs_diff a b = (if a < b then b - a else a - b)"

definition compute_volatility_accumulator :: "lb_pool \<Rightarrow> u32 \<Rightarrow> u32 \<Rightarrow> u32 \<Rightarrow> u32" where
  "compute_volatility_accumulator p i vol_ref id_ref =
     (let vol_acc = (ucast vol_ref + ucast (abs_diff i id_ref) * 10000 :: u64)
      in ucast (min vol_acc (ucast (lb_max_volatility_accumulator p))))"

definition bin_fee :: "lb_pool \<Rightarrow> u32 \<Rightarrow> u32 \<times> u32 \<Rightarrow> u128" where
  "bin_fee p i refs =
     get_total_fee (lb_base_factor p) (lb_bin_step p)
       (compute_volatility_accumulator p i (fst refs) (snd refs)) (lb_variable_fee_control p)"

section \<open>Quotes\<close>

text \<open>The input that takes \<open>out\<close> from a bin, before fees, rounded up, and what an input takes, rounded down.\<close>

definition input_of :: "bool \<Rightarrow> u256 \<Rightarrow> u128 \<Rightarrow> u128 res" where
  "input_of swap_for_y price out =
     to_uint (if swap_for_y then shift_div_round_up (ucast out) SCALE_OFFSET price
              else mul_shift_round_up (ucast out) price SCALE_OFFSET)"

definition output_of :: "bool \<Rightarrow> u256 \<Rightarrow> u128 \<Rightarrow> u128 res" where
  "output_of swap_for_y price ain =
     to_uint (if swap_for_y then mul_shift_round_down (ucast ain) price SCALE_OFFSET
              else shift_div_round_down (ucast ain) SCALE_OFFSET price)"

text \<open>One bin of \<^verbatim>\<open>simulate_swap_out_at\<close>, on the input left, the output and the fee so far.\<close>

definition swap_out_bin :: "lb_pool \<Rightarrow> bool \<Rightarrow> u32 \<times> u32 \<Rightarrow> u32 \<Rightarrow> u128 \<times> u128 \<times> u128 \<Rightarrow> (u128 \<times> u128 \<times> u128) res" where
  "swap_out_bin p swap_for_y refs i = (\<lambda>(left, out, total).
     case bt_get (lb_bins p) i of
       None \<Rightarrow> Ok (left, out, total)
     | Some (rx, ry) \<Rightarrow>
         let bin_reserve_out = (if swap_for_y then ry else rx) in
         if bin_reserve_out > 0 then
           let fee = bin_fee p i refs in
           and_then (get_price_from_id i (lb_bin_step p)) (\<lambda>price.
           and_then (input_of swap_for_y price bin_reserve_out) (\<lambda>max_amount_in.
           and_then (get_fee_amount max_amount_in fee) (\<lambda>max_fee.
           let max_amount_in_with_fees = saturating_add max_amount_in max_fee in
           if left \<ge> max_amount_in_with_fees then
             Ok (left - max_amount_in_with_fees, out + bin_reserve_out, total + max_fee)
           else
             and_then (get_fee_amount_from left fee) (\<lambda>fee_bin.
             and_then (output_of swap_for_y price (left - fee_bin)) (\<lambda>bin_out.
             Ok (left - left, out + min bin_out bin_reserve_out, total + fee_bin))))))
         else Ok (left, out, total))"

text \<open>One bin of \<^verbatim>\<open>simulate_swap_in_at\<close>, on the output left, the input and the fee so far.\<close>

definition swap_in_bin :: "lb_pool \<Rightarrow> bool \<Rightarrow> u32 \<times> u32 \<Rightarrow> u32 \<Rightarrow> u128 \<times> u128 \<times> u128 \<Rightarrow> (u128 \<times> u128 \<times> u128) res" where
  "swap_in_bin p swap_for_y refs i = (\<lambda>(left, ain, total).
     case bt_get (lb_bins p) i of
       None \<Rightarrow> Ok (left, ain, total)
     | Some (rx, ry) \<Rightarrow>
         let bin_reserve_out = (if swap_for_y then ry else rx) in
         if bin_reserve_out > 0 then
           and_then (get_price_from_id i (lb_bin_step p)) (\<lambda>price.
           let amount_out_of_bin = min bin_reserve_out left; fee = bin_fee p i refs in
           and_then (input_of swap_for_y price amount_out_of_bin) (\<lambda>amount_in_without_fee.
           and_then (get_fee_amount amount_in_without_fee fee) (\<lambda>fee_amount.
           Ok (left - amount_out_of_bin, ain + (amount_in_without_fee + fee_amount), total + fee_amount))))
         else Ok (left, ain, total))"

text \<open>
  The loop both quotes share: process the bin, stop when nothing is left, else go to the next
  non-empty bin, if there is one. \<open>None\<close> would be a loop that never ends.
\<close>

partial_function (option) bin_loop ::
    "(u32 \<Rightarrow> u128 \<times> u128 \<times> u128 \<Rightarrow> (u128 \<times> u128 \<times> u128) res) \<Rightarrow> (u32 \<Rightarrow> u32 option) \<Rightarrow> u32 \<Rightarrow>
     u128 \<times> u128 \<times> u128 \<Rightarrow> (u128 \<times> u128 \<times> u128) res option" where
  "bin_loop step successor i s =
     (case step i s of
        Inl e \<Rightarrow> Some (Inl e)
      | Inr s' \<Rightarrow>
          if fst s' = 0 then Some (Inr s')
          else (case successor i of None \<Rightarrow> Some (Inr s') | Some j \<Rightarrow> bin_loop step successor j s'))"

declare bin_loop.simps [code]

definition simulate_swap_out_at :: "lb_pool \<Rightarrow> u128 \<Rightarrow> bool \<Rightarrow> u64 \<Rightarrow> (u128 \<times> u128 \<times> u128) res option" where
  "simulate_swap_out_at p ain swap_for_y timestamp =
     bin_loop (swap_out_bin p swap_for_y (update_references p timestamp)) (next_non_empty_bin p swap_for_y)
       (lb_active_id p) (ain, 0, 0)"

text \<open>The result is ordered as the code returns it: the input, the output left, the fee.\<close>

definition simulate_swap_in_at :: "lb_pool \<Rightarrow> u128 \<Rightarrow> bool \<Rightarrow> u64 \<Rightarrow> (u128 \<times> u128 \<times> u128) res option" where
  "simulate_swap_in_at p out swap_for_y timestamp =
     map_option (\<lambda>r. and_then r (\<lambda>(left, ain, fee). Ok (ain, left, fee)))
       (bin_loop (swap_in_bin p swap_for_y (update_references p timestamp)) (next_non_empty_bin p swap_for_y)
          (lb_active_id p) (out, 0, 0))"

definition simulate_swap_out :: "lb_pool \<Rightarrow> u128 \<Rightarrow> bool \<Rightarrow> u64 \<Rightarrow> (u128 \<times> u128 \<times> u128) res option" where
  "simulate_swap_out p ain swap_for_y now = simulate_swap_out_at p ain swap_for_y now"

definition simulate_swap_in :: "lb_pool \<Rightarrow> u128 \<Rightarrow> bool \<Rightarrow> u64 \<Rightarrow> (u128 \<times> u128 \<times> u128) res option" where
  "simulate_swap_in p out swap_for_y now = simulate_swap_in_at p out swap_for_y now"

section \<open>The pool interface\<close>

definition lb_calculate_output_at :: "lb_pool \<Rightarrow> address \<Rightarrow> u256 \<Rightarrow> u64 \<Rightarrow> u256 res option" where
  "lb_calculate_output_at p token_in ain timestamp =
     (if token_in \<noteq> lb_token_x p \<and> token_in \<noteq> lb_token_y p then Some (Err TokenNotInPool)
      else case (to_width AmountTooLarge ain :: u128 res) of
        Inl e \<Rightarrow> Some (Inl e)
      | Inr a \<Rightarrow>
          map_option (\<lambda>r. and_then r (\<lambda>(left, out, _).
              if left > 0 then Err InsufficientLiquidity else Ok (ucast out)))
            (simulate_swap_out_at p a (token_in = lb_token_x p) timestamp))"

definition lb_calculate_input_at :: "lb_pool \<Rightarrow> address \<Rightarrow> u256 \<Rightarrow> u64 \<Rightarrow> u256 res option" where
  "lb_calculate_input_at p token_out out timestamp =
     (if token_out \<noteq> lb_token_y p \<and> token_out \<noteq> lb_token_x p then Some (Err TokenNotInPool)
      else case (to_width AmountTooLarge out :: u128 res) of
        Inl e \<Rightarrow> Some (Inl e)
      | Inr a \<Rightarrow>
          map_option (\<lambda>r. and_then r (\<lambda>(ain, left, _).
              if left > 0 then Err InsufficientLiquidity else Ok (ucast ain)))
            (simulate_swap_in_at p a (token_out = lb_token_y p) timestamp))"

definition lb_calculate_output :: "lb_pool \<Rightarrow> address \<Rightarrow> u256 \<Rightarrow> u64 \<Rightarrow> u256 res option" where
  "lb_calculate_output p token_in ain now = lb_calculate_output_at p token_in ain now"

definition lb_calculate_input :: "lb_pool \<Rightarrow> address \<Rightarrow> u256 \<Rightarrow> u64 \<Rightarrow> u256 res option" where
  "lb_calculate_input p token_out out now = lb_calculate_input_at p token_out out now"

definition lb_apply_swap :: "u64 \<Rightarrow> address \<Rightarrow> u256 \<Rightarrow> u256 \<Rightarrow> lb_pool \<Rightarrow> lb_pool \<times> unit res" where
  "lb_apply_swap now token_in ain aout p = (p\<lparr>lb_last_updated := now\<rparr>, Ok ())"

definition lb_tokens :: "lb_pool \<Rightarrow> address \<times> address" where
  "lb_tokens p = (lb_token_x p, lb_token_y p)"

definition lb_contains_token :: "lb_pool \<Rightarrow> address \<Rightarrow> bool" where
  "lb_contains_token p token \<longleftrightarrow> token = lb_token_x p \<or> token = lb_token_y p"

end
