(* ===== verification/LB_Events.thy ===== *)
theory LB_Events
  imports LB_Pool Pool_Interface
begin

text \<open>
  \<^verbatim>\<open>src/lb/pool.rs\<close>, the events: \<^verbatim>\<open>apply_log\<close> on the decoded logs of both protocol generations, the
  invariant of the bin map, and what a failing log leaves behind.
\<close>

section \<open>Logs\<close>

datatype lb_topic =
    TLBSwap | TLBDepositedToBins | TLBWithdrawnFromBins | TLBStaticFeeParametersSet | TLBFlashLoan
  | TLBCompositionFees | TLBSwapV20 | TLBDepositedToBinV20 | TLBWithdrawnFromBinV20

datatype lb_log =
    LBSwap u24 u256 u256 u24
  | LBCompositionFees u24
  | LBDepositedToBins "u256 list" "u256 list"
  | LBWithdrawnFromBins "u256 list" "u256 list"
  | LBStaticFeeParametersSet u16 u16 u16 u16 u24 u16 u24
  | LBFlashLoan u24 u256 u256
  | LBSwapV20 u256 bool u256 u256 u256
  | LBDepositedToBinV20 u256 u256 u256
  | LBWithdrawnFromBinV20 u256 u256 u256
  | LBUndecodable lb_topic
  | LBOther

text \<open>\<^verbatim>\<open>log_timestamp\<close>: the log's block time, or the wall clock when it is absent or zero.\<close>

definition log_timestamp :: "u64 \<Rightarrow> u64 option \<Rightarrow> u64" where
  "log_timestamp now block_timestamp =
     (case block_timestamp of Some t \<Rightarrow> if t \<noteq> 0 then t else now | None \<Rightarrow> now)"

section \<open>Handlers\<close>

definition set_references :: "u64 \<Rightarrow> lb_pool \<Rightarrow> lb_pool" where
  "set_references ts p =
     (let (vol_ref, id_ref) = update_references p ts
      in p\<lparr>lb_volatility_reference := vol_ref, lb_id_reference := id_ref\<rparr>)"

definition lb_swap :: "u64 \<Rightarrow> u64 \<Rightarrow> u24 \<Rightarrow> u256 \<Rightarrow> u256 \<Rightarrow> u24 \<Rightarrow> lb_pool \<Rightarrow> lb_pool" where
  "lb_swap now ts event_id amounts_in amounts_out accumulator p =
     (let i = ucast event_id;
          (in_x, in_y) = decode_amounts amounts_in;
          (out_x, out_y) = decode_amounts amounts_out;
          (rx, ry) = bin_reserves p i;
          new_rx = saturating_sub (saturating_add rx in_x) out_x;
          new_ry = saturating_sub (saturating_add ry in_y) out_y;
          p = update_bin i new_rx new_ry p;
          p = set_references ts p
      in p\<lparr>lb_active_id := i, lb_volatility_accumulator := ucast accumulator,
           lb_time_of_last_update := ts, lb_last_updated := now\<rparr>)"

definition lb_composition_fees :: "u64 \<Rightarrow> u24 \<Rightarrow> lb_pool \<Rightarrow> lb_pool" where
  "lb_composition_fees ts event_id p =
     (let i = ucast event_id;
          (vol_ref, id_ref) = update_references p ts
      in p\<lparr>lb_volatility_reference := vol_ref, lb_id_reference := id_ref,
           lb_volatility_accumulator := compute_volatility_accumulator p i vol_ref id_ref,
           lb_time_of_last_update := ts\<rparr>)"

text \<open>\<^verbatim>\<open>try_into().unwrap_or(u32::MAX)\<close>, then one change per id that has an amount.\<close>

definition event_bin_id :: "u256 \<Rightarrow> u32" where
  "event_bin_id x = (if uint x < 2 ^ 32 then ucast x else - 1)"

definition change_bins :: "(u128 \<Rightarrow> u128 \<Rightarrow> u128) \<Rightarrow> u256 list \<Rightarrow> u256 list \<Rightarrow> lb_pool \<Rightarrow> lb_pool" where
  "change_bins f ids amounts p =
     fold (\<lambda>(id_u256, amounts_bytes) p.
        let i = event_bin_id id_u256;
            (x, y) = decode_amounts amounts_bytes;
            (rx, ry) = bin_reserves p i
        in update_bin i (f rx x) (f ry y) p) (zip ids amounts) p"

definition lb_flash_loan :: "u64 \<Rightarrow> u24 \<Rightarrow> u256 \<Rightarrow> u256 \<Rightarrow> lb_pool \<Rightarrow> lb_pool \<times> unit res" where
  "lb_flash_loan now active total_fees protocol_fees p =
     (let i = ucast active;
          (total_x, total_y) = decode_amounts total_fees;
          (protocol_x, protocol_y) = decode_amounts protocol_fees;
          (rx, ry) = bin_reserves p i
      in case (checked_sub total_x protocol_x, checked_sub total_y protocol_y) of
           (Some net_x, Some net_y) \<Rightarrow>
             (case (checked_add rx net_x, checked_add ry net_y) of
                (Some new_rx, Some new_ry) \<Rightarrow> ((update_bin i new_rx new_ry p)\<lparr>lb_last_updated := now\<rparr>, Ok ())
              | _ \<Rightarrow> (p, Err (FlashLoanOverflow i)))
         | _ \<Rightarrow> (p, Err FlashLoanFees))"

text \<open>The v2.0 swap: the accumulator is narrowed after bin, references and active bin are written.\<close>

definition lb_swap_v20 :: "u64 \<Rightarrow> u64 \<Rightarrow> u256 \<Rightarrow> bool \<Rightarrow> u256 \<Rightarrow> u256 \<Rightarrow> u256 \<Rightarrow> lb_pool \<Rightarrow> lb_pool \<times> unit res" where
  "lb_swap_v20 now ts event_id swap_for_y ain aout accumulator p =
     (case and_then (to_width (ConversionExceeds ''id'') event_id :: u32 res) (\<lambda>i.
           and_then (to_width (ConversionExceeds ''amountIn'') ain :: u128 res) (\<lambda>amount_in.
           and_then (to_width (ConversionExceeds ''amountOut'') aout :: u128 res) (\<lambda>amount_out.
           Ok (i, amount_in, amount_out)))) of
        Inl e \<Rightarrow> (p, Inl e)
      | Inr (i, amount_in, amount_out) \<Rightarrow>
          let (rx, ry) = bin_reserves p i;
              (new_rx, new_ry) =
                (if swap_for_y then (saturating_add rx amount_in, saturating_sub ry amount_out)
                 else (saturating_sub rx amount_out, saturating_add ry amount_in));
              p = update_bin i new_rx new_ry p;
              p = set_references ts p;
              p = p\<lparr>lb_active_id := i\<rparr>
          in case (to_width (ConversionExceeds ''volatilityAccumulated'') accumulator :: u32 res) of
               Inl e \<Rightarrow> (p, Inl e)
             | Inr acc \<Rightarrow>
                 (p\<lparr>lb_volatility_accumulator := acc, lb_time_of_last_update := ts, lb_last_updated := now\<rparr>, Ok ()))"

definition change_bin_v20 ::
    "(u128 \<Rightarrow> u128 \<Rightarrow> u128) \<Rightarrow> u64 \<Rightarrow> u256 \<Rightarrow> u256 \<Rightarrow> u256 \<Rightarrow> lb_pool \<Rightarrow> lb_pool \<times> unit res" where
  "change_bin_v20 f ts event_id amount_x amount_y p =
     (case and_then (to_width (ConversionExceeds ''id'') event_id :: u32 res) (\<lambda>i.
           and_then (to_width (ConversionExceeds ''amountX'') amount_x :: u128 res) (\<lambda>x.
           and_then (to_width (ConversionExceeds ''amountY'') amount_y :: u128 res) (\<lambda>y.
           Ok (i, x, y)))) of
        Inl e \<Rightarrow> (p, Inl e)
      | Inr (i, x, y) \<Rightarrow>
          let (rx, ry) = bin_reserves p i
          in ((update_bin i (f rx x) (f ry y) p)\<lparr>lb_last_updated := ts\<rparr>, Ok ()))"

fun lb_apply_log :: "u64 \<Rightarrow> u64 option \<times> lb_log \<Rightarrow> lb_pool \<Rightarrow> lb_pool \<times> unit res" where
  "lb_apply_log now (bt, LBSwap i ains aouts acc) p = (lb_swap now (log_timestamp now bt) i ains aouts acc p, Ok ())"
| "lb_apply_log now (bt, LBCompositionFees i) p = (lb_composition_fees (log_timestamp now bt) i p, Ok ())"
| "lb_apply_log now (bt, LBDepositedToBins ids amounts) p =
     ((change_bins saturating_add ids amounts p)\<lparr>lb_last_updated := now\<rparr>, Ok ())"
| "lb_apply_log now (bt, LBWithdrawnFromBins ids amounts) p =
     ((change_bins saturating_sub ids amounts p)\<lparr>lb_last_updated := now\<rparr>, Ok ())"
| "lb_apply_log now (bt, LBStaticFeeParametersSet base filt decay reduction control share max_acc) p =
     (p\<lparr>lb_base_factor := base, lb_filter_period := filt, lb_decay_period := decay,
        lb_reduction_factor := reduction, lb_variable_fee_control := ucast control,
        lb_protocol_share := share, lb_max_volatility_accumulator := ucast max_acc\<rparr>, Ok ())"
| "lb_apply_log now (bt, LBFlashLoan i total_fees protocol_fees) p = lb_flash_loan now i total_fees protocol_fees p"
| "lb_apply_log now (bt, LBSwapV20 i y ain aout acc) p = lb_swap_v20 now (log_timestamp now bt) i y ain aout acc p"
| "lb_apply_log now (bt, LBDepositedToBinV20 i x y) p = change_bin_v20 saturating_add (log_timestamp now bt) i x y p"
| "lb_apply_log now (bt, LBWithdrawnFromBinV20 i x y) p = change_bin_v20 saturating_sub (log_timestamp now bt) i x y p"
| "lb_apply_log now (bt, LBUndecodable t) p = (p, Err DecodeFailed)"
| "lb_apply_log now (bt, LBOther) p = (p, Ok ())"

fun lb_log_topic :: "lb_log \<Rightarrow> lb_topic option" where
  "lb_log_topic (LBSwap _ _ _ _) = Some TLBSwap"
| "lb_log_topic (LBCompositionFees _) = Some TLBCompositionFees"
| "lb_log_topic (LBDepositedToBins _ _) = Some TLBDepositedToBins"
| "lb_log_topic (LBWithdrawnFromBins _ _) = Some TLBWithdrawnFromBins"
| "lb_log_topic (LBStaticFeeParametersSet _ _ _ _ _ _ _) = Some TLBStaticFeeParametersSet"
| "lb_log_topic (LBFlashLoan _ _ _) = Some TLBFlashLoan"
| "lb_log_topic (LBSwapV20 _ _ _ _ _) = Some TLBSwapV20"
| "lb_log_topic (LBDepositedToBinV20 _ _ _) = Some TLBDepositedToBinV20"
| "lb_log_topic (LBWithdrawnFromBinV20 _ _ _) = Some TLBWithdrawnFromBinV20"
| "lb_log_topic (LBUndecodable t) = Some t"
| "lb_log_topic LBOther = None"

definition lb_topics :: "lb_topic list" where
  "lb_topics = [TLBSwap, TLBDepositedToBins, TLBWithdrawnFromBins, TLBStaticFeeParametersSet, TLBFlashLoan,
     TLBCompositionFees, TLBSwapV20, TLBDepositedToBinV20, TLBWithdrawnFromBinV20]"

definition lb_profitable_topics :: "lb_topic list" where
  "lb_profitable_topics = [TLBSwap, TLBSwapV20]"

section \<open>The bin map\<close>

text \<open>Sorted, and without empty bins: so the reserves of every bin determine the map.\<close>

definition lb_inv :: "lb_pool \<Rightarrow> bool" where
  "lb_inv p \<longleftrightarrow> bt_inv (lb_bins p) \<and> (\<forall>(i, r) \<in> set (lb_bins p). r \<noteq> (0, 0))"

named_theorems lb_bins_simps "what the operations do to the bin map"

lemma lb_inv_alt: "lb_inv p \<longleftrightarrow> bt_inv (lb_bins p) \<and> (\<forall>i. bt_get (lb_bins p) i \<noteq> Some (0, 0))"
proof (cases "bt_inv (lb_bins p)")
  case True
  then have "(\<forall>(i, r) \<in> set (lb_bins p). r \<noteq> (0, 0)) \<longleftrightarrow> (\<forall>i r. bt_get (lb_bins p) i = Some r \<longrightarrow> r \<noteq> (0, 0))"
    using bt_get_set by fast
  then show ?thesis using True by (auto simp: lb_inv_def)
qed (simp add: lb_inv_def)

lemma lb_inv_get: "lb_inv p \<Longrightarrow> bt_get (lb_bins p) i = (if bin_reserves p i = (0, 0) then None else Some (bin_reserves p i))"
  by (auto simp: lb_inv_alt bin_reserves_def split: option.splits)

lemma bins_determined:
  assumes "lb_inv p" "lb_inv q" "\<And>i. bin_reserves p i = bin_reserves q i"
  shows "lb_bins p = lb_bins q"
  using assms lb_inv_get by (intro bt_eqI) (simp_all add: lb_inv_def)

lemma update_bin_inv [lb_bins_simps]: "lb_inv p \<Longrightarrow> lb_inv (update_bin i x y p)"
  by (auto simp: update_bin_def lb_inv_alt bt_simps)

lemma update_bin_reserves [lb_bins_simps]:
  "lb_inv p \<Longrightarrow> bin_reserves (update_bin i x y p) j = (if j = i then (x, y) else bin_reserves p j)"
  by (simp add: bin_reserves_def update_bin_def lb_inv_def bt_simps)

lemma update_bin_frame [simp]:
  "lb_bins (set_references ts p) = lb_bins p"
  "lb_inv (set_references ts p) = lb_inv p"
  by (simp_all add: set_references_def lb_inv_def split: prod.splits)

lemma lb_inv_other [simp]:
  "lb_inv (p\<lparr>lb_last_updated := n\<rparr>) = lb_inv p" "lb_inv (p\<lparr>lb_active_id := i\<rparr>) = lb_inv p"
  "lb_inv (p\<lparr>lb_volatility_accumulator := a\<rparr>) = lb_inv p" "lb_inv (p\<lparr>lb_time_of_last_update := n\<rparr>) = lb_inv p"
  by (simp_all add: lb_inv_def)

lemma change_bins_Cons:
  "change_bins f (i # ids) (a # as) p =
     change_bins f ids as (case decode_amounts a of (x, y) \<Rightarrow> case bin_reserves p (event_bin_id i) of (rx, ry) \<Rightarrow>
       update_bin (event_bin_id i) (f rx x) (f ry y) p)"
  by (simp add: change_bins_def Let_def)

lemma change_bins_Nil [simp]: "change_bins f [] as p = p" "change_bins f ids [] p = p"
  by (simp_all add: change_bins_def)

lemma change_bins_inv [lb_bins_simps]: "lb_inv p \<Longrightarrow> lb_inv (change_bins f ids as p)"
proof (induction ids arbitrary: as p)
  case (Cons i ids)
  then show ?case
    by (cases as) (auto simp: change_bins_Cons update_bin_inv split: prod.splits)
qed simp

lemma change_bins_last_updated:
  "change_bins f ids as (p\<lparr>lb_last_updated := n\<rparr>) = (change_bins f ids as p)\<lparr>lb_last_updated := n\<rparr>"
proof (induction ids arbitrary: as p)
  case (Cons i ids)
  have "update_bin k x y (p\<lparr>lb_last_updated := n\<rparr>) = (update_bin k x y p)\<lparr>lb_last_updated := n\<rparr>" for k x y
    by (simp add: update_bin_def)
  then show ?case using Cons.IH by (cases as) (simp_all add: change_bins_Cons bin_reserves_def split: prod.splits)
qed simp

text \<open>With distinct ids, each bin is changed once, by the amounts listed for it.\<close>

definition bin_amounts :: "u256 list \<Rightarrow> u256 list \<Rightarrow> u32 \<Rightarrow> (u128 \<times> u128) option" where
  "bin_amounts ids as j = map_of (zip (map event_bin_id ids) (map decode_amounts as)) j"

lemma change_bins_reserves:
  assumes "lb_inv p" and "distinct (map event_bin_id ids)"
  shows "bin_reserves (change_bins f ids as p) j =
    (case bin_amounts ids as j of None \<Rightarrow> bin_reserves p j
     | Some (x, y) \<Rightarrow> (f (fst (bin_reserves p j)) x, f (snd (bin_reserves p j)) y))"
  using assms
proof (induction ids arbitrary: as p)
  case (Cons i ids)
  show ?case
  proof (cases as)
    case Nil
    then show ?thesis by (simp add: bin_amounts_def)
  next
    case as: (Cons a as')
    obtain x y where a: "decode_amounts a = (x, y)" by fastforce
    obtain rx ry where r: "bin_reserves p (event_bin_id i) = (rx, ry)" by fastforce
    let ?q = "update_bin (event_bin_id i) (f rx x) (f ry y) p"
    have "bin_amounts ids as' (event_bin_id i) = None"
      using Cons.prems(2) set_zip_leftD by (fastforce simp: bin_amounts_def map_of_eq_None_iff)
    then show ?thesis
      using Cons.IH [of ?q as'] Cons.prems a r
      by (auto simp: as change_bins_Cons lb_bins_simps bin_amounts_def split: option.splits)
  qed
qed (simp add: bin_amounts_def)

section \<open>What every log keeps\<close>

definition lb_identity :: "lb_pool \<Rightarrow> address \<times> address \<times> address \<times> u16 \<times> lb_version \<times> u256 option" where
  "lb_identity p = (lb_address p, lb_token_x p, lb_token_y p, lb_bin_step p, lb_pool_version p, lb_hooks_parameters p)"

lemma identity_frame [simp]:
  "lb_identity (update_bin i x y p) = lb_identity p" "lb_identity (set_references ts p) = lb_identity p"
  "lb_identity (p\<lparr>lb_last_updated := n\<rparr>) = lb_identity p" "lb_identity (p\<lparr>lb_active_id := k\<rparr>) = lb_identity p"
  "lb_identity (p\<lparr>lb_volatility_accumulator := v\<rparr>) = lb_identity p"
  "lb_identity (p\<lparr>lb_time_of_last_update := n\<rparr>) = lb_identity p"
  by (simp_all add: lb_identity_def update_bin_def set_references_def split: prod.splits)

lemma change_bins_identity [simp]: "lb_identity (change_bins f ids as p) = lb_identity p"
proof (induction ids arbitrary: as p)
  case (Cons i ids)
  then show ?case by (cases as) (simp_all add: change_bins_Cons split: prod.splits)
qed simp

lemma lb_log_identity: "lb_identity (fst (lb_apply_log now l p)) = lb_identity p"
proof (induction now l p rule: lb_apply_log.induct)
  case (2 now bt i p)
  then show ?case by (simp add: lb_composition_fees_def lb_identity_def Let_def split: prod.splits)
next
  case (5 now bt base filt decay reduction control share max_acc p)
  then show ?case by (simp add: lb_identity_def)
qed (simp_all add: lb_swap_def lb_flash_loan_def lb_swap_v20_def change_bin_v20_def Let_def
    split: prod.splits option.splits sum.splits)

interpretation lb: event_pool "lb_apply_log now" lb_identity for now
  by unfold_locales (rule lb_log_identity)

lemma lb_log_inv: "lb_inv p \<Longrightarrow> lb_inv (fst (lb_apply_log now l p))"
proof (induction now l p rule: lb_apply_log.induct)
  case (2 now bt i p)
  then show ?case by (simp add: lb_composition_fees_def lb_inv_def Let_def split: prod.splits)
next
  case (5 now bt base filt decay reduction control share max_acc p)
  then show ?case by (simp add: lb_inv_def)
qed (simp_all add: lb_swap_def lb_flash_loan_def lb_swap_v20_def change_bin_v20_def Let_def lb_bins_simps
    split: prod.splits option.splits sum.splits)

lemma lb_failed_log:
  assumes "lb_apply_log now (bt, l) p = (p', Err e)"
  shows "p' = p \<or> (\<exists>i y ain aout acc. l = LBSwapV20 i y ain aout acc \<and> 2 ^ 32 \<le> uint acc)"
  using assms
  by (cases l)
    (auto simp: lb_flash_loan_def lb_swap_v20_def change_bin_v20_def Let_def to_width_Err
      split: prod.splits option.splits sum.splits)

section \<open>Properties\<close>

definition sample_lb :: lb_pool where
  "sample_lb = lb_new 1 10 20 25 8388608 [(8388607, (0, 5000)), (8388608, (1000, 2000)), (8388609, (3000, 0))]
     5000 30 600 5000 40000 1000 350000 0 0 8388608 100 100"

lemma sample_lb_inv: "lb_inv sample_lb"
  by (simp add: lb_inv_def bt_inv_def sample_lb_def lb_new_def)

lemma lb_run_inv: "lb_inv p \<Longrightarrow> lb_inv (lb.apply_all now ls p)"
  by (induction ls arbitrary: p) (simp_all add: lb_log_inv)

text \<open>C30: whatever logs arrive, decodable or not, failing or not, the bin map stays sorted and free of empty
  bins, and the pair stays the same pair.\<close>

theorem lb_logs_keep_invariant:
  assumes "lb_inv p"
  shows "let q = foldl (\<lambda>p l. fst (lb_apply_log now l p)) p ls in lb_inv q \<and> lb_identity q = lb_identity p"
  using lb_run_inv [OF assms, of now ls] lb.identity_kept_all [of now ls p] by (simp add: lb.apply_all_def Let_def)

theorem lb_logs_keep_invariant_witness:
  "lb_inv (fst (lb_apply_log 200 (None, LBWithdrawnFromBins [8388609] [3000]) sample_lb))"
  using lb_logs_keep_invariant [OF sample_lb_inv, of 200 "[(None, LBWithdrawnFromBins [8388609] [3000])]"]
  by (simp only: foldl.simps Let_def)

text \<open>C31: depositing into distinct bins and withdrawing the same amounts restores the whole bin map, as long as
  no reserve overflows.\<close>

theorem lb_deposit_withdraw_roundtrip:
  assumes "lb_inv p" and "distinct (map event_bin_id ids)"
    and "\<forall>j x y. bin_amounts ids amounts j = Some (x, y) \<longrightarrow>
      uint (fst (bin_reserves p j)) + uint x < 2 ^ 128 \<and> uint (snd (bin_reserves p j)) + uint y < 2 ^ 128"
  shows "lb_bins (fst (lb_apply_log now (t', LBWithdrawnFromBins ids amounts)
    (fst (lb_apply_log now (t, LBDepositedToBins ids amounts) p)))) = lb_bins p"
proof -
  let ?d = "change_bins saturating_add ids amounts p"
  have undo: "saturating_sub (saturating_add r a) a = r" if "uint r + uint a < 2 ^ 128" for r a :: u128
    using that by (simp add: word_eq_uint uint_saturating_sub uint_saturating_add)
  have d: "lb_inv ?d" using assms(1) by (simp add: lb_bins_simps)
  have "bin_reserves (change_bins saturating_sub ids amounts ?d) j = bin_reserves p j" for j
    using assms(3) unfolding change_bins_reserves [OF d assms(2)] change_bins_reserves [OF assms(1,2)]
    by (auto simp: undo split: option.splits)
  then have "lb_bins (change_bins saturating_sub ids amounts ?d) = lb_bins p"
    using d assms(1) by (intro bins_determined) (simp_all add: lb_bins_simps)
  then show ?thesis by (simp add: change_bins_last_updated)
qed

theorem lb_deposit_withdraw_roundtrip_witness:
  "lb_bins (fst (lb_apply_log 200 (None, LBWithdrawnFromBins [8388608, 8388700] [7, 9])
    (fst (lb_apply_log 200 (None, LBDepositedToBins [8388608, 8388700] [7, 9]) sample_lb)))) = lb_bins sample_lb"
  by (rule lb_deposit_withdraw_roundtrip [OF sample_lb_inv])
    (auto simp: event_bin_id_def bin_amounts_def decode_amounts_def bin_reserves_def sample_lb_def lb_new_def
      split: if_splits)

text \<open>C32: a failing log leaves the pair untouched, except a v2.0 swap whose accumulator does not fit 32 bits.\<close>

theorem lb_failed_log_changes_nothing:
  assumes "lb_apply_log now (t, l) p = (p', Err e)"
    and "\<forall>i y ain aout acc. l = LBSwapV20 i y ain aout acc \<longrightarrow> uint acc < 2 ^ 32"
  shows "p' = p"
  using lb_failed_log [OF assms(1)] assms(2) by auto

theorem lb_failed_log_changes_nothing_witness:
  "fst (lb_apply_log 200 (None, LBFlashLoan 8388608 5 6) sample_lb) = sample_lb"
proof -
  have "lb_apply_log 200 (None, LBFlashLoan 8388608 5 6) sample_lb = (sample_lb, Err FlashLoanFees)"
    by (simp add: lb_flash_loan_def decode_amounts_def checked_sub_def Let_def split: prod.splits)
  from lb_failed_log_changes_nothing [OF this] show ?thesis
    by (simp add: lb_flash_loan_def decode_amounts_def checked_sub_def Let_def split: prod.splits)
qed

text \<open>The exception is real: this log fails, and the active bin has moved.\<close>

lemma lb_v20_swap_half_applied:
  "let (p, r) = lb_apply_log 200 (None, LBSwapV20 8388609 False 10 10 (2 ^ 32)) sample_lb
   in r = Err (ConversionExceeds ''volatilityAccumulated'') \<and> lb_active_id p = 8388609 \<and>
      lb_active_id sample_lb = 8388608 \<and> lb_time_of_last_update p = lb_time_of_last_update sample_lb"
  by (simp add: lb_swap_v20_def to_width_def sample_lb_def lb_new_def Let_def update_bin_def set_references_def
      update_references_def split: prod.splits)

end
