(* ===== verification/LB_Quotes.thy ===== *)
theory LB_Quotes
  imports LB_Events
begin

text \<open>
  The Liquidity Book's quotes: the walk over the bins ends, and a quote never promises more than the
  bins hold, never returns more input than it was given and never charges more fee than it consumed.
\<close>

section \<open>The walk ends\<close>

definition bin_ids_ok :: "lb_pool \<Rightarrow> bool" where
  "bin_ids_ok p \<longleftrightarrow> lb_active_id p \<noteq> - 1 \<and> bt_get (lb_bins p) (- 1) = None"

lemma next_down: "lb_inv p \<Longrightarrow> next_non_empty_bin p True i = Some j \<longleftrightarrow>
  bt_get (lb_bins p) j \<noteq> None \<and> j < i \<and> (\<forall>k. bt_get (lb_bins p) k \<noteq> None \<and> k < i \<longrightarrow> k \<le> j)"
  using bt.last_key_iff [of "lb_bins p" "\<lambda>k. k < i" j] by (simp add: next_non_empty_bin_def lb_inv_def)

lemma next_up: "lb_inv p \<Longrightarrow> i \<noteq> - 1 \<Longrightarrow> next_non_empty_bin p False i = Some j \<longleftrightarrow>
  bt_get (lb_bins p) j \<noteq> None \<and> i < j \<and> (\<forall>k. bt_get (lb_bins p) k \<noteq> None \<and> i < k \<longrightarrow> j \<le> k)"
proof -
  assume p: "lb_inv p" and i: "i \<noteq> - 1"
  have "uint i \<noteq> 2 ^ 32 - 1" using i by (simp add: word_eq_uint uint_max)
  then have "uint (i + 1) = uint i + 1" using uint_less [of i] by (subst uint_add_exact) simp_all
  then have "i + 1 \<le> k \<longleftrightarrow> i < k" for k by (auto simp: word_le_def word_less_def)
  then show ?thesis
    using bt.first_key_iff [of "lb_bins p" "\<lambda>k. i + 1 \<le> k" j] p by (simp add: next_non_empty_bin_def lb_inv_def)
qed

lemma next_bin:
  assumes "lb_inv p" and "y \<or> i \<noteq> - 1" and "next_non_empty_bin p y i = Some j"
  shows "bt_get (lb_bins p) j \<noteq> None \<and> (if y then j < i else i < j) \<and>
    (\<forall>k. (if y then j < k \<and> k < i else i < k \<and> k < j) \<longrightarrow> bt_get (lb_bins p) k = None)"
proof (cases y)
  case True
  then show ?thesis using next_down [OF assms(1), of i j] assms(3) by (simp only: simp_thms if_True) (metis leD)
next
  case False
  then show ?thesis using next_up [OF assms(1), of i j] assms(2,3) by (simp only: simp_thms if_False) (metis leD)
qed

lemma no_next_bin:
  assumes "lb_inv p" and "y \<or> i \<noteq> - 1" and "next_non_empty_bin p y i = None"
    and "if y then k < i else i < k"
  shows "bt_get (lb_bins p) k = None"
proof (rule ccontr)
  assume k: "bt_get (lb_bins p) k \<noteq> None"
  show False
  proof (cases y)
    case True
    then show False using assms k bt.last_key_None [of "lb_bins p" "\<lambda>k. k < i"]
      by (auto simp: next_non_empty_bin_def lb_inv_def)
  next
    case False
    then have "uint i \<noteq> 2 ^ 32 - 1" using assms(2) by (simp add: word_eq_uint uint_max)
    then have "uint (i + 1) = uint i + 1" using uint_less [of i] by (subst uint_add_exact) simp_all
    then have "i + 1 \<le> k" using False assms(4) by (simp add: word_le_def word_less_def)
    then show False using False assms k bt.first_key_None [of "lb_bins p" "\<lambda>k. i + 1 \<le> k"]
      by (auto simp: next_non_empty_bin_def lb_inv_def)
  qed
qed

lemma bin_loop_rule:
  assumes "J i" and "Inv i s"
    and succ: "\<And>i j. J i \<Longrightarrow> successor i = Some j \<Longrightarrow> J j \<and> m j < (m i :: nat)"
    and step: "\<And>i s t. J i \<Longrightarrow> Inv i s \<Longrightarrow> step i s = Ok t \<Longrightarrow>
      R t \<and> (\<forall>j. fst t \<noteq> 0 \<and> successor i = Some j \<longrightarrow> Inv j t)"
  shows "\<exists>r. bin_loop step successor i s = Some r \<and> (\<forall>t. r = Ok t \<longrightarrow> R t)"
  using assms(1,2)
proof (induction i arbitrary: s rule: measure_induct_rule [of m])
  case (less i)
  show ?case
  proof (cases "step i s")
    case (Inl e)
    then show ?thesis by (subst bin_loop.simps) simp
  next
    case (Inr t)
    note t = step [OF less.prems Inr]
    show ?thesis
    proof (cases "fst t = 0 \<or> successor i = None")
      case True
      then show ?thesis using t Inr by (subst bin_loop.simps) auto
    next
      case False
      then obtain j where j: "successor i = Some j" "fst t \<noteq> 0" by auto
      have "\<exists>r. bin_loop step successor j t = Some r \<and> (\<forall>t. r = Ok t \<longrightarrow> R t)"
        using less.IH succ [OF less.prems(1) j(1)] t j by blast
      then show ?thesis using Inr j by (subst bin_loop.simps) simp
    qed
  qed
qed

text \<open>The walk of a pair visits only its own bins, in one direction.\<close>

definition on_walk :: "lb_pool \<Rightarrow> bool \<Rightarrow> u32 \<Rightarrow> bool" where
  "on_walk p y i \<longleftrightarrow> lb_inv p \<and> bin_ids_ok p \<and> i \<noteq> - 1"

lemma walk_step:
  assumes "on_walk p y i" and "next_non_empty_bin p y i = Some j"
  shows "on_walk p y j \<and> (if y then unat j else 2 ^ 32 - unat j) < (if y then unat i else 2 ^ 32 - unat i)"
proof -
  have n: "lb_inv p" "y \<or> i \<noteq> - 1" using assms(1) by (simp_all add: on_walk_def)
  note b = next_bin [OF n assms(2)]
  have b1: "bt_get (lb_bins p) j \<noteq> None" and b2: "if y then j < i else i < j" using b by blast+
  have "j \<noteq> - 1" using b1 assms(1) by (auto simp: on_walk_def bin_ids_ok_def)
  moreover have "unat j < 2 ^ 32" "unat i < 2 ^ 32" using unsigned_less [of j] unsigned_less [of i] by simp_all
  ultimately show ?thesis using assms(1) b2 by (auto simp: on_walk_def word_less_nat_alt split: if_splits)
qed

lemma walk_rule:
  assumes "on_walk p y i" and "Inv i s"
    and "\<And>i s t. on_walk p y i \<Longrightarrow> Inv i s \<Longrightarrow> step i s = Ok t \<Longrightarrow>
      R t \<and> (\<forall>j. fst t \<noteq> 0 \<and> next_non_empty_bin p y i = Some j \<longrightarrow> Inv j t)"
  shows "\<exists>r. bin_loop step (next_non_empty_bin p y) i s = Some r \<and> (\<forall>t. r = Ok t \<longrightarrow> R t)"
  by (rule bin_loop_rule [where J = "on_walk p y" and Inv = Inv and m = "\<lambda>i. if y then unat i else 2 ^ 32 - unat i"])
    (use assms walk_step in blast)+

section \<open>What the bins hold\<close>

definition out_reserve :: "lb_pool \<Rightarrow> bool \<Rightarrow> u32 \<Rightarrow> int" where
  "out_reserve p y k = (case bin_reserves p k of (rx, ry) \<Rightarrow> uint (if y then ry else rx))"

definition beyond :: "bool \<Rightarrow> u32 \<Rightarrow> u32 set" where
  "beyond y i = (if y then {k. k < i} else {k. i < k})"

definition ahead :: "(u32 \<Rightarrow> int) \<Rightarrow> bool \<Rightarrow> u32 \<Rightarrow> int" where
  "ahead f y i = f i + (\<Sum>k \<in> beyond y i. f k)"

definition lb_total_out :: "lb_pool \<Rightarrow> bool \<Rightarrow> int" where
  "lb_total_out p y = (\<Sum>(_, rx, ry) \<leftarrow> lb_bins p. uint (if y then ry else rx))"

lemma out_reserve_nonneg [simp]: "0 \<le> out_reserve p y k"
  by (simp add: out_reserve_def split: prod.splits)

lemma out_reserve_absent: "bt_get (lb_bins p) k = None \<Longrightarrow> out_reserve p y k = 0"
  by (simp add: out_reserve_def bin_reserves_def)

lemma sum_beyond_next:
  assumes "on_walk p y i" and "next_non_empty_bin p y i = Some j"
    and "\<And>k. bt_get (lb_bins p) k = None \<Longrightarrow> f k = (0 :: int)"
  shows "(\<Sum>k \<in> beyond y i. f k) = ahead f y j"
proof -
  have n: "lb_inv p" "y \<or> i \<noteq> - 1" using assms(1) by (simp_all add: on_walk_def)
  note b = next_bin [OF n assms(2)]
  let ?A = "insert j (beyond y j)"
  have sub: "?A \<subseteq> beyond y i" using b by (auto simp: beyond_def split: if_splits)
  have "f k = 0" if "k \<in> beyond y i - ?A" for k
    using that b assms(3) [of k] by (auto simp: beyond_def not_less split: if_splits)
  then have "(\<Sum>k \<in> beyond y i. f k) = (\<Sum>k \<in> ?A. f k)"
    using sub by (intro sum.mono_neutral_right) simp_all
  also have "\<dots> = ahead f y j" by (subst sum.insert) (auto simp: ahead_def beyond_def)
  finally show ?thesis .
qed

lemma ahead_le_total:
  assumes "\<And>k. 0 \<le> f k"
  shows "ahead f y i \<le> (\<Sum>k \<in> UNIV. f k)"
proof -
  have "ahead f y i = (\<Sum>k \<in> insert i (beyond y i). f k)"
    by (subst sum.insert) (auto simp: ahead_def beyond_def)
  also have "\<dots> \<le> (\<Sum>k \<in> UNIV. f k)" using assms by (intro sum_mono2) auto
  finally show ?thesis .
qed

lemma bins_sum:
  assumes "lb_inv p" and "\<And>k. bt_get (lb_bins p) k = None \<Longrightarrow> g k = (0 :: int)"
    and "\<And>k rx ry. bt_get (lb_bins p) k = Some (rx, ry) \<Longrightarrow> g k = f k rx ry"
  shows "(\<Sum>(k, rx, ry) \<leftarrow> lb_bins p. f k rx ry) = (\<Sum>k \<in> UNIV. g k)"
proof -
  have "(\<Sum>(k, rx, ry) \<leftarrow> lb_bins p. f k rx ry) = bt.total (\<lambda>k (rx, ry). f k rx ry) (lb_bins p)"
    unfolding bt.total_def by (rule arg_cong [of _ _ sum_list]) simp
  also have "\<dots> = (\<Sum>k \<in> UNIV. bt.part (\<lambda>k (rx, ry). f k rx ry) (bt_get (lb_bins p) k) k)"
    using assms(1) by (intro bt.total_subset) (simp_all add: lb_inv_def)
  also have "\<dots> = (\<Sum>k \<in> UNIV. g k)"
    using assms(2,3) by (intro sum.cong) (auto simp: bt.part_def split: option.splits prod.splits)
  finally show ?thesis .
qed

lemma total_out_sum: "lb_inv p \<Longrightarrow> lb_total_out p y = (\<Sum>k \<in> UNIV. out_reserve p y k)"
  unfolding lb_total_out_def
  by (rule bins_sum) (auto simp: out_reserve_def bin_reserves_def)

section \<open>One bin\<close>

lemma bin_fee_le: "uint (bin_fee p i refs) \<le> 100000000000000000"
  by (simp add: bin_fee_def total_fee_le)

lemma swap_out_bin_bounds:
  assumes "swap_out_bin p y refs i (l, out, tot) = Ok (l', out', tot')"
  shows "uint l' \<le> uint l" and "\<exists>d. out' = out + d \<and> uint d \<le> out_reserve p y i"
    and "\<exists>f. tot' = tot + f \<and> uint f \<le> uint l - uint l'"
proof -
  have "uint l' \<le> uint l \<and> (\<exists>d. out' = out + d \<and> uint d \<le> out_reserve p y i) \<and>
    (\<exists>f. tot' = tot + f \<and> uint f \<le> uint l - uint l')"
  proof (cases "bt_get (lb_bins p) i")
    case None
    then have "l' = l" "out' = out" "tot' = tot" using assms by (simp_all add: swap_out_bin_def)
    then show ?thesis by (auto intro: exI [of _ 0])
  next
    case (Some r)
    obtain rx ry where r: "r = (rx, ry)" by fastforce
    let ?r = "if y then ry else rx" and ?fee = "bin_fee p i refs"
    have res: "out_reserve p y i = uint ?r" using Some r by (simp add: out_reserve_def bin_reserves_def)
    show ?thesis
    proof (cases "?r > 0")
      case False
      then have "l' = l" "out' = out" "tot' = tot"
        using assms Some r by (auto simp: swap_out_bin_def Let_def split: if_splits)
      then show ?thesis by (auto intro: exI [of _ 0])
    next
      case True
      then obtain price m mf where mf: "get_fee_amount m ?fee = Ok mf"
        and c: "(if l \<ge> saturating_add m mf then
             Ok (l - saturating_add m mf, out + ?r, tot + mf)
           else
             and_then (get_fee_amount_from l ?fee) (\<lambda>fee_bin.
             and_then (output_of y price (l - fee_bin)) (\<lambda>bin_out.
             Ok (l - l, out + min bin_out ?r, tot + fee_bin)))) = Ok (l', out', tot')"
        using assms Some r by (auto simp: swap_out_bin_def Let_def)
      show ?thesis
      proof (cases "l \<ge> saturating_add m mf")
        case full: True
        have "uint mf \<le> uint (saturating_add m mf)"
          using uint_less [of mf] by (simp add: uint_saturating_add)
        moreover have "uint (l - saturating_add m mf) = uint l - uint (saturating_add m mf)"
          using full by (intro uint_sub_exact)
        moreover have "l' = l - saturating_add m mf" "out' = out + ?r" "tot' = tot + mf" using full c by simp_all
        ultimately show ?thesis unfolding res by (intro conjI exI [of _ ?r] exI [of _ mf]) simp_all
      next
        case part: False
        then obtain fb o' where fb: "get_fee_amount_from l ?fee = Ok fb"
          and o': "l' = 0" "out' = out + min o' ?r" "tot' = tot + fb" using c by auto
        have "uint fb \<le> uint l" using fee_from_uint(2) [OF bin_fee_le fb] .
        moreover have "uint (min o' ?r) \<le> uint ?r" by (simp add: min_def word_le_def)
        ultimately show ?thesis using o' res by auto
      qed
    qed
  qed
  then show "uint l' \<le> uint l" and "\<exists>d. out' = out + d \<and> uint d \<le> out_reserve p y i"
    and "\<exists>f. tot' = tot + f \<and> uint f \<le> uint l - uint l'" by simp_all
qed

section \<open>The whole walk\<close>

definition out_so_far :: "lb_pool \<Rightarrow> bool \<Rightarrow> u128 \<Rightarrow> u32 \<Rightarrow> u128 \<times> u128 \<times> u128 \<Rightarrow> bool" where
  "out_so_far p y a i = (\<lambda>(l, out, tot). uint l + uint tot \<le> uint a \<and>
     uint out + ahead (out_reserve p y) y i \<le> lb_total_out p y)"

lemma out_so_far_step:
  assumes w: "on_walk p y i" and inv: "out_so_far p y a i (l, out, tot)" and T: "lb_total_out p y < 2 ^ 128"
    and s: "swap_out_bin p y refs i (l, out, tot) = Ok (l', out', tot')"
  shows "uint l' + uint tot' \<le> uint a \<and> uint out' \<le> lb_total_out p y \<and>
    (\<forall>j. next_non_empty_bin p y i = Some j \<longrightarrow> out_so_far p y a j (l', out', tot'))"
proof -
  note b = swap_out_bin_bounds [OF s]
  obtain d where d: "out' = out + d" "uint d \<le> out_reserve p y i" using b(2) by blast
  obtain f where f: "tot' = tot + f" "uint f \<le> uint l - uint l'" using b(3) by blast
  have i: "uint l + uint tot \<le> uint a" "uint out + ahead (out_reserve p y) y i \<le> lb_total_out p y"
    using inv by (simp_all add: out_so_far_def)
  have rest: "0 \<le> (\<Sum>k \<in> beyond y i. out_reserve p y k)" by (simp add: sum_nonneg)
  have "uint out + uint d \<le> lb_total_out p y - (\<Sum>k \<in> beyond y i. out_reserve p y k)"
    using i d by (simp add: ahead_def)
  moreover from this have "uint out' = uint out + uint d"
    using T rest unfolding d(1) by (intro uint_add_exact) simp
  ultimately have o: "uint out' + (\<Sum>k \<in> beyond y i. out_reserve p y k) \<le> lb_total_out p y" by simp
  have "uint tot + uint f \<le> uint a" using f(2) i(1) uint_ge_0 [of l'] by linarith
  then have "uint tot + uint f < 2 ^ LENGTH(128)" using uint_less [of a] by simp
  from uint_add_exact [OF this] have t: "uint l' + uint tot' \<le> uint a" using f i by simp
  have "out_so_far p y a j (l', out', tot')" if "next_non_empty_bin p y i = Some j" for j
    using o t sum_beyond_next [OF w that, of "out_reserve p y"] out_reserve_absent
    by (simp add: out_so_far_def)
  then show ?thesis using o t rest by simp
qed

lemma swap_out_total:
  assumes "lb_inv p" and "bin_ids_ok p" and T: "lb_total_out p y < 2 ^ 128"
  shows "\<exists>r. simulate_swap_out_at p a y ts = Some r \<and>
    (\<forall>l out tot. r = Ok (l, out, tot) \<longrightarrow> uint l + uint tot \<le> uint a \<and> uint out \<le> lb_total_out p y)"
proof -
  have w: "on_walk p y (lb_active_id p)" using assms by (simp add: on_walk_def bin_ids_ok_def)
  have start: "out_so_far p y a (lb_active_id p) (a, 0, 0)"
    using ahead_le_total [of "out_reserve p y" y "lb_active_id p"] total_out_sum [OF assms(1)]
    by (simp add: out_so_far_def)
  show ?thesis
    unfolding simulate_swap_out_at_def
    using walk_rule [of p y _ "out_so_far p y a", OF w start,
        where R = "\<lambda>(l, out, tot). uint l + uint tot \<le> uint a \<and> uint out \<le> lb_total_out p y" and
        step = "swap_out_bin p y (update_references p ts)"]
      out_so_far_step [OF _ _ T] by fastforce
qed

section \<open>Properties\<close>



text \<open>
  Without the condition on the ids the walk may never end. A deposit whose bin id does not fit 32 bits is
  stored under the largest id, above which the upward search starts again from zero.
\<close>

definition clamped_lb :: lb_pool where
  "clamped_lb = fst (lb_apply_log 100 (None, LBDepositedToBins [2 ^ 32] [5 * 2 ^ 128]) (sample_lb\<lparr>lb_bins := []\<rparr>))"

lemma clamped_lb_bins: "lb_bins clamped_lb = [(- 1, (0, 5))]"
  by (simp add: clamped_lb_def change_bins_def event_bin_id_def decode_amounts_def bin_reserves_def
      update_bin_def saturating_add_def Let_def sample_lb_def lb_new_def)

lemma clamped_walk_stays:
  "swap_out_bin clamped_lb False refs (- 1) (5, 0, 0) = Ok (5, 0, 0)"
  "next_non_empty_bin clamped_lb False (- 1) = Some (- 1)"
  by (simp_all add: swap_out_bin_def clamped_lb_bins next_non_empty_bin_def first_key_def)

definition clamped_start ::
    "u32 \<times> u32 \<Rightarrow> (u32 \<Rightarrow> u128 \<times> u128 \<times> u128 \<Rightarrow> (u128 \<times> u128 \<times> u128) res) \<Rightarrow> (u32 \<Rightarrow> u32 option) \<Rightarrow> u32 \<Rightarrow>
     u128 \<times> u128 \<times> u128 \<Rightarrow> bool" where
  "clamped_start refs step successor i s \<longleftrightarrow> step = swap_out_bin clamped_lb False refs \<and>
     successor = next_non_empty_bin clamped_lb False \<and> i = - 1 \<and> s = (5, 0, 0)"

lemma clamped_no_result:
  assumes "bin_loop step successor i s = Some r"
  shows "\<not> clamped_start refs step successor i s"
proof (rule bin_loop.raw_induct [OF _ assms, where P = "\<lambda>step successor i s r. \<not> clamped_start refs step successor i s"])
  fix f step successor i s r
  assume IH: "\<And>step successor i s r. f step successor i s = Some r \<Longrightarrow> \<not> clamped_start refs step successor i s"
    and body: "(case step i s of Inl e \<Rightarrow> Some (Inl e)
      | Inr s' \<Rightarrow> if fst s' = 0 then Some (Inr s')
          else (case successor i of None \<Rightarrow> Some (Inr s') | Some j \<Rightarrow> f step successor j s')) = Some r"
  show "\<not> clamped_start refs step successor i s"
  proof
    assume c: "clamped_start refs step successor i s"
    then have "f step successor i s = Some r"
      using body by (simp add: clamped_start_def clamped_walk_stays)
    from IH [OF this] c show False by simp
  qed
qed

lemma clamped_walk_never_ends:
  "bin_loop (swap_out_bin clamped_lb False refs) (next_non_empty_bin clamped_lb False) (- 1) (5, 0, 0) = None"
  using clamped_no_result [of "swap_out_bin clamped_lb False refs" "next_non_empty_bin clamped_lb False" "- 1" "(5, 0, 0)" _ refs]
  by (force simp: clamped_start_def)

end
