(* ===== verification/Erc4626.thy ===== *)
theory Erc4626
  imports Dex_Prelude Pool_Interface
begin

text \<open>
  \<^verbatim>\<open>src/erc4626/standard.rs\<close> and its wrapper \<^verbatim>\<open>src/erc4626/verio_ip.rs\<close>: a vault whose shares are
  priced by the ratio of its two reserves. \<^verbatim>\<open>VerioIP\<close> holds one field, the standard vault, and
  delegates to it, so both are this model.
\<close>

section \<open>State\<close>

record erc4626 =
  erc_address :: address
  erc_vault_token :: address
  erc_asset_token :: address
  erc_vault_reserve :: u256
  erc_asset_reserve :: u256
  erc_deposit_fee :: u32
  erc_withdraw_fee :: u32

definition FEE_DENOMINATOR :: u128 where
  "FEE_DENOMINATOR = 1000000"

definition erc_new :: "address \<Rightarrow> address \<Rightarrow> address \<Rightarrow> u256 \<Rightarrow> u256 \<Rightarrow> u32 \<Rightarrow> u32 \<Rightarrow> erc4626" where
  "erc_new address vault_token asset_token vault_reserve asset_reserve deposit_fee withdraw_fee =
     \<lparr>erc_address = address, erc_vault_token = vault_token, erc_asset_token = asset_token,
      erc_vault_reserve = vault_reserve, erc_asset_reserve = asset_reserve,
      erc_deposit_fee = deposit_fee, erc_withdraw_fee = withdraw_fee\<rparr>"

section \<open>Quotes\<close>

definition fee_factor :: "u32 \<Rightarrow> u256" where
  "fee_factor fee = ucast (FEE_DENOMINATOR - ucast fee)"

definition erc_calculate_output :: "erc4626 \<Rightarrow> address \<Rightarrow> u256 \<Rightarrow> u256 res" where
  "erc_calculate_output p token_in ain =
     (if ain = 0 then Ok 0
      else if erc_vault_reserve p = 0 then Ok ain
      else
        let (fee, reserve_in, reserve_out) =
              (if token_in = erc_vault_token p
               then (erc_withdraw_fee p, erc_vault_reserve p, erc_asset_reserve p)
               else (erc_deposit_fee p, erc_asset_reserve p, erc_vault_reserve p))
        in and_then (udiv (ain * reserve_out) reserve_in) (\<lambda>q.
             udiv (q * fee_factor fee) (ucast FEE_DENOMINATOR)))"

definition erc_calculate_input :: "erc4626 \<Rightarrow> address \<Rightarrow> u256 \<Rightarrow> u256 res" where
  "erc_calculate_input p token_out aout =
     (if aout = 0 then Ok 0
      else if erc_asset_reserve p = 0 then Ok aout
      else
        let (fee, reserve_in, reserve_out) =
              (if token_out = erc_vault_token p
               then (erc_withdraw_fee p, erc_vault_reserve p, erc_asset_reserve p)
               else (erc_deposit_fee p, erc_asset_reserve p, erc_vault_reserve p))
        in and_then (udiv (aout * reserve_in) reserve_out) (\<lambda>q.
             udiv (q * fee_factor fee) (ucast FEE_DENOMINATOR)))"

definition erc_apply_swap :: "address \<Rightarrow> u256 \<Rightarrow> u256 \<Rightarrow> erc4626 \<Rightarrow> erc4626 \<times> unit res" where
  "erc_apply_swap token_in ain aout p = (p, Err NotImplemented)"

definition erc_tokens :: "erc4626 \<Rightarrow> address \<times> address" where
  "erc_tokens p = (erc_vault_token p, erc_asset_token p)"

definition erc_fee_raw :: "erc4626 \<Rightarrow> u64" where
  "erc_fee_raw p = ucast (erc_deposit_fee p)"

definition erc_contains_token :: "erc4626 \<Rightarrow> address \<Rightarrow> bool" where
  "erc_contains_token p token \<longleftrightarrow> token = erc_vault_token p \<or> token = erc_asset_token p"

section \<open>Events\<close>

datatype erc_topic = TDeposit | TWithdraw

text \<open>\<^verbatim>\<open>Deposit\<close> and \<^verbatim>\<open>Withdraw\<close> carry the assets and the shares; the reserves wrap.\<close>

datatype erc_log =
    Deposit u256 u256
  | Withdraw u256 u256
  | ErcUndecodable erc_topic
  | ErcOther

fun erc_apply_log :: "erc_log \<Rightarrow> erc4626 \<Rightarrow> erc4626 \<times> unit res" where
  "erc_apply_log (Deposit assets shares) p =
     (p\<lparr>erc_vault_reserve := erc_vault_reserve p + shares, erc_asset_reserve := erc_asset_reserve p + assets\<rparr>, Ok ())"
| "erc_apply_log (Withdraw assets shares) p =
     (p\<lparr>erc_vault_reserve := erc_vault_reserve p - shares, erc_asset_reserve := erc_asset_reserve p - assets\<rparr>, Ok ())"
| "erc_apply_log (ErcUndecodable t) p = (p, Err DecodeFailed)"
| "erc_apply_log ErcOther p = (p, Ok ())"

definition erc_topics :: "erc_topic list" where
  "erc_topics = [TDeposit, TWithdraw]"

definition erc_profitable_topics :: "erc_topic list" where
  "erc_profitable_topics = [TDeposit, TWithdraw]"

definition erc_identity :: "erc4626 \<Rightarrow> address \<times> address \<times> address \<times> u32 \<times> u32" where
  "erc_identity p = (erc_address p, erc_vault_token p, erc_asset_token p, erc_deposit_fee p, erc_withdraw_fee p)"

interpretation erc: atomic_pool erc_apply_log erc_identity
proof
  show "erc_identity (fst (erc_apply_log l p)) = erc_identity p" for l p
    by (cases l) (simp_all add: erc_identity_def)
  show "p' = p" if "erc_apply_log l p = (p', Err e)" for l p p' e
    using that by (cases l) simp_all
qed

section \<open>Properties\<close>

definition erc_reserves :: "erc4626 \<Rightarrow> address \<Rightarrow> u32 \<times> u256 \<times> u256" where
  "erc_reserves p token_in =
     (if token_in = erc_vault_token p then (erc_withdraw_fee p, erc_vault_reserve p, erc_asset_reserve p)
      else (erc_deposit_fee p, erc_asset_reserve p, erc_vault_reserve p))"

lemma fee_factor_uint: "uint fee \<le> 1000000 \<Longrightarrow> uint (fee_factor fee) = 1000000 - uint fee"
proof -
  assume f: "uint fee \<le> 1000000"
  have u: "uint (ucast fee :: u128) = uint fee" by (rule uint_ucast_up) simp
  have "uint (FEE_DENOMINATOR - ucast fee) = 1000000 - uint fee"
    using f u by (subst uint_sub_exact) (simp_all add: word_le_def FEE_DENOMINATOR_def)
  moreover have "uint (fee_factor fee) = uint (FEE_DENOMINATOR - ucast fee)"
    unfolding fee_factor_def by (rule uint_ucast_up) simp
  ultimately show ?thesis by simp
qed

lemma erc_output_exact:
  assumes "ain \<noteq> 0" and "erc_vault_reserve p \<noteq> 0" and r: "erc_reserves p token_in = (fee, rin, rout)"
    and f: "uint fee \<le> 1000000" and rin: "rin \<noteq> 0"
    and s: "uint ain < 2 ^ 112" "uint rout < 2 ^ 112"
  shows "\<exists>out. erc_calculate_output p token_in ain = Ok out \<and>
    uint out = uint ain * uint rout div uint rin * (1000000 - uint fee) div 1000000"
proof -
  have "uint ain * uint rout \<le> 2 ^ 112 * 2 ^ 112" using s by (intro mult_mono) simp_all
  then have m2: "uint ain * uint rout \<le> 2 ^ 224" by simp
  then have m: "uint (ain * rout) = uint ain * uint rout" by (subst uint_mul_exact) simp_all
  have pos: "0 < uint rin" using rin by (rule uint_pos)
  let ?q = "uint ain * uint rout div uint rin"
  have q: "0 \<le> ?q" "?q \<le> uint ain * uint rout"
    using pos zdiv_mono2 [of "uint ain * uint rout" 1 "uint rin"] by (simp_all add: pos_imp_zdiv_nonneg_iff)
  have "?q * (1000000 - uint fee) \<le> 2 ^ 224 * 1000000"
    using q m2 f by (intro mult_mono) simp_all
  then have "uint (((ain * rout) div rin) * fee_factor fee) = ?q * (1000000 - uint fee)"
    using m f by (subst uint_mul_exact) (simp_all add: uint_div_distrib fee_factor_uint)
  then show ?thesis
    using assms(1,2) r rin
    by (auto simp: erc_calculate_output_def erc_reserves_def udiv_def FEE_DENOMINATOR_def uint_div_distrib split: if_splits)
qed

text \<open>With fees of at most 100% and amounts of at most 112 bits, an output quote of a funded vault never
  exceeds the proportional share of the reserve paid out, and loses at most the fee and two units of
  rounding.\<close>

theorem erc_output_share:
  assumes "ain \<noteq> 0" and "erc_vault_reserve p \<noteq> 0" and "erc_asset_reserve p \<noteq> 0"
    and "erc_reserves p token_in = (fee, rin, rout)"
    and "uint fee \<le> 1000000" and "uint ain < 2 ^ 112" "uint rout < 2 ^ 112"
  shows "\<exists>out. erc_calculate_output p token_in ain = Ok out \<and>
    uint out * uint rin \<le> uint ain * uint rout \<and>
    uint ain * uint rout * (1000000 - uint fee) < (uint out + 2) * (uint rin * 1000000)"
proof -
  have rin: "rin \<noteq> 0" using assms(2-4) by (auto simp: erc_reserves_def split: if_splits)
  then have pos: "0 < uint rin" by (rule uint_pos)
  let ?n = "uint ain * uint rout" and ?c = "1000000 - uint fee"
  let ?q = "?n div uint rin"
  obtain out where o: "erc_calculate_output p token_in ain = Ok out" "uint out = ?q * ?c div 1000000"
    using erc_output_exact [OF assms(1,2,4,5) rin assms(6,7)] by blast
  have q: "?q * uint rin \<le> ?n" "?n < (?q + 1) * uint rin" "0 \<le> ?q"
    using le_div_int [OF pos, of ?q ?n] div_le_int [OF pos, of ?n ?q] pos
    by (simp_all add: pos_imp_zdiv_nonneg_iff)
  have c: "0 \<le> ?c" "?c \<le> 1000000" using assms(5) by simp_all
  have d: "uint out * 1000000 \<le> ?q * ?c" "?q * ?c < (uint out + 1) * 1000000"
    using le_div_int [of 1000000 "uint out" "?q * ?c"] div_le_int [of 1000000 "?q * ?c" "uint out"] o(2) by simp_all
  have "?q * ?c \<le> ?q * 1000000" using q(3) c by (intro mult_left_mono) simp_all
  then have "uint out \<le> ?q" using d(1) by linarith
  then have "uint out * uint rin \<le> ?q * uint rin" using pos by (intro mult_right_mono) simp_all
  with q(1) have a: "uint out * uint rin \<le> ?n" by linarith
  have "?n * ?c \<le> (?q + 1) * uint rin * ?c" using q(2) c by (intro mult_right_mono) simp_all
  also have "\<dots> = (?q * ?c + ?c) * uint rin" by (simp add: algebra_simps)
  also have "\<dots> < ((uint out + 1) * 1000000 + 1000000) * uint rin"
    using d(2) c pos by (intro mult_strict_right_mono) linarith+
  also have "\<dots> = (uint out + 2) * (uint rin * 1000000)" by (simp add: algebra_simps)
  finally show ?thesis using o(1) a by blast
qed

definition sample_vault :: erc4626 where
  "sample_vault = erc_new 1 10 20 1000000 1500000 100 500"

theorem erc_output_share_witness:
  "\<exists>out. erc_calculate_output sample_vault 20 3000 = Ok out \<and> uint out * 1500000 \<le> 3000 * 1000000"
proof -
  have "erc_reserves sample_vault 20 = (100, 1500000, 1000000)"
    by (simp add: erc_reserves_def sample_vault_def erc_new_def)
  from erc_output_share [OF _ _ _ this, of 3000] show ?thesis by (auto simp: sample_vault_def erc_new_def)
qed

text \<open>
  The input quote swaps the two reserves and takes the fee off: for 1990 shares of a vault whose share is
  worth one and a half assets it asks for 1325 assets, which buy 882.
\<close>

lemma erc_input_insufficient:
  "erc_calculate_input sample_vault 10 1990 = Ok 1325 \<and> erc_calculate_output sample_vault 20 1325 = Ok 882"
  by (simp add: erc_calculate_input_def erc_calculate_output_def sample_vault_def erc_new_def udiv_def
      fee_factor_def FEE_DENOMINATOR_def)

end
