(* ===== verification/Block_Batches.thy ===== *)
theory Block_Batches
  imports Dex_Prelude
begin

text \<open>
  How the block sources (\<^verbatim>\<open>src/collector/block_source.rs\<close>) cut a range of blocks into the ranges
  \<^verbatim>\<open>eth_getLogs\<close> is asked for: \<^verbatim>\<open>catchup_batches\<close> of the websocket source and the loop of the latest-block
  source. Both have to visit every block exactly once, since applying a block's events twice, or not
  at all, leaves the pools wrong for good.
\<close>

section \<open>The websocket catch-up\<close>

lemma catchup_end:
  fixes start d :: u64
  assumes "start \<le> first_event_block"
  defines "e \<equiv> min (saturating_add start d) first_event_block"
  shows "uint start \<le> uint e" and "uint e \<le> uint first_event_block"
    and "e < first_event_block \<Longrightarrow> uint (e + 1) = uint e + 1"
proof -
  have s: "uint start \<le> uint (saturating_add start d)"
    using uint_less [of start] by (simp add: uint_saturating_add)
  show "uint start \<le> uint e" and l: "uint e \<le> uint first_event_block"
    using s assms(1) by (auto simp: e_def min_def word_le_def)
  show "uint (e + 1) = uint e + 1" if "e < first_event_block"
  proof (rule trans [OF uint_add_exact])
    show "uint e + uint (1 :: u64) < 2 ^ LENGTH(64)"
      using that uint_less [of first_event_block] by (simp add: word_less_def)
  qed simp
qed

function catchup_loop :: "u64 \<Rightarrow> u64 \<Rightarrow> u64 \<Rightarrow> (u64 \<times> u64) list" where
  "catchup_loop span first_event_block start =
     (if start \<le> first_event_block then
        let end_block = min (saturating_add start (span - 1)) first_event_block
        in (start, end_block) #
           (if first_event_block \<le> end_block then [] else catchup_loop span first_event_block (end_block + 1))
      else [])"
  by pat_completeness auto

termination
proof (relation "measure (\<lambda>(_, last, start). nat (uint last + 1 - uint start))")
  fix span first_event_block start x :: u64
  assume a: "start \<le> first_event_block"
    and x: "x = min (saturating_add start (span - 1)) first_event_block"
    and n: "\<not> first_event_block \<le> x"
  note e = catchup_end [OF a, of "span - 1", folded x]
  have "uint (x + 1) = uint x + 1" using e(3) n by (simp add: not_le)
  then show "((span, first_event_block, x + 1), span, first_event_block, start)
      \<in> measure (\<lambda>(_, last, start). nat (uint last + 1 - uint start))"
    using e(1) n by (simp add: word_le_def)
qed simp

declare catchup_loop.simps [simp del]

definition catchup_batches :: "u64 \<Rightarrow> u64 \<Rightarrow> u64 \<Rightarrow> (u64 \<times> u64) list" where
  "catchup_batches last_processed_block max_blocks_per_batch first_event_block =
     catchup_loop (max max_blocks_per_batch 1) first_event_block (saturating_add last_processed_block 1)"

section \<open>The latest-block source\<close>

text \<open>
  The loop ends at nothing but its condition, and a batch size of zero never advances it, so it is a
  partial function. The flag marks the batch of the single latest block.
\<close>

partial_function (option) latest_batches :: "u64 \<Rightarrow> u64 \<Rightarrow> u64 \<Rightarrow> (u64 \<times> u64 \<times> bool) list option" where
  "latest_batches max_blocks_per_batch latest_block current =
     (if current \<le> latest_block then
        let batch_end = min (current + max_blocks_per_batch - 1) latest_block;
            is_latest_single = (batch_end = latest_block \<and> current = batch_end)
        in Option.bind (latest_batches max_blocks_per_batch latest_block (batch_end + 1))
             (\<lambda>batches. Some ((current, batch_end, is_latest_single) # batches))
      else Some [])"

declare latest_batches.simps [code]

section \<open>Tiling\<close>

abbreviation blocks_of :: "(u64 \<times> u64) list \<Rightarrow> int list" where
  "blocks_of bs \<equiv> concat (map (\<lambda>(a, b). [uint a..uint b]) bs)"

lemma upto_join: "a \<le> m + 1 \<Longrightarrow> m \<le> b \<Longrightarrow> [a..m] @ [m + 1..b] = [a..b]" for a m b :: int
  using upto_split1 [of a "m + 1" b] by (cases "m = b") simp_all

lemma catchup_loop_tiles: "blocks_of (catchup_loop span first start) = [uint start..uint first]"
proof (induction span first start rule: catchup_loop.induct)
  case (1 span first start)
  show ?case
  proof (cases "start \<le> first")
    case True
    define e where "e = min (saturating_add start (span - 1)) first"
    note b = catchup_end [OF True, of "span - 1", folded e_def]
    show ?thesis
    proof (cases "first \<le> e")
      case True
      then have "e = first" using b(2) by (simp add: word_le_def word_eq_uint)
      then show ?thesis
        using \<open>start \<le> first\<close> by (simp add: catchup_loop.simps [of span first start] Let_def flip: e_def)
    next
      case False
      have n: "uint (e + 1) = uint e + 1" using b(3) False by (simp add: not_le)
      have "blocks_of (catchup_loop span first (e + 1)) = [uint (e + 1)..uint first]"
        using 1 [OF True _ False [unfolded e_def]] by (simp add: e_def)
      then show ?thesis
        using True False b(1,2) n upto_join [of "uint start" "uint e" "uint first"]
        by (simp add: catchup_loop.simps [of span first start] Let_def flip: e_def)
    qed
  next
    case False
    then show ?thesis by (simp add: catchup_loop.simps [of span first start] word_le_def)
  qed
qed

lemma catchup_loop_spans:
  "span \<noteq> 0 \<Longrightarrow> (a, b) \<in> set (catchup_loop span first start) \<Longrightarrow> a \<le> b \<and> uint b - uint a < uint span"
proof (induction span first start rule: catchup_loop.induct)
  case (1 span first start)
  show ?case
  proof (cases "start \<le> first")
    case True
    define e where "e = min (saturating_add start (span - 1)) first"
    note b = catchup_end [OF True, of "span - 1", folded e_def]
    have "1 \<le> span" using 1(2) by (simp add: word_le_def uint_pos int_one_le_iff_zero_less)
    then have "uint (span - 1) = uint span - 1" by (simp add: uint_sub_exact)
    then have "uint (saturating_add start (span - 1)) \<le> uint start + uint span - 1"
      by (simp add: uint_saturating_add)
    then have "uint e - uint start < uint span" by (auto simp: e_def min_def word_le_def)
    moreover have "(a, b) = (start, e) \<or> \<not> first \<le> e \<and> (a, b) \<in> set (catchup_loop span first (e + 1))"
      using 1(3) True by (auto simp: catchup_loop.simps [of span first start] Let_def e_def split: if_splits)
    ultimately show ?thesis
      using b(1) 1(1) [OF True e_def] 1(2) by (auto simp: word_le_def)
  next
    case False
    then show ?thesis using 1(3) by (simp add: catchup_loop.simps [of span first start])
  qed
qed

lemma latest_step:
  fixes current latest max_blocks :: u64
  assumes "current \<le> latest" and "0 < max_blocks" and "uint latest + uint max_blocks < 2 ^ 64"
  defines "e \<equiv> min (current + max_blocks - 1) latest"
  shows "uint current \<le> uint e" and "uint e \<le> uint latest" and "uint (e + 1) = uint e + 1"
    and "uint e - uint current < uint max_blocks"
proof -
  have c: "uint current \<le> uint latest" using assms(1) by (simp add: word_le_def)
  have m: "0 < uint max_blocks" using assms(2) by (simp add: word_less_def)
  have "uint current + uint max_blocks < 2 ^ LENGTH(64)" using c assms(3) by simp
  from uint_add_exact [OF this] have s: "uint (current + max_blocks) = uint current + uint max_blocks" .
  have "1 \<le> uint current + uint max_blocks" using m uint_ge_0 [of current] by linarith
  then have "1 \<le> current + max_blocks" by (simp add: word_le_def s)
  from uint_sub_exact [OF this] have u: "uint (current + max_blocks - 1) = uint current + uint max_blocks - 1"
    using s by simp
  show "uint current \<le> uint e" and l: "uint e \<le> uint latest" and "uint e - uint current < uint max_blocks"
    using u m c by (auto simp: e_def min_def word_le_def)
  show "uint (e + 1) = uint e + 1"
    by (rule trans [OF uint_add_exact]) (use l m assms(3) in simp_all)
qed

text \<open>Consecutive ranges: the first begins right after \<open>c\<close>, each next one right after the one before.\<close>

fun chained :: "u64 \<Rightarrow> (u64 \<times> u64 \<times> bool) list \<Rightarrow> bool" where
  "chained c [] = True"
| "chained c ((a, b, single) # bs) = (uint a = uint c + 1 \<and> a \<le> b \<and> chained b bs)"

lemma latest_batches_tile:
  assumes "0 < max_blocks" and "uint latest + uint max_blocks < 2 ^ 64" and "uint current = uint c + 1"
  shows "\<exists>bs. latest_batches max_blocks latest current = Some bs \<and> chained c bs \<and>
    blocks_of (map (\<lambda>(a, b, _). (a, b)) bs) = [uint current..uint latest] \<and>
    (\<forall>(a, b, single) \<in> set bs. a \<le> b \<and> uint b - uint a < uint max_blocks \<and> single = (a = latest \<and> b = latest))"
  using assms(3)
proof (induction "nat (uint latest + 1 - uint current)" arbitrary: current c rule: less_induct)
  case less
  show ?case
  proof (cases "current \<le> latest")
    case True
    define e where "e = min (current + max_blocks - 1) latest"
    note s = latest_step [OF True assms(1,2), folded e_def]
    have d: "nat (uint latest + 1 - uint (e + 1)) < nat (uint latest + 1 - uint current)"
      using s True by (simp add: word_le_def)
    obtain bs where bs: "latest_batches max_blocks latest (e + 1) = Some bs" "chained e bs"
        "blocks_of (map (\<lambda>(a, b, _). (a, b)) bs) = [uint (e + 1)..uint latest]"
        "\<forall>(a, b, single) \<in> set bs. a \<le> b \<and> uint b - uint a < uint max_blocks \<and> single = (a = latest \<and> b = latest)"
      using less(1) [OF d s(3)] by blast
    have ce: "current \<le> e" using s(1) by (simp add: word_le_def)
    have j: "[uint current..uint e] @ [uint e + 1..uint latest] = [uint current..uint latest]"
      using s(1,2) by (intro upto_join) simp_all
    let ?bs = "(current, e, e = latest \<and> current = e) # bs"
    have "latest_batches max_blocks latest current = Some ?bs"
      using True bs(1) by (simp add: latest_batches.simps [of max_blocks latest current] Let_def flip: e_def)
    moreover have "chained c ?bs" using less(2) ce bs(2) by simp
    moreover have "blocks_of (map (\<lambda>(a, b, _). (a, b)) ?bs) = [uint current..uint latest]"
      using bs(3) s(3) j by simp
    moreover have "\<forall>(a, b, single) \<in> set ?bs.
        a \<le> b \<and> uint b - uint a < uint max_blocks \<and> single = (a = latest \<and> b = latest)"
      using bs(4) ce s(4) by auto
    ultimately show ?thesis by blast
  next
    case False
    then show ?thesis
      by (simp add: latest_batches.simps [of max_blocks latest current] word_le_def)
  qed
qed

section \<open>Properties\<close>

text \<open>C23: the catch-up ranges visit every block after the cursor up to the first queued event's block exactly
  once and in order, in ranges of at most the configured size (of one block when that is zero),
  whatever the two block numbers are, the last 64-bit number as the cursor excepted.\<close>

theorem catchup_batches_tile:
  assumes "last_processed_block \<noteq> - 1"
  shows "blocks_of (catchup_batches last_processed_block max_blocks first) =
      [uint last_processed_block + 1..uint first] \<and>
    (\<forall>(a, b) \<in> set (catchup_batches last_processed_block max_blocks first).
      a \<le> b \<and> uint b - uint a < max (uint max_blocks) 1)"
proof -
  have "uint last_processed_block < 2 ^ 64 - 1"
    using assms uint_less [of last_processed_block] uint_max [where 'n = 64] by (simp add: word_eq_uint)
  then have s: "uint (saturating_add last_processed_block 1) = uint last_processed_block + 1"
    by (simp add: uint_saturating_add)
  have m: "max max_blocks 1 \<noteq> 0" "uint (max max_blocks 1) = max (uint max_blocks) 1"
    by (auto simp: max_def word_le_def)
  have t: "blocks_of (catchup_batches last_processed_block max_blocks first) = [uint last_processed_block + 1..uint first]"
    unfolding catchup_batches_def catchup_loop_tiles s ..
  have "a \<le> b \<and> uint b - uint a < max (uint max_blocks) 1"
    if "(a, b) \<in> set (catchup_batches last_processed_block max_blocks first)" for a b
    using catchup_loop_spans [OF m(1) that [unfolded catchup_batches_def]] unfolding m(2) .
  then show ?thesis using t by blast
qed

theorem catchup_batches_tile_witness:
  "blocks_of (catchup_batches 100 25 149) = [101..149]"
  using catchup_batches_tile [of 100 25 149] by simp



text \<open>The catch-up guards against a batch size of zero; the latest-block loop does not, and never ends with it.\<close>

lemma zero_batch_size_never_ends:
  assumes "current \<noteq> 0" and "current \<le> latest"
  shows "latest_batches 0 latest current = None"
proof -
  have "1 \<le> current" using assms(1) by (simp add: word_le_def uint_pos int_one_le_iff_zero_less)
  then have "min (current - 1) latest = current - 1"
    using assms(2) uint_sub_exact [of 1 current] by (auto simp: min_def word_le_def)
  then have "latest_batches 0 latest current =
      Option.bind (latest_batches 0 latest current) (\<lambda>bs. Some ((current, current - 1, False) # bs))"
    using assms(2) \<open>1 \<le> current\<close> by (subst latest_batches.simps) (simp add: Let_def)
  then show ?thesis by (cases "latest_batches 0 latest current") auto
qed

end
