(* ===== verification/Any_Pool.thy ===== *)
theory Any_Pool
  imports V2_Quotes V3_Liquidity LB_Quotes Erc4626
begin

text \<open>
  \<^verbatim>\<open>src/pool/base.rs\<close>: the traits every pool type implements, as one datatype over the four pool types and
  the dispatch of each trait method; and the log the RPC layer delivers (\<^verbatim>\<open>alloy::rpc::types::Log\<close>).
  A log carries its raw coordinates and, for each pool type, how that type's generated bindings
  decode it.
\<close>

section \<open>Logs\<close>

type_synonym topic = u256
type_synonym tx_hash = u256

record chain_log =
  log_address :: address
  log_topic0 :: "topic option"
  log_transaction_hash :: "tx_hash option"
  log_block_number :: "u64 option"
  log_transaction_index :: "u64 option"
  log_index :: "u64 option"
  log_block_timestamp :: "u64 option"
  log_removed :: bool
  log_v2 :: v2_log
  log_v3 :: v3_log
  log_lb :: lb_log
  log_erc :: erc_log

section \<open>Pools\<close>

datatype pool =
    PV2 v2_pool
  | PV3 v3_pool
  | PLB lb_pool
  | PVerio erc4626

datatype pool_type = TypeV2 | TypeV3 | TypeERC4626 | TypeLB

fun pool_type_of :: "pool \<Rightarrow> pool_type" where
  "pool_type_of (PV2 _) = TypeV2"
| "pool_type_of (PV3 _) = TypeV3"
| "pool_type_of (PLB _) = TypeLB"
| "pool_type_of (PVerio _) = TypeERC4626"

fun pool_address :: "pool \<Rightarrow> address" where
  "pool_address (PV2 p) = v2_address p"
| "pool_address (PV3 p) = v3_address p"
| "pool_address (PLB p) = lb_address p"
| "pool_address (PVerio p) = erc_address p"

fun pool_tokens :: "pool \<Rightarrow> address \<times> address" where
  "pool_tokens (PV2 p) = v2_tokens p"
| "pool_tokens (PV3 p) = (v3_token0 p, v3_token1 p)"
| "pool_tokens (PLB p) = lb_tokens p"
| "pool_tokens (PVerio p) = erc_tokens p"

definition pool_token0 :: "pool \<Rightarrow> address" where
  "pool_token0 p = fst (pool_tokens p)"

definition pool_token1 :: "pool \<Rightarrow> address" where
  "pool_token1 p = snd (pool_tokens p)"

fun pool_contains_token :: "pool \<Rightarrow> address \<Rightarrow> bool" where
  "pool_contains_token (PV2 p) t = v2_contains_token p t"
| "pool_contains_token (PV3 p) t = v3_contains_token p t"
| "pool_contains_token (PLB p) t = lb_contains_token p t"
| "pool_contains_token (PVerio p) t = erc_contains_token p t"

text \<open>The quotes; \<open>None\<close> is a loop that does not return, and \<open>now\<close> is what the LB pool reads off the clock.\<close>

fun pool_calculate_output :: "u64 \<Rightarrow> pool \<Rightarrow> address \<Rightarrow> u256 \<Rightarrow> u256 res option" where
  "pool_calculate_output now (PV2 p) t a = Some (v2_calculate_output p t a)"
| "pool_calculate_output now (PV3 p) t a = calculate_exact_input p t a"
| "pool_calculate_output now (PLB p) t a = lb_calculate_output p t a now"
| "pool_calculate_output now (PVerio p) t a = Some (erc_calculate_output p t a)"

fun pool_calculate_input :: "u64 \<Rightarrow> pool \<Rightarrow> address \<Rightarrow> u256 \<Rightarrow> u256 res option" where
  "pool_calculate_input now (PV2 p) t a = Some (v2_calculate_input p t a)"
| "pool_calculate_input now (PV3 p) t a = calculate_exact_output p t a"
| "pool_calculate_input now (PLB p) t a = lb_calculate_input p t a now"
| "pool_calculate_input now (PVerio p) t a = Some (erc_calculate_input p t a)"

text \<open>The time-aware variants default to the timeless ones; only the LB pool overrides them.\<close>

fun pool_calculate_output_at :: "u64 \<Rightarrow> pool \<Rightarrow> address \<Rightarrow> u256 \<Rightarrow> u64 \<Rightarrow> u256 res option" where
  "pool_calculate_output_at now (PLB p) t a timestamp = lb_calculate_output_at p t a timestamp"
| "pool_calculate_output_at now p t a timestamp = pool_calculate_output now p t a"

fun pool_calculate_input_at :: "u64 \<Rightarrow> pool \<Rightarrow> address \<Rightarrow> u256 \<Rightarrow> u64 \<Rightarrow> u256 res option" where
  "pool_calculate_input_at now (PLB p) t a timestamp = lb_calculate_input_at p t a timestamp"
| "pool_calculate_input_at now p t a timestamp = pool_calculate_input now p t a"

fun pool_apply_swap :: "u64 \<Rightarrow> address \<Rightarrow> u256 \<Rightarrow> u256 \<Rightarrow> pool \<Rightarrow> pool \<times> unit res" where
  "pool_apply_swap now t a b (PV2 p) = map_prod PV2 id (v2_apply_swap now t a b p)"
| "pool_apply_swap now t a b (PV3 p) = map_prod PV3 id (apply_swap_internal now t a b p)"
| "pool_apply_swap now t a b (PLB p) = map_prod PLB id (lb_apply_swap now t a b p)"
| "pool_apply_swap now t a b (PVerio p) = map_prod PVerio id (erc_apply_swap t a b p)"

fun pool_apply_log :: "u64 \<Rightarrow> chain_log \<Rightarrow> pool \<Rightarrow> pool \<times> unit res" where
  "pool_apply_log now l (PV2 p) = map_prod PV2 id (v2_apply_log now (log_v2 l) p)"
| "pool_apply_log now l (PV3 p) = map_prod PV3 id (v3_apply_log now (log_v3 l) p)"
| "pool_apply_log now l (PLB p) = map_prod PLB id (lb_apply_log now (log_block_timestamp l, log_lb l) p)"
| "pool_apply_log now l (PVerio p) = map_prod PVerio id (erc_apply_log (log_erc l) p)"

text \<open>The topics of a pool type; the hashes themselves come from the generated bindings.\<close>

datatype event_topic = V2Topic v2_topic | V3Topic v3_topic | LBTopic lb_topic | ErcTopic erc_topic

fun type_topics :: "pool_type \<Rightarrow> event_topic list" where
  "type_topics TypeV2 = map V2Topic v2_topics"
| "type_topics TypeV3 = map V3Topic v3_topics"
| "type_topics TypeERC4626 = map ErcTopic erc_topics"
| "type_topics TypeLB = map LBTopic lb_topics"

fun type_profitable_topics :: "pool_type \<Rightarrow> event_topic list" where
  "type_profitable_topics TypeV2 = map V2Topic v2_profitable_topics"
| "type_profitable_topics TypeV3 = map V3Topic v3_profitable_topics"
| "type_profitable_topics TypeERC4626 = map ErcTopic erc_profitable_topics"
| "type_profitable_topics TypeLB = map LBTopic lb_profitable_topics"

section \<open>The interface every pool type keeps\<close>

definition pool_identity :: "pool \<Rightarrow> pool_type \<times> address \<times> address \<times> address" where
  "pool_identity p = (pool_type_of p, pool_address p, pool_tokens p)"

lemma pool_log_identity: "pool_identity (fst (pool_apply_log now l p)) = pool_identity p"
proof (cases p)
  case (PV2 q)
  then show ?thesis
    using v2.identity_kept [of now "log_v2 l" q] by (simp add: pool_identity_def v2_identity_def v2_tokens_def)
next
  case (PV3 q)
  then show ?thesis
    using v3.identity_kept [of now "log_v3 l" q] by (simp add: pool_identity_def v3_identity_def)
next
  case (PLB q)
  then show ?thesis
    using lb.identity_kept [of now "(log_block_timestamp l, log_lb l)" q]
    by (simp add: pool_identity_def lb_identity_def lb_tokens_def)
next
  case (PVerio q)
  then show ?thesis
    using erc.identity_kept [of "log_erc l" q] by (simp add: pool_identity_def erc_identity_def erc_tokens_def)
qed

interpretation pool: event_pool "pool_apply_log now" pool_identity for now
  by unfold_locales (rule pool_log_identity)

lemma pool_log_address [simp]: "pool_address (fst (pool_apply_log now l p)) = pool_address p"
  using pool_log_identity [of now l p] by (simp add: pool_identity_def)

lemma pool_log_type [simp]: "pool_type_of (fst (pool_apply_log now l p)) = pool_type_of p"
  using pool_log_identity [of now l p] by (simp add: pool_identity_def)

text \<open>Every topic that can trigger a search is one the filter asks for.\<close>

lemma profitable_subset: "set (type_profitable_topics t) \<subseteq> set (type_topics t)"
  by (cases t) (auto simp: v2_topics_def v2_profitable_topics_def v3_topics_def v3_profitable_topics_def
      lb_topics_def lb_profitable_topics_def erc_topics_def erc_profitable_topics_def)

end
