(* ===== verification/Registry.thy ===== *)
theory Registry
  imports Any_Pool
begin

text \<open>
  \<^verbatim>\<open>src/registry.rs\<close>: the pools by address, the pools whose fee must be read, the cursor and the topic
  lists. The concurrent maps are sorted association lists here: their iteration order, which the
  source leaves open, is one particular order in the model, and no lemma about the consumers depends
  on it. A handle \<^verbatim>\<open>Arc<RwLock<..>>\<close> to a pool is the entry itself: a write through the handle is an
  update of the entry, and a \<^verbatim>\<open>try_read\<close> always succeeds (no writer at the same time).
\<close>

section \<open>State and operations\<close>

record registry =
  reg_pools :: "(address, pool) btree"
  reg_dynamic_fee :: "(address, unit) btree"
  reg_last_processed_block :: u64
  reg_topics :: "topic list"
  reg_profitable_topics :: "topic set"
  reg_network_id :: u64

definition registry_new :: "u64 \<Rightarrow> registry" where
  "registry_new network =
     \<lparr>reg_pools = [], reg_dynamic_fee = [], reg_last_processed_block = 0, reg_topics = [],
      reg_profitable_topics = {}, reg_network_id = network\<rparr>"

definition add_dynamic_fee_address :: "address \<Rightarrow> registry \<Rightarrow> registry" where
  "add_dynamic_fee_address a r = r\<lparr>reg_dynamic_fee := bt_insert a () (reg_dynamic_fee r)\<rparr>"

definition remove_dynamic_fee_address :: "address \<Rightarrow> registry \<Rightarrow> registry" where
  "remove_dynamic_fee_address a r = r\<lparr>reg_dynamic_fee := bt_remove a (reg_dynamic_fee r)\<rparr>"

definition get_dynamic_fee_addresses :: "registry \<Rightarrow> address list" where
  "get_dynamic_fee_addresses r = map fst (reg_dynamic_fee r)"

definition is_dynamic_fee_address :: "registry \<Rightarrow> address \<Rightarrow> bool" where
  "is_dynamic_fee_address r a \<longleftrightarrow> bt_get (reg_dynamic_fee r) a \<noteq> None"

definition set_network_id :: "u64 \<Rightarrow> registry \<Rightarrow> registry" where
  "set_network_id n r = r\<lparr>reg_network_id := n\<rparr>"

definition pool_count :: "registry \<Rightarrow> nat" where
  "pool_count r = length (reg_pools r)"

definition needs_reading :: "pool \<Rightarrow> bool" where
  "needs_reading p = (case p of PV3 v3 \<Rightarrow> fee_needs_reading v3 | _ \<Rightarrow> False)"

definition add_pool :: "pool \<Rightarrow> registry \<Rightarrow> registry" where
  "add_pool p r =
     (let a = pool_address p;
          r = (if needs_reading p then add_dynamic_fee_address a r else r)
      in r\<lparr>reg_pools := bt_insert a p (reg_pools r)\<rparr>)"

definition get_pool :: "registry \<Rightarrow> address \<Rightarrow> pool option" where
  "get_pool r a = bt_get (reg_pools r) a"

definition remove_pool :: "address \<Rightarrow> registry \<Rightarrow> registry \<times> pool option" where
  "remove_pool a r =
     (let removed = bt_get (reg_pools r) a;
          r = r\<lparr>reg_pools := bt_remove a (reg_pools r)\<rparr>
      in (if removed \<noteq> None then remove_dynamic_fee_address a r else r, removed))"

definition get_all_pools :: "registry \<Rightarrow> pool list" where
  "get_all_pools r = map snd (reg_pools r)"

definition get_pools_by_type :: "registry \<Rightarrow> pool_type \<Rightarrow> pool list" where
  "get_pools_by_type r t = map snd (filter (\<lambda>(_, p). pool_type_of p = t) (reg_pools r))"

definition get_v2_pools :: "registry \<Rightarrow> pool list" where
  "get_v2_pools r = get_pools_by_type r TypeV2"

definition get_v3_pools :: "registry \<Rightarrow> pool list" where
  "get_v3_pools r = get_pools_by_type r TypeV3"

definition get_addresses_by_type :: "registry \<Rightarrow> pool_type \<Rightarrow> address list" where
  "get_addresses_by_type r t = map fst (filter (\<lambda>(_, p). pool_type_of p = t) (reg_pools r))"

definition get_v2_addresses :: "registry \<Rightarrow> address list" where
  "get_v2_addresses r = get_addresses_by_type r TypeV2"

definition get_v3_addresses :: "registry \<Rightarrow> address list" where
  "get_v3_addresses r = get_addresses_by_type r TypeV3"

definition get_all_addresses :: "registry \<Rightarrow> address list" where
  "get_all_addresses r = map fst (reg_pools r)"

definition set_last_processed_block :: "u64 \<Rightarrow> registry \<Rightarrow> registry" where
  "set_last_processed_block n r = r\<lparr>reg_last_processed_block := n\<rparr>"

text \<open>The loop over the new topics pushes those not present yet.\<close>

definition push_topic :: "topic \<Rightarrow> topic list \<Rightarrow> topic list" where
  "push_topic t ts = (if t \<in> set ts then ts else ts @ [t])"

definition add_topics :: "topic list \<Rightarrow> registry \<Rightarrow> registry" where
  "add_topics ts r = r\<lparr>reg_topics := fold push_topic ts (reg_topics r)\<rparr>"

definition add_profitable_topics :: "topic list \<Rightarrow> registry \<Rightarrow> registry" where
  "add_profitable_topics ts r = r\<lparr>reg_profitable_topics := reg_profitable_topics r \<union> set ts\<rparr>"

text \<open>A write through a pool's handle: apply a log to the entry, when there is one.\<close>

definition apply_at :: "u64 \<Rightarrow> chain_log \<Rightarrow> registry \<Rightarrow> registry" where
  "apply_at now l r =
     (case get_pool r (log_address l) of
        None \<Rightarrow> r
      | Some p \<Rightarrow> r\<lparr>reg_pools := bt_insert (log_address l) (fst (pool_apply_log now l p)) (reg_pools r)\<rparr>)"

section \<open>What the operations do\<close>

named_theorems registry_simps "the registry's operations on its fields"

lemma add_topics_fields [registry_simps]:
  "reg_topics (add_topics ts r) = fold push_topic ts (reg_topics r)"
  "reg_pools (add_topics ts r) = reg_pools r" "reg_dynamic_fee (add_topics ts r) = reg_dynamic_fee r"
  by (simp_all add: add_topics_def)

lemma add_pool_fields [registry_simps]:
  "reg_pools (add_pool p r) = bt_insert (pool_address p) p (reg_pools r)"
  "reg_dynamic_fee (add_pool p r) =
     (if needs_reading p then bt_insert (pool_address p) () (reg_dynamic_fee r) else reg_dynamic_fee r)"
  "reg_topics (add_pool p r) = reg_topics r"
  by (simp_all add: add_pool_def add_dynamic_fee_address_def Let_def)

lemma remove_pool_fields [registry_simps]:
  "reg_pools (fst (remove_pool a r)) = bt_remove a (reg_pools r)"
  "reg_dynamic_fee (fst (remove_pool a r)) =
     (if bt_get (reg_pools r) a \<noteq> None then bt_remove a (reg_dynamic_fee r) else reg_dynamic_fee r)"
  "reg_topics (fst (remove_pool a r)) = reg_topics r"
  by (simp_all add: remove_pool_def remove_dynamic_fee_address_def Let_def)

lemma push_topics_set [simp]: "set (fold push_topic ts s) = set s \<union> set ts"
  by (induction ts arbitrary: s) (auto simp: push_topic_def)

lemma push_topics_distinct: "distinct s \<Longrightarrow> distinct (fold push_topic ts s)"
  by (induction ts arbitrary: s) (simp_all add: push_topic_def)

lemma push_topic_cases:
  "t \<in> set s \<Longrightarrow> push_topic t s = s" "t \<notin> set s \<Longrightarrow> push_topic t s = s @ [t]"
  by (simp_all add: push_topic_def)

lemma push_topics_prefix: "\<exists>zs. fold push_topic ts s = s @ zs"
proof (induction ts arbitrary: s)
  case (Cons t ts)
  obtain zs where "fold push_topic ts (push_topic t s) = push_topic t s @ zs" using Cons.IH by blast
  then show ?case by (cases "t \<in> set s") (auto simp: push_topic_cases)
qed simp

lemma push_topics_known: "set ts \<subseteq> set s \<Longrightarrow> fold push_topic ts s = s"
  by (induction ts arbitrary: s) (simp_all add: push_topic_def)

section \<open>Reachable registries\<close>

text \<open>Everything the crate does to a registry between its creation and its use.\<close>

inductive registry_step :: "registry \<Rightarrow> registry \<Rightarrow> bool" where
  add: "registry_step r (add_pool p r)"
| remove: "registry_step r (fst (remove_pool a r))"
| topics: "registry_step r (add_topics ts r)"
| profitable: "registry_step r (add_profitable_topics ts r)"
| cursor: "registry_step r (set_last_processed_block n r)"
| network: "registry_step r (set_network_id n r)"
| log: "registry_step r (apply_at now l r)"
| untrack: "registry_step r (remove_dynamic_fee_address a r)"
| track: "get_pool r a \<noteq> None \<Longrightarrow> registry_step r (add_dynamic_fee_address a r)"

inductive_cases registry_stepE: "registry_step r r'"

definition reg_inv :: "registry \<Rightarrow> bool" where
  "reg_inv r \<longleftrightarrow> bt_inv (reg_pools r) \<and> bt_inv (reg_dynamic_fee r) \<and> distinct (reg_topics r) \<and>
     (\<forall>a p. bt_get (reg_pools r) a = Some p \<longrightarrow> pool_address p = a) \<and>
     (\<forall>a. bt_get (reg_dynamic_fee r) a \<noteq> None \<longrightarrow> bt_get (reg_pools r) a \<noteq> None)"

lemma reg_inv_new: "reg_inv (registry_new n)"
  by (simp add: reg_inv_def registry_new_def bt_inv_def)

lemma apply_at_keys: "bt_inv (reg_pools r) \<Longrightarrow>
  bt_get (reg_pools (apply_at now l r)) a = (if a = log_address l then map_option (\<lambda>p. fst (pool_apply_log now l p)) (get_pool r a)
    else get_pool r a)"
  by (auto simp: apply_at_def get_pool_def bt_simps split: option.splits)

lemma apply_at_frame [simp]:
  "reg_dynamic_fee (apply_at now l r) = reg_dynamic_fee r" "reg_topics (apply_at now l r) = reg_topics r"
  "reg_last_processed_block (apply_at now l r) = reg_last_processed_block r"
  "reg_profitable_topics (apply_at now l r) = reg_profitable_topics r"
  "reg_network_id (apply_at now l r) = reg_network_id r"
  by (simp_all add: apply_at_def split: option.splits)

lemma apply_at_inv: "bt_inv (reg_pools r) \<Longrightarrow> bt_inv (reg_pools (apply_at now l r))"
  by (simp add: apply_at_def bt_simps split: option.splits)

lemma reg_inv_apply: "reg_inv r \<Longrightarrow> reg_inv (apply_at now l r)"
  by (auto simp: reg_inv_def apply_at_keys apply_at_inv get_pool_def split: if_splits)

lemma reg_inv_step: "registry_step r r' \<Longrightarrow> reg_inv r \<Longrightarrow> reg_inv r'"
proof (induction rule: registry_step.induct)
  case (add r p)
  then show ?case by (auto simp: reg_inv_def registry_simps bt_simps push_topics_distinct split: if_splits)
next
  case (remove r a)
  then show ?case by (auto simp: reg_inv_def registry_simps bt_simps split: if_splits)
qed (auto simp: reg_inv_apply, auto simp: reg_inv_def registry_simps push_topics_distinct bt_simps get_pool_def
    add_profitable_topics_def set_last_processed_block_def set_network_id_def
    remove_dynamic_fee_address_def add_dynamic_fee_address_def split: if_splits)

lemma reg_inv_reachable: "registry_step\<^sup>*\<^sup>* r r' \<Longrightarrow> reg_inv r \<Longrightarrow> reg_inv r'"
  by (induction rule: rtranclp_induct) (simp_all add: reg_inv_step)

section \<open>Properties\<close>


definition sample_registry :: registry where
  "sample_registry = add_topics [7, 8, 7] (add_pool (PV2 sample_pair) (add_pool (PLB sample_lb) (registry_new 14)))"


text \<open>Registering topics adds exactly the missing ones behind the ones already there, whose order does not
  change, and registering the same ones again changes nothing.\<close>

theorem add_topics_idempotent:
  shows "add_topics ts (add_topics ts r) = add_topics ts r \<and>
    set (reg_topics (add_topics ts r)) = set (reg_topics r) \<union> set ts \<and>
    take (length (reg_topics r)) (reg_topics (add_topics ts r)) = reg_topics r"
proof -
  obtain zs where "fold push_topic ts (reg_topics r) = reg_topics r @ zs" using push_topics_prefix by blast
  moreover have "fold push_topic ts (fold push_topic ts (reg_topics r)) = fold push_topic ts (reg_topics r)"
    by (rule push_topics_known) simp
  ultimately show ?thesis by (simp add: add_topics_def flip: push_topics_set)
qed

end
