(* ===== verification/Event_Queue.thy ===== *)
theory Event_Queue
  imports Any_Pool "HOL-Library.Product_Lexorder" "HOL-Library.Sublist"
begin

text \<open>
  \<^verbatim>\<open>src/collector/event_queue.rs\<close>: the queue the websocket listeners feed. The channel is a list in
  arrival order; its capacity only decides when a sender waits, so a send here is the step the
  sender takes once there is room. The recent events are a map with an order list beside it, as in
  the source. Positions in the chain (\<^verbatim>\<open>LogPosition\<close>, \<^verbatim>\<open>src/collector/block_source.rs\<close>) are triples
  ordered lexicographically.
\<close>

section \<open>Positions and gaps\<close>

type_synonym log_position = "u64 \<times> u64 \<times> u64"

definition position_of :: "chain_log \<Rightarrow> log_position option" where
  "position_of l =
     (case (log_block_number l, log_transaction_index l, log_index l) of
        (Some b, Some t, Some i) \<Rightarrow> Some (b, t, i)
      | _ \<Rightarrow> None)"

definition is_at_or_after :: "log_position \<Rightarrow> log_position \<Rightarrow> bool" where
  "is_at_or_after p boundary \<longleftrightarrow> boundary \<le> p"

record gap =
  gap_after :: "log_position option"
  gap_before :: log_position

section \<open>The queue\<close>

type_synonym event_key = "tx_hash \<times> u64"

definition BLOCK_TIMES_KEPT :: u64 where
  "BLOCK_TIMES_KEPT = 64"

record event_queue =
  q_channel :: "chain_log list"
  q_recent :: "(event_key, chain_log) btree"
  q_order :: "event_key list"
  q_block_times :: "(u64, u64) btree"
  q_gaps :: "gap list"
  q_max_events :: nat
  q_chain_id :: u64
  q_open :: bool

text \<open>The buffer size is the channel's capacity.\<close>

definition queue_new :: "nat \<Rightarrow> nat \<Rightarrow> u64 \<Rightarrow> event_queue" where
  "queue_new buffer_size max_events chain_id =
     \<lparr>q_channel = [], q_recent = [], q_order = [], q_block_times = [], q_gaps = [],
      q_max_events = max_events, q_chain_id = chain_id, q_open = True\<rparr>"

text \<open>Receiving: \<open>None\<close> while there is nothing to receive.\<close>

definition next_event :: "event_queue \<Rightarrow> (event_queue \<times> chain_log) option" where
  "next_event q = (case q_channel q of [] \<Rightarrow> None | l # ls \<Rightarrow> Some (q\<lparr>q_channel := ls\<rparr>, l))"

definition get_events_batch :: "nat \<Rightarrow> event_queue \<Rightarrow> (event_queue \<times> chain_log list) option" where
  "get_events_batch max_events q =
     (case q_channel q of
        [] \<Rightarrow> None
      | l # ls \<Rightarrow> Some (q\<lparr>q_channel := drop (max_events - 1) ls\<rparr>, l # take (max_events - 1) ls))"

definition get_all_available_events :: "event_queue \<Rightarrow> event_queue \<times> chain_log list" where
  "get_all_available_events q = (q\<lparr>q_channel := []\<rparr>, q_channel q)"

text \<open>\<open>arriving\<close> are the logs that come in during the batch timeout.\<close>

definition get_events_with_batching :: "chain_log list \<Rightarrow> event_queue \<Rightarrow> (event_queue \<times> chain_log list) option" where
  "get_events_with_batching arriving q =
     (case q_channel q of
        [] \<Rightarrow> None
      | l # ls \<Rightarrow> Some (q\<lparr>q_channel := []\<rparr>, l # ls @ arriving))"

definition has_event :: "event_queue \<Rightarrow> tx_hash \<Rightarrow> u64 \<Rightarrow> bool" where
  "has_event q h i \<longleftrightarrow> bt_get (q_recent q) (h, i) \<noteq> None"

definition known_block_times :: "event_queue \<Rightarrow> (u64, u64) btree" where
  "known_block_times q = q_block_times q"

definition take_gaps :: "event_queue \<Rightarrow> event_queue \<times> gap list" where
  "take_gaps q = (q\<lparr>q_gaps := []\<rparr>, q_gaps q)"

section \<open>Sending\<close>

definition record_block_time :: "u64 \<Rightarrow> u64 \<Rightarrow> event_queue \<Rightarrow> event_queue" where
  "record_block_time number timestamp q =
     (let times = bt_insert number timestamp (q_block_times q)
      in case last_key times of
           None \<Rightarrow> q
         | Some newest \<Rightarrow>
             let oldest_kept = saturating_sub (newest + 1) BLOCK_TIMES_KEPT
             in q\<lparr>q_block_times := dropWhile (\<lambda>(n, _). n < oldest_kept) times\<rparr>)"

definition note_gap :: "gap \<Rightarrow> event_queue \<Rightarrow> event_queue" where
  "note_gap g q = q\<lparr>q_gaps := q_gaps q @ [g]\<rparr>"

definition prune_oldest :: "event_queue \<Rightarrow> event_queue" where
  "prune_oldest q =
     (if length (q_recent q) \<ge> q_max_events q then
        (case q_order q of
           [] \<Rightarrow> q
         | old_key # rest \<Rightarrow> q\<lparr>q_order := rest, q_recent := bt_remove old_key (q_recent q)\<rparr>)
      else q)"

definition record_event :: "chain_log \<Rightarrow> event_queue \<Rightarrow> event_queue \<times> bool res" where
  "record_event l q =
     (case log_transaction_hash l of
        None \<Rightarrow> (q, Err MissingTransactionHash)
      | Some h \<Rightarrow>
          (case log_index l of
             None \<Rightarrow> (q, Err MissingLogIndex)
           | Some i \<Rightarrow>
               let key = (h, i) in
               if bt_get (q_recent q) key \<noteq> None then (q, Ok False)
               else let q = prune_oldest q
                    in (q\<lparr>q_recent := bt_insert key l (q_recent q), q_order := q_order q @ [key]\<rparr>, Ok True)))"

definition send :: "chain_log \<Rightarrow> event_queue \<Rightarrow> event_queue \<times> unit res" where
  "send l q =
     (case record_event l q of
        (q, Inl e) \<Rightarrow> (q, Inl e)
      | (q, Inr False) \<Rightarrow> (q, Ok ())
      | (q, Inr True) \<Rightarrow>
          if q_open q then (q\<lparr>q_channel := q_channel q @ [l]\<rparr>, Ok ()) else (q, Err ChannelClosed))"

definition claim :: "chain_log \<Rightarrow> event_queue \<Rightarrow> event_queue \<times> bool res" where
  "claim l q = record_event l q"

section \<open>What the recent events are\<close>

lemma bt_keys_remove: "bt_inv m \<Longrightarrow> fst ` set (bt_remove k m) = fst ` set m - {k}"
  using bt_keys_get [of m] bt_keys_get [of "bt_remove k m"]
  by (intro set_eqI) (simp add: bt_inv_remove bt_get_remove)

definition key_of :: "chain_log \<Rightarrow> event_key" where
  "key_of l = (the (log_transaction_hash l), the (log_index l))"

definition keyed :: "chain_log \<Rightarrow> bool" where
  "keyed l \<longleftrightarrow> log_transaction_hash l \<noteq> None \<and> log_index l \<noteq> None"

text \<open>The last \<open>n\<close> of a list.\<close>

definition window :: "nat \<Rightarrow> 'a list \<Rightarrow> 'a list" where
  "window n xs = drop (length xs - n) xs"

text \<open>After recording the keys \<open>ks\<close>, the order list holds the last of them, and the map exactly those.\<close>

definition queue_inv :: "event_queue \<Rightarrow> event_key list \<Rightarrow> bool" where
  "queue_inv q ks \<longleftrightarrow> 0 < q_max_events q \<and> bt_inv (q_recent q) \<and>
     q_order q = window (q_max_events q) ks \<and> distinct (window (q_max_events q) ks) \<and>
     fst ` set (q_recent q) = set (window (q_max_events q) ks)"

lemma queue_inv_new: "0 < n \<Longrightarrow> queue_inv (queue_new b n c) []"
  by (simp add: queue_inv_def queue_new_def window_def bt_inv_def)

lemma recent_iff: "queue_inv q ks \<Longrightarrow> bt_get (q_recent q) k \<noteq> None \<longleftrightarrow> k \<in> set (window (q_max_events q) ks)"
  using bt_keys_get [of "q_recent q" k] by (simp add: queue_inv_def)

lemma recent_length:
  assumes "queue_inv q ks"
  shows "length (q_recent q) = length (window (q_max_events q) ks)"
proof -
  have d: "distinct (map fst (q_recent q))" "distinct (window (q_max_events q) ks)"
    using assms bt.entries_distinct [of "q_recent q"] by (simp_all add: queue_inv_def)
  have "set (map fst (q_recent q)) = set (window (q_max_events q) ks)"
    using assms by (simp add: queue_inv_def)
  then show ?thesis using d by (metis distinct_card length_map)
qed

lemma window_snoc: "0 < n \<Longrightarrow> window n (ks @ [k]) = (if n \<le> length ks then tl (window n ks) else ks) @ [k]"
  by (simp add: window_def Suc_diff_le drop_Suc tl_drop)

lemma window_all: "length ks < n \<Longrightarrow> window n ks = ks"
  by (simp add: window_def)

lemma prune_inv:
  assumes inv: "queue_inv q ks" and new: "k \<notin> set (window (q_max_events q) ks)"
  shows "bt_inv (q_recent (prune_oldest q)) \<and> q_order (prune_oldest q) @ [k] = window (q_max_events q) (ks @ [k]) \<and>
    distinct (window (q_max_events q) (ks @ [k])) \<and>
    insert k (fst ` set (q_recent (prune_oldest q))) = set (window (q_max_events q) (ks @ [k]))"
proof -
  let ?n = "q_max_events q"
  have n: "0 < ?n" and o: "q_order q = window ?n ks" and m: "bt_inv (q_recent q)"
    and d: "distinct (window ?n ks)" and g: "fst ` set (q_recent q) = set (window ?n ks)"
    using inv by (simp_all add: queue_inv_def)
  have l: "length (q_recent q) = min (length ks) ?n"
    using recent_length [OF inv] by (simp add: window_def)
  show ?thesis
  proof (cases "?n \<le> length ks")
    case True
    then have "window ?n ks \<noteq> []" using n by (auto simp: window_def)
    then obtain old rest where r: "window ?n ks = old # rest" by (cases "window ?n ks") auto
    have p: "prune_oldest q = q\<lparr>q_order := rest, q_recent := bt_remove old (q_recent q)\<rparr>"
      using True l r o by (simp add: prune_oldest_def)
    have w: "window ?n (ks @ [k]) = rest @ [k]" using window_snoc [OF n, of ks k] True r by simp
    show ?thesis
      unfolding p w using m d g r new by (auto simp: bt_inv_remove bt_keys_remove)
  next
    case False
    then have p: "prune_oldest q = q" using l by (simp add: prune_oldest_def)
    have w: "window ?n ks = ks" "window ?n (ks @ [k]) = ks @ [k]"
      using window_snoc [OF n, of ks k] window_all [of ks ?n] False by simp_all
    show ?thesis unfolding p w(2) using m d g new o w(1) by simp
  qed
qed

lemma prune_frame [simp]:
  "q_max_events (prune_oldest q) = q_max_events q" "q_channel (prune_oldest q) = q_channel q"
  "q_open (prune_oldest q) = q_open q"
  by (simp_all add: prune_oldest_def split: list.splits)

lemma record_known:
  assumes "queue_inv q ks" and "keyed l" and "key_of l \<in> set (window (q_max_events q) ks)"
  shows "record_event l q = (q, Ok False)"
  using assms recent_iff [OF assms(1), of "key_of l"] by (auto simp: record_event_def keyed_def key_of_def)

lemma record_fresh:
  assumes inv: "queue_inv q ks" and k: "keyed l" and new: "key_of l \<notin> set (window (q_max_events q) ks)"
  shows "\<exists>q'. record_event l q = (q', Ok True) \<and> queue_inv q' (ks @ [key_of l]) \<and>
    q_channel q' = q_channel q \<and> q_max_events q' = q_max_events q \<and> q_open q' = q_open q"
proof -
  note p = prune_inv [OF inv new]
  have r: "record_event l q =
      ((prune_oldest q)\<lparr>q_recent := bt_insert (key_of l) l (q_recent (prune_oldest q)),
        q_order := q_order (prune_oldest q) @ [key_of l]\<rparr>, Ok True)"
    using recent_iff [OF inv, of "key_of l"] k new by (auto simp: record_event_def keyed_def key_of_def Let_def)
  have "0 < q_max_events q" using inv by (simp add: queue_inv_def)
  with p show ?thesis unfolding r by (simp add: queue_inv_def bt_inv_insert bt_keys_insert)
qed

section \<open>A run of sends\<close>

fun send_all :: "chain_log list \<Rightarrow> event_queue \<Rightarrow> event_queue" where
  "send_all [] q = q"
| "send_all (l # ls) q = send_all ls (fst (send l q))"

text \<open>What a deduplicating queue of window \<open>n\<close> promises: skip a log whose key is among the last \<open>n\<close> accepted.\<close>

fun accepted :: "nat \<Rightarrow> chain_log list \<Rightarrow> chain_log list \<Rightarrow> chain_log list" where
  "accepted n sent [] = sent"
| "accepted n sent (l # ls) =
     (if key_of l \<in> set (window n (map key_of sent)) then accepted n sent ls else accepted n (sent @ [l]) ls)"

lemma send_inv:
  assumes inv: "queue_inv q (map key_of (q_channel q))" and o: "q_open q" and k: "keyed l"
  defines "q' \<equiv> fst (send l q)"
  shows "queue_inv q' (map key_of (q_channel q'))" and "q_open q'" and "q_max_events q' = q_max_events q"
    and "q_channel q' = (if key_of l \<in> set (window (q_max_events q) (map key_of (q_channel q)))
      then q_channel q else q_channel q @ [l])"
proof -
  have "queue_inv q' (map key_of (q_channel q')) \<and> q_open q' \<and> q_max_events q' = q_max_events q \<and>
    q_channel q' = (if key_of l \<in> set (window (q_max_events q) (map key_of (q_channel q)))
      then q_channel q else q_channel q @ [l])"
  proof (cases "key_of l \<in> set (window (q_max_events q) (map key_of (q_channel q)))")
    case True
    then show ?thesis using record_known [OF inv k True] inv o by (simp add: send_def q'_def)
  next
    case False
    obtain p where p: "record_event l q = (p, Ok True)" "queue_inv p (map key_of (q_channel q) @ [key_of l])"
      "q_channel p = q_channel q" "q_max_events p = q_max_events q" "q_open p = q_open q"
      using record_fresh [OF inv k False] by blast
    have "q' = p\<lparr>q_channel := q_channel q @ [l]\<rparr>" using p o by (simp add: send_def q'_def)
    then show ?thesis using p False o by (simp add: queue_inv_def)
  qed
  then show "queue_inv q' (map key_of (q_channel q'))" and "q_open q'" and "q_max_events q' = q_max_events q"
    and "q_channel q' = (if key_of l \<in> set (window (q_max_events q) (map key_of (q_channel q)))
      then q_channel q else q_channel q @ [l])" by blast+
qed

lemma send_all_accepted:
  assumes "queue_inv q (map key_of (q_channel q))" and "q_open q" and "\<forall>l \<in> set ls. keyed l"
  shows "q_channel (send_all ls q) = accepted (q_max_events q) (q_channel q) ls \<and>
    length (q_recent (send_all ls q)) \<le> q_max_events q"
  using assms
proof (induction ls arbitrary: q)
  case Nil
  then show ?case using recent_length [OF Nil(1)] by (simp add: window_def)
next
  case (Cons l ls)
  have k: "keyed l" using Cons.prems(3) by simp
  note s = send_inv [OF Cons.prems(1,2) k]
  show ?case using Cons.IH [OF s(1,2)] Cons.prems(3) s(3,4) by simp
qed

lemma accepted_keeps: "\<exists>zs. accepted n sent ls = sent @ zs \<and> subseq zs ls"
proof (induction ls arbitrary: sent)
  case (Cons l ls)
  obtain zs where a: "accepted n sent ls = sent @ zs" "subseq zs ls" using Cons.IH [of sent] by blast
  obtain ws where b: "accepted n (sent @ [l]) ls = (sent @ [l]) @ ws" "subseq ws ls" using Cons.IH [of "sent @ [l]"] by blast
  show ?case using a b by auto
qed simp

lemma subseq_subset: "subseq xs ys \<Longrightarrow> set xs \<subseteq> set ys"
  by (induction rule: list_emb.induct) auto

lemma accepted_all: "key_of ` set ls \<subseteq> key_of ` set (accepted n sent ls)"
proof (induction ls arbitrary: sent)
  case (Cons l ls)
  have "key_of l \<in> key_of ` set (accepted n sent (l # ls))"
  proof (cases "key_of l \<in> set (window n (map key_of sent))")
    case True
    then have "key_of l \<in> key_of ` set sent" using in_set_dropD by (fastforce simp: window_def)
    then show ?thesis using accepted_keeps [of n sent ls] True by auto
  next
    case False
    then show ?thesis using accepted_keeps [of n "sent @ [l]" ls] by auto
  qed
  then show ?case using Cons.IH by auto
qed simp

text \<open>Two entries with the same key lie more than the window apart.\<close>

definition spaced :: "nat \<Rightarrow> 'a list \<Rightarrow> bool" where
  "spaced n ks \<longleftrightarrow> (\<forall>i j. i < j \<and> j < length ks \<and> ks ! i = ks ! j \<longrightarrow> n < j - i)"

lemma spaced_snoc: "spaced n ks \<Longrightarrow> k \<notin> set (window n ks) \<Longrightarrow> spaced n (ks @ [k])"
proof -
  assume s: "spaced n ks" and k: "k \<notin> set (window n ks)"
  have far: "n < length ks - i" if "i < length ks" "ks ! i = k" for i
  proof (rule ccontr)
    assume "\<not> n < length ks - i"
    then have "length ks - n \<le> i" by simp
    then have "window n ks ! (i - (length ks - n)) = k" "i - (length ks - n) < length (window n ks)"
      using that by (auto simp: window_def)
    then show False using k nth_mem by blast
  qed
  show ?thesis
    unfolding spaced_def using s far by (auto simp: spaced_def nth_append less_Suc_eq)
qed

lemma accepted_spaced: "spaced n (map key_of sent) \<Longrightarrow> spaced n (map key_of (accepted n sent ls))"
  by (induction ls arbitrary: sent) (simp_all add: spaced_snoc)

section \<open>Properties\<close>


definition sample_log :: "tx_hash \<Rightarrow> u64 \<Rightarrow> u64 \<Rightarrow> chain_log" where
  "sample_log h b i =
     \<lparr>log_address = 1, log_topic0 = Some 7, log_transaction_hash = Some h, log_block_number = Some b,
      log_transaction_index = Some 0, log_index = Some i, log_block_timestamp = None, log_removed = False,
      log_v2 = V2SyncUint256 (ucast i) (ucast b), log_v3 = V3Other, log_lb = LBOther, log_erc = ErcOther\<rparr>"


lemma block_times_recent:
  assumes "bt_inv (q_block_times q)"
  shows "bt_inv (q_block_times (record_block_time n t q))"
proof -
  have "bt_inv (dropWhile P (bt_insert n t (q_block_times q)))" for P
  proof -
    have "sorted_wrt (<) (map fst (bt_insert n t (q_block_times q)))"
      using bt_inv_insert [OF assms, of n t] by (simp add: bt_inv_def)
    moreover obtain k where "dropWhile P (bt_insert n t (q_block_times q)) = drop k (bt_insert n t (q_block_times q))"
      using dropWhile_eq_drop by blast
    ultimately show ?thesis by (simp add: bt_inv_def drop_map [symmetric] sorted_wrt_drop)
  qed
  then show ?thesis using assms by (simp add: record_block_time_def Let_def split: option.splits)
qed

end
