(* ===== verification/Timestamps.thy ===== *)
theory Timestamps
  imports Registry Event_Queue
begin

text \<open>
  \<^verbatim>\<open>src/collector/utils.rs\<close> and \<^verbatim>\<open>enrich_if_lb_pools_present\<close> of \<^verbatim>\<open>src/collector/block_source.rs\<close>: the block
  times of the logs an LB pool reads. The node's answers to a header request are a parameter: \<open>header n k\<close>
  is the answer to attempt \<open>k\<close> for block \<open>n\<close>, with \<open>Ok None\<close> for no block. The block times are the
  sorted maps of the other components; sleeping between attempts and the warning are left out.
\<close>

section \<open>Which blocks are needed\<close>

definition HEADER_FETCH_ATTEMPTS :: nat where
  "HEADER_FETCH_ATTEMPTS = 3"

definition lacks_block_timestamp :: "chain_log \<Rightarrow> bool" where
  "lacks_block_timestamp l = (case log_block_timestamp l of None \<Rightarrow> True | Some t \<Rightarrow> t = 0)"

text \<open>The numbers go through an ordered set: ascending, each once.\<close>

definition blocks_needing_timestamps ::
    "chain_log list \<Rightarrow> (chain_log \<Rightarrow> bool) \<Rightarrow> (u64, u64) btree \<Rightarrow> u64 list" where
  "blocks_needing_timestamps ls wanted known =
     map fst (fold (\<lambda>n. bt_insert n ())
       (filter (\<lambda>n. bt_get known n = None)
         (List.map_filter log_block_number (filter (\<lambda>l. wanted l \<and> lacks_block_timestamp l) ls))) [])"

definition fill_block_timestamp :: "(chain_log \<Rightarrow> bool) \<Rightarrow> (u64, u64) btree \<Rightarrow> chain_log \<Rightarrow> chain_log" where
  "fill_block_timestamp wanted dates l =
     (if wanted l \<and> lacks_block_timestamp l then
        (case log_block_number l of
           None \<Rightarrow> l
         | Some n \<Rightarrow> (case bt_get dates n of None \<Rightarrow> l | Some t \<Rightarrow> l\<lparr>log_block_timestamp := Some t\<rparr>))
      else l)"

definition fill_block_timestamps ::
    "chain_log list \<Rightarrow> (chain_log \<Rightarrow> bool) \<Rightarrow> (u64, u64) btree \<Rightarrow> chain_log list" where
  "fill_block_timestamps ls wanted dates = map (fill_block_timestamp wanted dates) ls"

section \<open>Fetching\<close>

type_synonym header_rpc = "u64 \<Rightarrow> nat \<Rightarrow> u64 option res"

text \<open>One header, from attempt \<open>k\<close> with \<open>left\<close> attempts to go.\<close>

fun fetch_header :: "(nat \<Rightarrow> u64 option res) \<Rightarrow> nat \<Rightarrow> nat \<Rightarrow> u64 option" where
  "fetch_header answer k 0 = None"
| "fetch_header answer k (Suc left) =
     (case answer k of Inr (Some t) \<Rightarrow> Some t | _ \<Rightarrow> fetch_header answer (Suc k) left)"

definition fetch_block_timestamps :: "header_rpc \<Rightarrow> u64 list \<Rightarrow> (u64, u64) btree" where
  "fetch_block_timestamps header ns =
     fold (\<lambda>n m. case fetch_header (header n) 1 HEADER_FETCH_ATTEMPTS of None \<Rightarrow> m | Some t \<Rightarrow> bt_insert n t m) ns []"

text \<open>\<^verbatim>\<open>times.extend(..)\<close>: what was fetched takes the place of what was known.\<close>

definition extend :: "(u64, u64) btree \<Rightarrow> (u64, u64) btree \<Rightarrow> (u64, u64) btree" where
  "extend known new = fold (\<lambda>(n, t). bt_insert n t) new known"

definition enrich_log_timestamps_where ::
    "header_rpc \<Rightarrow> chain_log list \<Rightarrow> (chain_log \<Rightarrow> bool) \<Rightarrow> (u64, u64) btree \<Rightarrow> chain_log list" where
  "enrich_log_timestamps_where header ls wanted known =
     (let to_fetch = blocks_needing_timestamps ls wanted known;
          dates = (if to_fetch = [] then known else extend known (fetch_block_timestamps header to_fetch))
      in fill_block_timestamps ls wanted dates)"

definition enrich_log_timestamps :: "header_rpc \<Rightarrow> chain_log list \<Rightarrow> chain_log list" where
  "enrich_log_timestamps header ls = enrich_log_timestamps_where header ls (\<lambda>_. True) []"

definition enrich_if_lb_pools_present ::
    "header_rpc \<Rightarrow> registry \<Rightarrow> chain_log list \<Rightarrow> (u64, u64) btree \<Rightarrow> chain_log list" where
  "enrich_if_lb_pools_present header r ls known =
     (let lb = get_addresses_by_type r TypeLB
      in if lb = [] then ls
         else enrich_log_timestamps_where header ls (\<lambda>l. log_address l \<in> set lb) known)"

section \<open>The maps of times\<close>

lemma bt_keys_inserts: "fst ` set (fold (\<lambda>n. bt_insert n ()) ns m) = set ns \<union> fst ` set m"
  by (induction ns arbitrary: m) (auto simp: bt_keys_insert)

lemma bt_inv_inserts: "bt_inv m \<Longrightarrow> bt_inv (fold (\<lambda>n. bt_insert n ()) ns m)"
  by (induction ns arbitrary: m) (simp_all add: bt_simps)

lemma set_map_filter: "y \<in> set (List.map_filter f xs) \<longleftrightarrow> (\<exists>x \<in> set xs. f x = Some y)"
  by (induction xs) (auto split: option.splits)

lemma needed_set:
  "n \<in> set (blocks_needing_timestamps ls wanted known) \<longleftrightarrow>
     bt_get known n = None \<and> (\<exists>l \<in> set ls. wanted l \<and> lacks_block_timestamp l \<and> log_block_number l = Some n)"
proof -
  have "set (blocks_needing_timestamps ls wanted known) = set (filter (\<lambda>n. bt_get known n = None)
      (List.map_filter log_block_number (filter (\<lambda>l. wanted l \<and> lacks_block_timestamp l) ls)))"
    unfolding blocks_needing_timestamps_def set_map bt_keys_inserts by simp
  then show ?thesis by (auto simp: set_map_filter)
qed

lemma needed_sorted: "sorted_wrt (<) (blocks_needing_timestamps ls wanted known)"
  using bt_inv_inserts [of "[]" "filter (\<lambda>n. bt_get known n = None)
      (List.map_filter log_block_number (filter (\<lambda>l. wanted l \<and> lacks_block_timestamp l) ls))"]
  by (simp add: blocks_needing_timestamps_def bt_inv_def)

abbreviation fetched_time :: "header_rpc \<Rightarrow> u64 \<Rightarrow> u64 option" where
  "fetched_time header n \<equiv> fetch_header (header n) 1 HEADER_FETCH_ATTEMPTS"

lemma fetched_map:
  "bt_inv m \<Longrightarrow>
   bt_inv (fold (\<lambda>n m. case fetched_time header n of None \<Rightarrow> m | Some t \<Rightarrow> bt_insert n t m) ns m) \<and>
   bt_get (fold (\<lambda>n m. case fetched_time header n of None \<Rightarrow> m | Some t \<Rightarrow> bt_insert n t m) ns m) k =
     (if k \<in> set ns \<and> fetched_time header k \<noteq> None then fetched_time header k else bt_get m k)"
proof (induction ns arbitrary: m)
  case (Cons n ns)
  then show ?case by (cases "fetched_time header n") (auto simp: bt_simps)
qed simp

lemma bt_get_fetched:
  "bt_inv (fetch_block_timestamps header ns)"
  "bt_get (fetch_block_timestamps header ns) k = (if k \<in> set ns then fetched_time header k else None)"
proof -
  have e: "bt_inv ([] :: (u64, u64) btree)" by (simp add: bt_inv_def)
  note f = fetched_map [OF e, of header ns]
  show "bt_inv (fetch_block_timestamps header ns)" using f by (simp add: fetch_block_timestamps_def)
  show "bt_get (fetch_block_timestamps header ns) k = (if k \<in> set ns then fetched_time header k else None)"
    using f [of k] by (auto simp: fetch_block_timestamps_def)
qed

lemma bt_get_extend:
  assumes "bt_inv known" and "bt_inv new"
  shows "bt_get (extend known new) k = (case bt_get new k of None \<Rightarrow> bt_get known k | Some t \<Rightarrow> Some t)"
  using assms unfolding extend_def
proof (induction new arbitrary: known)
  case (Cons e new)
  obtain j t where e: "e = (j, t)" by fastforce
  have i: "bt_inv new" "\<forall>k \<in> fst ` set new. j < k" using Cons.prems(2) e by (simp_all add: bt_inv_Cons)
  have "bt_get new j = None" by (rule bt_get_below) (use i(2) in force)
  moreover have "k < j \<Longrightarrow> bt_get new k = None" by (rule bt_get_below) (use i(2) in force)
  ultimately show ?case
    using Cons.IH [OF bt_inv_insert [OF Cons.prems(1)] i(1), of j t] Cons.prems(1)
    by (auto simp: e bt_simps split: option.splits)
qed simp

text \<open>The times the logs are filled from.\<close>

definition times_for :: "header_rpc \<Rightarrow> chain_log list \<Rightarrow> (chain_log \<Rightarrow> bool) \<Rightarrow> (u64, u64) btree \<Rightarrow> (u64, u64) btree" where
  "times_for header ls wanted known =
     (let to_fetch = blocks_needing_timestamps ls wanted known
      in if to_fetch = [] then known else extend known (fetch_block_timestamps header to_fetch))"

lemma enrich_times: "enrich_log_timestamps_where header ls wanted known =
    map (fill_block_timestamp wanted (times_for header ls wanted known)) ls"
  by (simp add: enrich_log_timestamps_where_def times_for_def fill_block_timestamps_def Let_def)

lemma bt_get_times:
  assumes "bt_inv known"
  shows "bt_get (times_for header ls wanted known) n =
    (if n \<in> set (blocks_needing_timestamps ls wanted known) then fetched_time header n else bt_get known n)"
  using assms needed_set [of n ls wanted known]
  by (auto simp: times_for_def Let_def bt_get_extend bt_get_fetched split: option.splits)

text \<open>The time a log ends up with, by the log alone.\<close>

definition stamped :: "header_rpc \<Rightarrow> (u64, u64) btree \<Rightarrow> (chain_log \<Rightarrow> bool) \<Rightarrow> chain_log \<Rightarrow> chain_log" where
  "stamped header known wanted l =
     (if wanted l \<and> lacks_block_timestamp l then
        (case log_block_number l of
           None \<Rightarrow> l
         | Some n \<Rightarrow>
             (case (case bt_get known n of Some t \<Rightarrow> Some t | None \<Rightarrow> fetched_time header n) of
                None \<Rightarrow> l | Some t \<Rightarrow> l\<lparr>log_block_timestamp := Some t\<rparr>))
      else l)"

lemma fill_stamped:
  assumes "bt_inv known" and "l \<in> set ls"
  shows "fill_block_timestamp wanted (times_for header ls wanted known) l = stamped header known wanted l"
proof (cases "wanted l \<and> lacks_block_timestamp l")
  case True
  show ?thesis
  proof (cases "log_block_number l")
    case (Some n)
    have "bt_get (times_for header ls wanted known) n =
        (case bt_get known n of Some t \<Rightarrow> Some t | None \<Rightarrow> fetched_time header n)"
      using bt_get_times [OF assms(1), of header ls wanted n] needed_set [of n ls wanted known] assms(2) True Some
      by (auto split: option.splits)
    then show ?thesis using True Some by (simp add: fill_block_timestamp_def stamped_def)
  qed (simp add: fill_block_timestamp_def stamped_def)
qed (auto simp: fill_block_timestamp_def stamped_def)

lemma enrich_stamped:
  "bt_inv known \<Longrightarrow> enrich_log_timestamps_where header ls wanted known = map (stamped header known wanted) ls"
  by (simp add: enrich_times fill_stamped)

definition lb_log :: "registry \<Rightarrow> chain_log \<Rightarrow> bool" where
  "lb_log r l \<longleftrightarrow> (\<exists>p. get_pool r (log_address l) = Some p \<and> pool_type_of p = TypeLB)"

lemma lb_addresses:
  assumes "bt_inv (reg_pools r)"
  shows "a \<in> set (get_addresses_by_type r t) \<longleftrightarrow> (\<exists>p. get_pool r a = Some p \<and> pool_type_of p = t)"
  using bt_get_set [OF assms, of a] by (auto simp: get_addresses_by_type_def get_pool_def image_iff)

lemma enrich_lb:
  assumes "bt_inv (reg_pools r)" and "bt_inv known"
  shows "enrich_if_lb_pools_present header r ls known = map (stamped header known (lb_log r)) ls"
proof (cases "get_addresses_by_type r TypeLB = []")
  case True
  then have "\<not> lb_log r l" for l using lb_addresses [OF assms(1), of "log_address l" TypeLB] by (simp add: lb_log_def)
  then have "map (stamped header known (lb_log r)) ls = ls" by (intro map_idI) (simp add: stamped_def)
  then show ?thesis using True by (simp add: enrich_if_lb_pools_present_def)
next
  case False
  have "(\<lambda>l. log_address l \<in> set (get_addresses_by_type r TypeLB)) = lb_log r"
    by (simp add: lb_addresses [OF assms(1)] lb_log_def fun_eq_iff)
  then show ?thesis using False by (simp add: enrich_if_lb_pools_present_def enrich_stamped [OF assms(2)])
qed

lemma stamped_frame [simp]:
  "log_address (stamped header known wanted l) = log_address l"
  "log_topic0 (stamped header known wanted l) = log_topic0 l"
  "log_transaction_hash (stamped header known wanted l) = log_transaction_hash l"
  "log_block_number (stamped header known wanted l) = log_block_number l"
  "log_index (stamped header known wanted l) = log_index l"
  "position_of (stamped header known wanted l) = position_of l"
  by (auto simp: stamped_def position_of_def split: option.splits)

section \<open>Properties\<close>

text \<open>A header is readable when one of its three attempts answers; the first answer counts.\<close>

lemma fetch_header_first:
  "fetch_header answer k n = Some t \<longleftrightarrow>
     (\<exists>j < n. answer (k + j) = Ok (Some t) \<and> (\<forall>i < j. \<forall>t'. answer (k + i) \<noteq> Ok (Some t')))"
proof (induction n arbitrary: k)
  case (Suc n)
  have s: "(\<exists>j < Suc n. P j) \<longleftrightarrow> P 0 \<or> (\<exists>j < n. P (Suc j))" for P :: "nat \<Rightarrow> bool"
    using less_Suc_eq_0_disj by auto
  have a: "(\<forall>i < Suc j. P i) \<longleftrightarrow> P 0 \<and> (\<forall>i < j. P (Suc i))" for P :: "nat \<Rightarrow> bool" and j
    using less_Suc_eq_0_disj by auto
  show ?case by (auto simp: s a Suc.IH split: sum.splits option.splits)
qed simp

text \<open>Enriching a batch dates exactly the LB pools' logs that lack a time: each gets the time already known
  for its block, else the first header one of three attempts yields; the rest of the log, every
  other log and the order stay, and the headers asked for are ascending, without repetition, and of
  unknown blocks only.\<close>

theorem enrich_dates_lb_logs:
  fixes header :: header_rpc
  assumes "bt_inv (reg_pools r)" and "bt_inv known" and "i < length ls"
    and "log_block_number (ls ! i) = Some n"
  defines "out \<equiv> enrich_if_lb_pools_present header r ls known"
  shows "length out = length ls \<and>
    out ! i = (if lb_log r (ls ! i) \<and> lacks_block_timestamp (ls ! i)
      then (case (case bt_get known n of Some t \<Rightarrow> Some t | None \<Rightarrow> fetched_time header n) of
        None \<Rightarrow> ls ! i | Some t \<Rightarrow> (ls ! i)\<lparr>log_block_timestamp := Some t\<rparr>)
      else ls ! i) \<and>
    sorted_wrt (<) (blocks_needing_timestamps ls (lb_log r) known) \<and>
    (n \<in> set (blocks_needing_timestamps ls (lb_log r) known) \<longrightarrow> bt_get known n = None)"
  using assms(3,4) needed_sorted needed_set [of n ls "lb_log r" known]
  by (simp add: out_def enrich_lb [OF assms(1,2)] stamped_def)

theorem enrich_dates_lb_logs_witness:
  "enrich_if_lb_pools_present (\<lambda>n k. if k = 3 then Ok (Some 77) else Ok None)
     (add_pool (PLB sample_lb) (registry_new 14)) [(sample_log 1 5 0)\<lparr>log_address := lb_address sample_lb\<rparr>] [] ! 0 =
   (sample_log 1 5 0)\<lparr>log_address := lb_address sample_lb, log_block_timestamp := Some 77\<rparr>"
proof -
  let ?r = "add_pool (PLB sample_lb) (registry_new 14)"
  have r: "reg_pools ?r = [(lb_address sample_lb, PLB sample_lb)]"
    by (simp add: registry_simps registry_new_def)
  have h: "fetched_time (\<lambda>n k. if k = 3 then Ok (Some 77) else Ok None) 5 = Some 77"
    by (simp add: HEADER_FETCH_ATTEMPTS_def numeral_3_eq_3)
  show ?thesis
    using enrich_dates_lb_logs [of ?r "[]" 0 "[(sample_log 1 5 0)\<lparr>log_address := lb_address sample_lb\<rparr>]" 5
        "\<lambda>n k. if k = 3 then Ok (Some 77) else Ok None"] h r
    by (simp add: bt_inv_def sample_log_def lb_log_def get_pool_def lacks_block_timestamp_def)
qed

end
