(* ===== verification/Provider.thy ===== *)
theory Provider
  imports Timestamps
begin

text \<open>
  The RPC node as the collector uses it: \<^verbatim>\<open>fetch_events\<close> (\<^verbatim>\<open>src/collector/utils.rs\<close>), \<^verbatim>\<open>fetch_events_with_retry\<close>
  (\<^verbatim>\<open>src/collector/event_processor.rs\<close>) and \<^verbatim>\<open>rpc_with_retry\<close> (\<^verbatim>\<open>src/collector/block_source.rs\<close>). The node
  itself is a parameter: what it answers to each attempt at a call. \<open>None\<close> is an attempt that timed out.
\<close>

section \<open>Calls\<close>

datatype block_tag = Number u64 | PendingTag

record log_filter =
  lf_from :: block_tag
  lf_to :: block_tag
  lf_addresses :: "address list"
  lf_topics :: "topic list"

type_synonym 'a attempts = "nat \<Rightarrow> 'a res option"

record rpc =
  rpc_get_logs :: "log_filter \<Rightarrow> chain_log list attempts"
  rpc_header :: header_rpc

definition fetch_events :: "rpc \<Rightarrow> address list \<Rightarrow> topic list \<Rightarrow> block_tag \<Rightarrow> block_tag \<Rightarrow> chain_log list attempts" where
  "fetch_events rpc as ts from_block to_block =
     rpc_get_logs rpc \<lparr>lf_from = from_block, lf_to = to_block, lf_addresses = as, lf_topics = ts\<rparr>"

section \<open>Retrying\<close>

text \<open>
  The loop of both retry functions: the answer of the first attempt that succeeds, with the waits in
  milliseconds before it. A node that never answers keeps it running: \<open>None\<close>.
\<close>

definition MAX_BACKOFF :: nat where
  "MAX_BACKOFF = 500"

partial_function (option) retry :: "'a attempts \<Rightarrow> nat \<Rightarrow> nat \<Rightarrow> ('a \<times> nat list) option" where
  "retry read attempt backoff =
     (case read attempt of
        Some (Inr v) \<Rightarrow> Some (v, [])
      | _ \<Rightarrow> Option.bind (retry read (attempt + 1) (min (backoff * 2) MAX_BACKOFF))
               (\<lambda>(v, waits). Some (v, backoff # waits)))"

declare retry.simps [code]

definition fetch_events_with_retry ::
    "rpc \<Rightarrow> address list \<Rightarrow> topic list \<Rightarrow> block_tag \<Rightarrow> block_tag \<Rightarrow> chain_log list option" where
  "fetch_events_with_retry rpc as ts from_block to_block =
     map_option fst (retry (fetch_events rpc as ts from_block to_block) 1 50)"

text \<open>An answer with nothing in it is retried like an error.\<close>

definition rpc_with_retry :: "'a option attempts \<Rightarrow> 'a option" where
  "rpc_with_retry read =
     map_option fst (retry (\<lambda>k. case read k of
        None \<Rightarrow> None
      | Some (Inl e) \<Rightarrow> Some (Inl e)
      | Some (Inr None) \<Rightarrow> None
      | Some (Inr (Some v)) \<Rightarrow> Some (Inr v)) 1 50)"

definition get_block_number_with_retry :: "u64 attempts \<Rightarrow> u64 option" where
  "get_block_number_with_retry read = rpc_with_retry (\<lambda>k. map_option (map_sum id Some) (read k))"

definition get_latest_header_with_retry :: "(u64 \<times> u64) option attempts \<Rightarrow> (u64 \<times> u64) option" where
  "get_latest_header_with_retry read = rpc_with_retry read"

section \<open>What retrying does\<close>

definition failed :: "'a res option \<Rightarrow> bool" where
  "failed a \<longleftrightarrow> (\<forall>v. a \<noteq> Some (Inr v))"

lemma retry_fails: "failed (read k) \<Longrightarrow> retry read k b =
    Option.bind (retry read (k + 1) (min (b * 2) MAX_BACKOFF)) (\<lambda>(v, waits). Some (v, b # waits))"
  by (subst retry.simps) (auto simp: failed_def split: option.splits sum.splits)

lemma retry_first:
  assumes "read (k + n) = Some (Inr v)" and "\<forall>i < n. failed (read (k + i))" and "b \<le> MAX_BACKOFF"
  shows "\<exists>waits. retry read k b = Some (v, waits) \<and> length waits = n \<and> (\<forall>w \<in> set waits. w \<le> MAX_BACKOFF)"
  using assms
proof (induction n arbitrary: k b)
  case 0
  then show ?case by (simp add: retry.simps [of read k b])
next
  case (Suc n)
  have f: "failed (read k)" using Suc.prems(2) [rule_format, of 0] by simp
  have n: "\<forall>i < n. failed (read (k + 1 + i))" using Suc.prems(2) by auto
  obtain waits where "retry read (k + 1) (min (b * 2) MAX_BACKOFF) = Some (v, waits)" "length waits = n"
      "\<forall>w \<in> set waits. w \<le> MAX_BACKOFF"
    using Suc.IH [of "k + 1" "min (b * 2) MAX_BACKOFF"] Suc.prems(1) n by auto
  then show ?case using Suc.prems(3) by (simp add: retry_fails [of read k, OF f])
qed

text \<open>A node answers a call when some attempt succeeds and the first to do so gives the right logs.\<close>

definition answers :: "'a attempts \<Rightarrow> 'a \<Rightarrow> bool" where
  "answers read v \<longleftrightarrow> (\<exists>n. read (Suc n) = Some (Inr v) \<and> (\<forall>i < n. failed (read (Suc i))))"

lemma retry_answers: "answers read v \<Longrightarrow> map_option fst (retry read 1 50) = Some v"
proof -
  assume "answers read v"
  then obtain n where "read (1 + n) = Some (Inr v)" "\<forall>i < n. failed (read (1 + i))"
    by (auto simp: answers_def)
  from retry_first [OF this, of 50] show ?thesis by (auto simp: MAX_BACKOFF_def)
qed

section \<open>A node that serves a chain\<close>

text \<open>The logs a filter on a numbered range matches, in chain order.\<close>

definition watches :: "address list \<Rightarrow> topic list \<Rightarrow> chain_log \<Rightarrow> bool" where
  "watches as ts l \<longleftrightarrow> log_address l \<in> set as \<and> (\<exists>t \<in> set ts. log_topic0 l = Some t)"

definition logs_between :: "(u64 \<Rightarrow> chain_log list) \<Rightarrow> int list \<Rightarrow> chain_log list" where
  "logs_between chain ns = concat (map (\<lambda>n. chain (word_of_int n)) ns)"

lemma logs_between_simps [simp]:
  "logs_between chain [] = []" "logs_between chain (n # ns) = chain (word_of_int n) @ logs_between chain ns"
  "logs_between chain (ns @ ms) = logs_between chain ns @ logs_between chain ms"
  by (simp_all add: logs_between_def)

text \<open>
  The behaviour of \<^verbatim>\<open>eth_getLogs\<close> the collector relies on: sooner or later it answers, and its answer is
  every log of the blocks of an inclusive range that matches the addresses and the first topic, in chain
  order. An empty address list is no filter to a node, so nothing is said of it.
\<close>

definition serves :: "rpc \<Rightarrow> (u64 \<Rightarrow> chain_log list) \<Rightarrow> bool" where
  "serves rpc chain \<longleftrightarrow> (\<forall>as ts a b. as \<noteq> [] \<longrightarrow>
     answers (fetch_events rpc as ts (Number a) (Number b))
       (filter (watches as ts) (logs_between chain [uint a..uint b])))"

lemma serves_fetch:
  "serves rpc chain \<Longrightarrow> as \<noteq> [] \<Longrightarrow> fetch_events_with_retry rpc as ts (Number a) (Number b) =
     Some (filter (watches as ts) (logs_between chain [uint a..uint b]))"
  unfolding fetch_events_with_retry_def by (rule retry_answers) (simp add: serves_def)

end
