(* ===== verification/Event_Processor.thy ===== *)
theory Event_Processor
  imports Registry Event_Queue "HOL-Library.Multiset"
begin

text \<open>
  \<^verbatim>\<open>src/collector/event_processor.rs\<close>: applying a batch of logs to the pools, grouped by pool, and
  sending the swap events on. The downstream channel is the list of what was sent: a failed send is
  only logged. Metrics are an external trait and are left out. The \<^verbatim>\<open>unwrap\<close>s of the source are
  panics of the model.
\<close>

section \<open>Grouping by pool\<close>

type_synonym log_groups = "(address \<times> chain_log list) list"

text \<open>\<^verbatim>\<open>entry(address).or_default().push(event)\<close>, keeping the addresses in order of first appearance.\<close>

fun push_group :: "chain_log \<Rightarrow> log_groups \<Rightarrow> log_groups" where
  "push_group l [] = [(log_address l, [l])]"
| "push_group l ((a, ls) # gs) = (if a = log_address l then (a, ls @ [l]) # gs else (a, ls) # push_group l gs)"

definition group_logs :: "chain_log list \<Rightarrow> log_groups" where
  "group_logs ls = fold push_group ls []"

section \<open>Applying\<close>

text \<open>The logs of one pool under its write lock: an error is reported with the unwrapped transaction hash.\<close>

fun apply_pool_events :: "u64 \<Rightarrow> chain_log list \<Rightarrow> pool \<Rightarrow> pool \<times> unit res" where
  "apply_pool_events now [] p = (p, Ok ())"
| "apply_pool_events now (l # ls) p =
     (case pool_apply_log now l p of
        (p, Inl e) \<Rightarrow> if log_transaction_hash l = None then (p, Err (Panic UnwrapErr)) else apply_pool_events now ls p
      | (p, Inr _) \<Rightarrow> apply_pool_events now ls p)"

fun apply_groups :: "u64 \<Rightarrow> log_groups \<Rightarrow> registry \<Rightarrow> registry \<times> unit res" where
  "apply_groups now [] r = (r, Ok ())"
| "apply_groups now ((a, ls) # gs) r =
     (case get_pool r a of
        None \<Rightarrow> apply_groups now gs r
      | Some p \<Rightarrow>
          (case apply_pool_events now ls p of
             (p', Inl e) \<Rightarrow> (r\<lparr>reg_pools := bt_insert a p' (reg_pools r)\<rparr>, Inl e)
           | (p', Inr _) \<Rightarrow> apply_groups now gs (r\<lparr>reg_pools := bt_insert a p' (reg_pools r)\<rparr>)))"

text \<open>\<open>iteration\<close> is the order in which the hash map yields its entries.\<close>

definition apply_events_to_registry ::
    "(log_groups \<Rightarrow> log_groups) \<Rightarrow> u64 \<Rightarrow> chain_log list \<Rightarrow> registry \<Rightarrow> registry \<times> unit res" where
  "apply_events_to_registry iteration now events r = apply_groups now (iteration (group_logs events)) r"

section \<open>Confirmed events\<close>

record processor =
  pr_profitable_topics :: "topic set"
  pr_swap_event_tx :: bool

type_synonym pool_map = "(address, pool) btree"

text \<open>Apply the logs of one pool and collect its swap events.\<close>

fun confirm_pool_events :: "processor \<Rightarrow> u64 \<Rightarrow> chain_log list \<Rightarrow> pool \<times> chain_log list \<Rightarrow> (pool \<times> chain_log list) \<times> unit res" where
  "confirm_pool_events pr now [] ps = (ps, Ok ())"
| "confirm_pool_events pr now (l # ls) (p, swaps) =
     (let (p, r) = pool_apply_log now l p in
      if r \<noteq> Ok () \<and> log_transaction_hash l = None then ((p, swaps), Err (Panic UnwrapErr))
      else if pr_swap_event_tx pr then
        (case log_topic0 l of
           None \<Rightarrow> ((p, swaps), Err (Panic UnwrapErr))
         | Some t \<Rightarrow> confirm_pool_events pr now ls (p, if t \<in> pr_profitable_topics pr then swaps @ [l] else swaps))
      else confirm_pool_events pr now ls (p, swaps))"

fun confirm_groups :: "processor \<Rightarrow> u64 \<Rightarrow> log_groups \<Rightarrow> registry \<times> chain_log list \<Rightarrow> (registry \<times> chain_log list) \<times> unit res" where
  "confirm_groups pr now [] rs = (rs, Ok ())"
| "confirm_groups pr now ((a, ls) # gs) (r, swaps) =
     (case get_pool r a of
        None \<Rightarrow> confirm_groups pr now gs (r, swaps)
      | Some p \<Rightarrow>
          (case confirm_pool_events pr now ls (p, swaps) of
             ((p', swaps'), Inl e) \<Rightarrow> ((r\<lparr>reg_pools := bt_insert a p' (reg_pools r)\<rparr>, swaps'), Inl e)
           | ((p', swaps'), Inr _) \<Rightarrow>
               confirm_groups pr now gs (r\<lparr>reg_pools := bt_insert a p' (reg_pools r)\<rparr>, swaps')))"

text \<open>\<^verbatim>\<open>send_swap_event\<close> unwraps the transaction hash and the log index before it sends.\<close>

definition sendable :: "chain_log \<Rightarrow> bool" where
  "sendable l \<longleftrightarrow> log_transaction_hash l \<noteq> None \<and> log_index l \<noteq> None"

definition send_swap_event :: "chain_log \<Rightarrow> chain_log list \<Rightarrow> chain_log list res" where
  "send_swap_event l sent = (if sendable l then Ok (sent @ [l]) else Err (Panic UnwrapErr))"

fun send_swap_events :: "chain_log list \<Rightarrow> chain_log list \<Rightarrow> chain_log list res" where
  "send_swap_events [] sent = Ok sent"
| "send_swap_events (l # ls) sent = and_then (send_swap_event l sent) (send_swap_events ls)"

definition process_confirmed_events ::
    "processor \<Rightarrow> u64 \<Rightarrow> chain_log list \<Rightarrow> registry \<Rightarrow> registry \<times> chain_log list res" where
  "process_confirmed_events pr now events r =
     (case confirm_groups pr now (group_logs events) (r, []) of
        ((r, swaps), Inl e) \<Rightarrow> (r, Inl e)
      | ((r, swaps), Inr _) \<Rightarrow> (r, if pr_swap_event_tx pr then send_swap_events swaps [] else Ok []))"

section \<open>Pending events\<close>

text \<open>
  The clones all events of one batch share: the map handed to the consumer is the one later events of
  the batch still write to, so the result is the events sent and the map at the end.
\<close>

fun pend_events :: "processor \<Rightarrow> u64 \<Rightarrow> registry \<Rightarrow> chain_log list \<Rightarrow> pool_map \<times> chain_log list \<Rightarrow> (pool_map \<times> chain_log list) res" where
  "pend_events pr now r [] ms = Ok ms"
| "pend_events pr now r (l # ls) (m, sent) =
     (case (case bt_get m (log_address l) of Some p \<Rightarrow> Some p | None \<Rightarrow> get_pool r (log_address l)) of
        None \<Rightarrow> pend_events pr now r ls (m, sent)
      | Some p \<Rightarrow>
          let m = bt_insert (log_address l) (fst (pool_apply_log now l p)) m in
          (case log_topic0 l of
             None \<Rightarrow> Err (Panic UnwrapErr)
           | Some t \<Rightarrow>
               if t \<in> pr_profitable_topics pr
               then and_then (send_swap_event l sent) (\<lambda>sent. pend_events pr now r ls (m, sent))
               else pend_events pr now r ls (m, sent)))"

definition process_pending_events :: "processor \<Rightarrow> u64 \<Rightarrow> registry \<Rightarrow> chain_log list \<Rightarrow> (pool_map \<times> chain_log list) res" where
  "process_pending_events pr now r events =
     (if pr_swap_event_tx pr then pend_events pr now r events ([], []) else Ok ([], []))"

section \<open>Groups\<close>

definition logs_at :: "address \<Rightarrow> chain_log list \<Rightarrow> chain_log list" where
  "logs_at a ls = filter (\<lambda>l. log_address l = a) ls"

lemma logs_at_simps [simp]:
  "logs_at a [] = []" "logs_at a (l # ls) = (if log_address l = a then l # logs_at a ls else logs_at a ls)"
  "logs_at a (ls @ ls') = logs_at a ls @ logs_at a ls'"
  by (simp_all add: logs_at_def)

definition groups_of :: "chain_log list \<Rightarrow> log_groups \<Rightarrow> bool" where
  "groups_of ls gs \<longleftrightarrow> distinct (map fst gs) \<and> (\<forall>a. (case map_of gs a of None \<Rightarrow> [] | Some g \<Rightarrow> g) = logs_at a ls)"

lemma push_group_keys: "fst ` set (push_group l gs) = insert (log_address l) (fst ` set gs)"
  by (induction l gs rule: push_group.induct) auto

lemma push_group_map:
  "map_of (push_group l gs) a =
     (if a = log_address l then Some ((case map_of gs a of None \<Rightarrow> [] | Some g \<Rightarrow> g) @ [l]) else map_of gs a)"
  by (induction l gs rule: push_group.induct) auto

lemma push_group_distinct: "distinct (map fst gs) \<Longrightarrow> distinct (map fst (push_group l gs))"
  by (induction l gs rule: push_group.induct) (auto simp: push_group_keys)

lemma push_group_groups: "groups_of ls gs \<Longrightarrow> groups_of (ls @ [l]) (push_group l gs)"
  by (auto simp: groups_of_def push_group_distinct push_group_map)

lemma group_logs_groups: "groups_of ls (group_logs ls)"
proof -
  have "groups_of (done @ ls) (fold push_group ls gs)" if "groups_of done gs" for "done" gs
    using that
  proof (induction ls arbitrary: "done" gs)
    case (Cons l ls)
    from Cons.IH [OF push_group_groups [OF Cons.prems]] show ?case by simp
  qed simp
  moreover have "groups_of [] []" by (simp add: groups_of_def)
  ultimately show ?thesis unfolding group_logs_def by fastforce
qed

lemma groups_permuted:
  assumes "groups_of ls gs" and "mset gs' = mset gs"
  shows "groups_of ls gs'"
proof -
  have "mset (map fst gs') = mset (map fst gs)" using assms(2) by simp
  then have d: "distinct (map fst gs')"
    using assms(1) mset_eq_imp_distinct_iff unfolding groups_of_def by blast
  have "set gs' = set gs" using assms(2) by (rule mset_eq_setD)
  then have "map_of gs' = map_of gs"
    using assms(1) d map_of_inject_set [of gs' gs] by (simp add: groups_of_def)
  then show ?thesis using assms(1) d by (simp add: groups_of_def)
qed

lemma groups_of_Cons:
  assumes "distinct (map fst ((a, ls) # gs))"
  shows "map_of gs a = None" and "distinct (map fst gs)"
  using assms by (auto simp: map_of_eq_None_iff)

section \<open>What applying does\<close>

text \<open>A log as a node delivers it: mined, so with its coordinates, and with the topic the filter matched.\<close>

definition mined :: "chain_log \<Rightarrow> bool" where
  "mined l \<longleftrightarrow> log_transaction_hash l \<noteq> None \<and> log_index l \<noteq> None \<and> log_topic0 l \<noteq> None"

definition profitable :: "processor \<Rightarrow> chain_log \<Rightarrow> bool" where
  "profitable pr l \<longleftrightarrow> (case log_topic0 l of None \<Rightarrow> False | Some t \<Rightarrow> t \<in> pr_profitable_topics pr)"

definition registered :: "registry \<Rightarrow> chain_log \<Rightarrow> bool" where
  "registered r l \<longleftrightarrow> get_pool r (log_address l) \<noteq> None"

definition group_at :: "log_groups \<Rightarrow> address \<Rightarrow> chain_log list" where
  "group_at gs a = (case map_of gs a of None \<Rightarrow> [] | Some g \<Rightarrow> g)"

lemma apply_pool_events_all:
  "\<forall>l \<in> set ls. log_transaction_hash l \<noteq> None \<Longrightarrow>
   apply_pool_events now ls p = (pool.apply_all now ls p, Ok ())"
  by (induction ls arbitrary: p) (auto split: prod.splits sum.splits)

text \<open>Both ways of applying a batch change the pools only, each by its own logs in order.\<close>

definition applied :: "u64 \<Rightarrow> (address \<Rightarrow> chain_log list) \<Rightarrow> registry \<Rightarrow> registry \<Rightarrow> bool" where
  "applied now at r r' \<longleftrightarrow> bt_inv (reg_pools r') \<and> r' = r\<lparr>reg_pools := reg_pools r'\<rparr> \<and>
     (\<forall>a. get_pool r' a = map_option (pool.apply_all now (at a)) (get_pool r a))"

lemma applied_unique: "applied now at r r1 \<Longrightarrow> applied now at r r2 \<Longrightarrow> r1 = r2"
proof -
  assume a: "applied now at r r1" "applied now at r r2"
  then have "reg_pools r1 = reg_pools r2"
    by (intro bt_eqI) (simp_all add: applied_def get_pool_def)
  then show ?thesis using a unfolding applied_def by metis
qed

lemma map_option_apply_nil [simp]: "map_option (pool.apply_all now []) p = p"
  by (cases p) simp_all

lemma applied_fold: "bt_inv (reg_pools r) \<Longrightarrow> applied now (\<lambda>a. logs_at a ls) r (fold (apply_at now) ls r)"
proof (induction ls arbitrary: r)
  case Nil
  then show ?case by (simp add: applied_def)
next
  case (Cons l ls)
  have i: "bt_inv (reg_pools (apply_at now l r))" using Cons.prems by (rule apply_at_inv)
  have f: "(apply_at now l r)\<lparr>reg_pools := m\<rparr> = r\<lparr>reg_pools := m\<rparr>" for m
    by (simp add: apply_at_def split: option.splits)
  have g: "get_pool (apply_at now l r) a =
      (if a = log_address l then map_option (\<lambda>p. fst (pool_apply_log now l p)) (get_pool r a) else get_pool r a)" for a
    using apply_at_keys [OF Cons.prems, of now l a] by (simp add: get_pool_def)
  show ?case
    using Cons.IH [OF i]
    by (cases "get_pool r (log_address l)") (auto simp: applied_def f g option.map_comp comp_def)
qed

lemma applied_groups:
  assumes "bt_inv (reg_pools r)" and "distinct (map fst gs)"
    and "\<forall>(a, ls) \<in> set gs. \<forall>l \<in> set ls. log_transaction_hash l \<noteq> None"
  shows "applied now (group_at gs) r (fst (apply_groups now gs r)) \<and> snd (apply_groups now gs r) = Ok ()"
  using assms
proof (induction gs arbitrary: r)
  case Nil
  then show ?case by (simp add: applied_def group_at_def)
next
  case (Cons g gs)
  obtain a ls where g: "g = (a, ls)" by fastforce
  have h: "\<forall>l \<in> set ls. log_transaction_hash l \<noteq> None" using Cons.prems(3) g by simp
  have d: "map_of gs a = None" "distinct (map fst gs)" using groups_of_Cons [of a ls gs] Cons.prems(2) g by simp_all
  note IH = Cons.IH [OF _ d(2)]
  show ?case
  proof (cases "get_pool r a")
    case None
    then show ?thesis using IH [of r] Cons.prems g by (auto simp: applied_def group_at_def)
  next
    case (Some p)
    let ?r = "r\<lparr>reg_pools := bt_insert a (pool.apply_all now ls p) (reg_pools r)\<rparr>"
    have "bt_inv (reg_pools ?r)" using Cons.prems(1) by (simp add: bt_simps)
    then have "applied now (group_at gs) ?r (fst (apply_groups now gs ?r)) \<and> snd (apply_groups now gs ?r) = Ok ()"
      using IH Cons.prems(3) by simp
    then show ?thesis
      using Some Cons.prems(1) d(1) g apply_pool_events_all [OF h, of now p]
      by (auto simp: applied_def group_at_def get_pool_def bt_simps split: option.splits)
  qed
qed

lemma group_logs_hashed:
  assumes "groups_of ls gs" and "\<forall>l \<in> set ls. P l"
  shows "\<forall>(a, g) \<in> set gs. \<forall>l \<in> set g. P l"
proof clarify
  fix a g l
  assume g: "(a, g) \<in> set gs" "l \<in> set g"
  then have "map_of gs a = Some g" using assms(1) by (simp add: groups_of_def)
  then have "g = logs_at a ls" using assms(1) by (auto simp: groups_of_def dest: spec [of _ a])
  then show "P l" using g assms(2) by (simp add: logs_at_def)
qed

lemma group_at_logs: "groups_of ls gs \<Longrightarrow> group_at gs = (\<lambda>a. logs_at a ls)"
  by (simp add: groups_of_def group_at_def fun_eq_iff)

lemma apply_groups_fold:
  assumes "bt_inv (reg_pools r)" and "groups_of ls gs" and "\<forall>l \<in> set ls. log_transaction_hash l \<noteq> None"
  shows "apply_groups now gs r = (fold (apply_at now) ls r, Ok ())"
proof -
  have "applied now (\<lambda>a. logs_at a ls) r (fst (apply_groups now gs r))" "snd (apply_groups now gs r) = Ok ()"
    using applied_groups [OF assms(1) _ group_logs_hashed [OF assms(2,3)], of now] assms(2)
    by (simp_all add: groups_of_def group_at_logs [OF assms(2)])
  moreover have "applied now (\<lambda>a. logs_at a ls) r (fold (apply_at now) ls r)" by (rule applied_fold [OF assms(1)])
  ultimately show ?thesis using applied_unique by (metis prod.collapse)
qed

section \<open>What the two sending modes do\<close>

lemma confirm_pool_events_all:
  assumes "\<forall>l \<in> set ls. mined l"
  shows "confirm_pool_events pr now ls (p, swaps) =
    ((pool.apply_all now ls p, swaps @ (if pr_swap_event_tx pr then filter (profitable pr) ls else [])), Ok ())"
  using assms
  by (induction ls arbitrary: p swaps) (auto simp: mined_def profitable_def Let_def split: prod.splits option.splits)

definition swaps_of :: "processor \<Rightarrow> registry \<Rightarrow> log_groups \<Rightarrow> chain_log list" where
  "swaps_of pr r gs = concat (map (\<lambda>(a, ls). if get_pool r a = None then [] else filter (profitable pr) ls) gs)"

lemma swaps_of_update:
  "bt_inv (reg_pools r) \<Longrightarrow> get_pool r a \<noteq> None \<Longrightarrow> swaps_of pr (r\<lparr>reg_pools := bt_insert a p (reg_pools r)\<rparr>) gs = swaps_of pr r gs"
  by (auto simp: swaps_of_def get_pool_def bt_simps intro!: arg_cong [of _ _ concat])

lemma confirm_groups_all:
  assumes "bt_inv (reg_pools r)" and "\<forall>(a, ls) \<in> set gs. \<forall>l \<in> set ls. mined l"
  shows "confirm_groups pr now gs (r, swaps) =
    ((fst (apply_groups now gs r), swaps @ (if pr_swap_event_tx pr then swaps_of pr r gs else [])), Ok ())"
  using assms
proof (induction gs arbitrary: r swaps)
  case Nil
  then show ?case by (simp add: swaps_of_def)
next
  case (Cons g gs)
  obtain a ls where g: "g = (a, ls)" by fastforce
  have m: "\<forall>l \<in> set ls. mined l" "\<forall>(a, ls) \<in> set gs. \<forall>l \<in> set ls. mined l" using Cons.prems(2) g by auto
  have h: "\<forall>l \<in> set ls. log_transaction_hash l \<noteq> None" using m(1) by (simp add: mined_def)
  show ?case
  proof (cases "get_pool r a")
    case None
    then show ?thesis using Cons.IH [OF Cons.prems(1) m(2)] g by (simp add: swaps_of_def)
  next
    case (Some p)
    let ?r = "r\<lparr>reg_pools := bt_insert a (pool.apply_all now ls p) (reg_pools r)\<rparr>"
    have i: "bt_inv (reg_pools ?r)" using Cons.prems(1) by (simp add: bt_simps)
    have s: "swaps_of pr ?r gs = swaps_of pr r gs" using Cons.prems(1) Some by (simp add: swaps_of_update)
    have c: "swaps_of pr r ((a, ls) # gs) = filter (profitable pr) ls @ swaps_of pr r gs"
      using Some by (simp add: swaps_of_def)
    show ?thesis
      using Some apply_pool_events_all [OF h, of now p] confirm_pool_events_all [OF m(1), of pr now p swaps]
        Cons.IH [OF i m(2)]
      by (simp add: g s c)
  qed
qed

lemma send_swap_events_all: "\<forall>l \<in> set ls. mined l \<Longrightarrow> send_swap_events ls sent = Ok (sent @ ls)"
  by (induction ls arbitrary: sent) (simp_all add: send_swap_event_def sendable_def mined_def)

section \<open>Properties\<close>

lemma sample_registry_inv: "bt_inv (reg_pools sample_registry)"
  using neq_iff [of "v2_address sample_pair" "lb_address sample_lb"]
  by (auto simp: sample_registry_def registry_simps registry_new_def bt_inv_def)

text \<open>C13: applying a batch grouped by pool is applying its logs one by one in chain order: whatever order the
  hash map yields the groups in, the registry ends the same and the call returns.\<close>

theorem grouped_apply_is_sequential:
  assumes "bt_inv (reg_pools r)" and "\<forall>l \<in> set events. log_transaction_hash l \<noteq> None"
    and "mset (iteration (group_logs events)) = mset (group_logs events)"
  shows "apply_events_to_registry iteration now events r = (fold (apply_at now) events r, Ok ())"
  unfolding apply_events_to_registry_def
  by (rule apply_groups_fold [OF assms(1) groups_permuted [OF group_logs_groups assms(3)] assms(2)])

theorem grouped_apply_is_sequential_witness:
  "apply_events_to_registry rev 9 [sample_log 1 5 0, sample_log 2 5 1] sample_registry =
   (fold (apply_at 9) [sample_log 1 5 0, sample_log 2 5 1] sample_registry, Ok ())"
proof (rule grouped_apply_is_sequential)
  show "bt_inv (reg_pools sample_registry)" by (rule sample_registry_inv)
qed (simp_all add: sample_log_def)

lemma swaps_at:
  assumes "groups_of ls gs" and "set gs' \<subseteq> set gs" and "distinct (map fst gs')"
  shows "logs_at a (swaps_of pr r gs') =
    (if get_pool r a = None then [] else filter (profitable pr) (group_at gs' a))"
  using assms(2,3)
proof (induction gs')
  case Nil
  then show ?case by (simp add: swaps_of_def group_at_def)
next
  case (Cons g gs')
  obtain b g' where g: "g = (b, g')" by fastforce
  have "map_of gs b = Some g'" using assms(1) Cons.prems(1) g by (simp add: groups_of_def)
  then have "g' = logs_at b ls" using assms(1) by (auto simp: groups_of_def dest: spec [of _ b])
  then have f: "logs_at a (filter (profitable pr) g') = (if a = b then filter (profitable pr) g' else [])"
    by (auto simp: logs_at_def filter_empty_conv intro!: filter_cong)
  have d: "map_of gs' b = None" using groups_of_Cons [of b g' gs'] Cons.prems(2) g by simp
  have "swaps_of pr r (g # gs') = (if get_pool r b = None then [] else filter (profitable pr) g') @ swaps_of pr r gs'"
    by (simp add: swaps_of_def g)
  then show ?case using Cons.IH Cons.prems f d by (auto simp: g group_at_def)
qed

text \<open>C14: a confirmed batch leaves the registry exactly as the plain application does and sends, for each
  registered pool, exactly its swap logs in chain order.\<close>

theorem confirmed_sends_swaps:
  assumes "bt_inv (reg_pools r)" and "\<forall>l \<in> set events. mined l" and "pr_swap_event_tx pr"
  shows "\<exists>sent. process_confirmed_events pr now events r = (fold (apply_at now) events r, Ok sent) \<and>
    (\<forall>a. logs_at a sent = (if get_pool r a = None then [] else filter (profitable pr) (logs_at a events)))"
proof (intro exI conjI allI)
  let ?gs = "group_logs events"
  note g = group_logs_groups [of events]
  have m: "\<forall>(a, ls) \<in> set ?gs. \<forall>l \<in> set ls. mined l" by (rule group_logs_hashed [OF g assms(2)])
  have "\<forall>l \<in> set events. log_transaction_hash l \<noteq> None" using assms(2) by (simp add: mined_def)
  note a = apply_groups_fold [OF assms(1) g this, of now]
  have "\<forall>l \<in> set (swaps_of pr r ?gs). mined l" using m by (auto simp: swaps_of_def split: if_splits)
  from send_swap_events_all [OF this, of "[]"]
  show "process_confirmed_events pr now events r = (fold (apply_at now) events r, Ok (swaps_of pr r ?gs))"
    by (simp add: process_confirmed_events_def confirm_groups_all [OF assms(1) m] a assms(3))
  show "logs_at a (swaps_of pr r ?gs) =
      (if get_pool r a = None then [] else filter (profitable pr) (logs_at a events))" for a
    using swaps_at [OF g subset_refl, of a pr r] g by (simp add: groups_of_def group_at_logs [OF g])
qed

definition sample_processor :: processor where
  "sample_processor = \<lparr>pr_profitable_topics = {7}, pr_swap_event_tx = True\<rparr>"

theorem confirmed_sends_swaps_witness:
  "\<exists>sent. process_confirmed_events sample_processor 9 [sample_log 1 5 0, sample_log 2 5 1] sample_registry =
    (fold (apply_at 9) [sample_log 1 5 0, sample_log 2 5 1] sample_registry, Ok sent)"
  using confirmed_sends_swaps [of sample_registry "[sample_log 1 5 0, sample_log 2 5 1]" sample_processor 9]
    sample_registry_inv by (auto simp: sample_processor_def sample_log_def mined_def)

text \<open>The speculative map holds, per pool met so far, the registry's pool with its logs applied.\<close>

definition speculative :: "u64 \<Rightarrow> registry \<Rightarrow> chain_log list \<Rightarrow> pool_map \<Rightarrow> bool" where
  "speculative now r done m \<longleftrightarrow> bt_inv m \<and>
     (\<forall>a. bt_get m a = (if logs_at a done = [] then None else map_option (pool.apply_all now (logs_at a done)) (get_pool r a)))"

lemma speculative_step:
  assumes "speculative now r done m" and "get_pool r (log_address l) = Some p"
  shows "\<exists>q. (case bt_get m (log_address l) of Some p \<Rightarrow> Some p | None \<Rightarrow> get_pool r (log_address l)) = Some q \<and>
    speculative now r (done @ [l]) (bt_insert (log_address l) (fst (pool_apply_log now l q)) m)"
  using assms by (auto simp: speculative_def bt_simps split: option.splits if_splits)

lemma pend_events_all:
  assumes "\<forall>l \<in> set ls. mined l" and "speculative now r done m"
  shows "\<exists>m'. pend_events pr now r ls (m, sent) =
      Ok (m', sent @ filter (\<lambda>l. registered r l \<and> profitable pr l) ls) \<and> speculative now r (done @ ls) m'"
  using assms
proof (induction ls arbitrary: "done" m sent)
  case (Cons l ls)
  have m: "\<forall>l \<in> set ls. mined l" and "mined l" using Cons.prems(1) by simp_all
  then obtain t where t: "log_topic0 l = Some t" and s: "sendable l"
    by (auto simp: mined_def sendable_def)
  show ?case
  proof (cases "get_pool r (log_address l)")
    case None
    then have n: "bt_get m (log_address l) = None" using Cons.prems(2) by (simp add: speculative_def)
    have "speculative now r (done @ [l]) m" using Cons.prems(2) None by (auto simp: speculative_def)
    from Cons.IH [OF m this, of sent] show ?thesis using None n by (simp add: registered_def)
  next
    case (Some p)
    obtain q where q: "(case bt_get m (log_address l) of Some p \<Rightarrow> Some p | None \<Rightarrow> get_pool r (log_address l)) = Some q"
      "speculative now r (done @ [l]) (bt_insert (log_address l) (fst (pool_apply_log now l q)) m)"
      using speculative_step [OF Cons.prems(2) Some] by blast
    show ?thesis
      using Cons.IH [OF m q(2), of "sent @ [l]"] Cons.IH [OF m q(2), of sent] q(1) t s Some
      by (simp add: registered_def profitable_def send_swap_event_def Let_def)
  qed
qed simp

text \<open>C12: the pending mode sends the swap logs of registered pools in chain order and shows the consumer, for
  every pool the batch touches, the very state the registry will have once the same logs are
  confirmed, and no other pool. It has no registry to write to.\<close>

theorem pending_previews_confirmed:
  assumes "bt_inv (reg_pools r)" and "\<forall>l \<in> set events. mined l" and "pr_swap_event_tx pr"
  shows "\<exists>m. process_pending_events pr now r events =
      Ok (m, filter (\<lambda>l. registered r l \<and> profitable pr l) events) \<and>
    (\<forall>a. bt_get m a = (if logs_at a events = [] then None
      else get_pool (fst (process_confirmed_events pr now events r)) a))"
proof -
  have "speculative now r [] []" by (simp add: speculative_def bt_inv_def)
  from pend_events_all [OF assms(2) this, of pr "[]"] obtain m where
    m: "pend_events pr now r events ([], []) = Ok (m, filter (\<lambda>l. registered r l \<and> profitable pr l) events)"
      "speculative now r events m" by auto
  have "fst (process_confirmed_events pr now events r) = fold (apply_at now) events r"
  proof -
    let ?gs = "group_logs events"
    note g = group_logs_groups [of events]
    have c: "\<forall>(a, ls) \<in> set ?gs. \<forall>l \<in> set ls. mined l" by (rule group_logs_hashed [OF g assms(2)])
    have "\<forall>l \<in> set events. log_transaction_hash l \<noteq> None" using assms(2) by (simp add: mined_def)
    note a = apply_groups_fold [OF assms(1) g this, of now]
    show ?thesis by (simp add: process_confirmed_events_def confirm_groups_all [OF assms(1) c] a)
  qed
  then show ?thesis
    using m applied_fold [OF assms(1), of now events] assms(3)
    by (auto simp: process_pending_events_def speculative_def applied_def)
qed

theorem pending_previews_confirmed_witness:
  "\<exists>m. process_pending_events sample_processor 9 sample_registry [sample_log 1 5 0, sample_log 2 5 1] =
    Ok (m, filter (\<lambda>l. registered sample_registry l \<and> profitable sample_processor l) [sample_log 1 5 0, sample_log 2 5 1])"
  using pending_previews_confirmed [of sample_registry "[sample_log 1 5 0, sample_log 2 5 1]" sample_processor 9]
    sample_registry_inv by (auto simp: sample_processor_def sample_log_def mined_def)

end
