(* ===== verification/Block_Source.thy ===== *)
theory Block_Source
  imports Block_Batches Provider Event_Processor
begin

text \<open>
  The polling sources of \<^verbatim>\<open>src/collector/block_source.rs\<close>: \<^verbatim>\<open>PendingBlockSource\<close> and \<^verbatim>\<open>LatestBlockSource\<close>.
  \<^verbatim>\<open>next_batch\<close> is a loop; a turn is one pass through its body, with what a poll of the node would
  answer in that turn, and yields a batch or goes round again. \<open>None\<close> is a turn that never ends. The
  registry a turn reads is the shared one at that moment.
\<close>

section \<open>Batches\<close>

datatype processing_mode = ApplyOnly | ConfirmedWithSwaps | PendingMode

record event_batch =
  eb_events :: "chain_log list"
  eb_mode :: processing_mode
  eb_processed_through_block :: "u64 option"

fun next_batch ::
    "('poll \<Rightarrow> registry \<Rightarrow> 'src \<Rightarrow> ('src \<times> event_batch option) option) \<Rightarrow>
     'poll list \<Rightarrow> registry \<Rightarrow> 'src \<Rightarrow> ('src \<times> event_batch) option" where
  "next_batch turn [] r s = None"
| "next_batch turn (p # ps) r s =
     (case turn p r s of
        None \<Rightarrow> None
      | Some (s, None) \<Rightarrow> next_batch turn ps r s
      | Some (s, Some b) \<Rightarrow> Some (s, b))"

section \<open>PendingBlockSource\<close>

datatype pending_phase =
    PollBlockNumber
  | ConfirmedBatches u64 u64
  | FetchPending

record pending_source =
  ps_topics :: "topic list"
  ps_max_blocks_per_batch :: u64
  ps_phase :: pending_phase

definition pending_new :: "topic list \<Rightarrow> u64 \<Rightarrow> pending_source" where
  "pending_new topics max_blocks = \<lparr>ps_topics = topics, ps_max_blocks_per_batch = max_blocks, ps_phase = PollBlockNumber\<rparr>"

definition poll_block_number :: "u64 \<Rightarrow> registry \<Rightarrow> pending_source \<Rightarrow> pending_source" where
  "poll_block_number latest_block r s =
     (let next_block = reg_last_processed_block r + 1
      in if next_block > latest_block then s else s\<lparr>ps_phase := ConfirmedBatches next_block latest_block\<rparr>)"

definition confirmed_batch ::
    "rpc \<Rightarrow> u64 \<Rightarrow> u64 \<Rightarrow> registry \<Rightarrow> pending_source \<Rightarrow> (pending_source \<times> event_batch option) option" where
  "confirmed_batch rpc current_block latest_block r s =
     (let batch_end = min (current_block + ps_max_blocks_per_batch s - 1) latest_block
      in case fetch_events_with_retry rpc (get_all_addresses r) (ps_topics s) (Number current_block) (Number batch_end) of
           None \<Rightarrow> None
         | Some events \<Rightarrow>
             let events = enrich_if_lb_pools_present (rpc_header rpc) r events [];
                 next_block = batch_end + 1;
                 phase = (if next_block > latest_block then FetchPending else ConfirmedBatches next_block latest_block)
             in Some (s\<lparr>ps_phase := phase\<rparr>,
                  Some \<lparr>eb_events = events, eb_mode = ApplyOnly, eb_processed_through_block = Some batch_end\<rparr>))"

definition pending_batch :: "rpc \<Rightarrow> registry \<Rightarrow> pending_source \<Rightarrow> (pending_source \<times> event_batch option) option" where
  "pending_batch rpc r s =
     (if get_all_addresses r = [] then Some (s\<lparr>ps_phase := PollBlockNumber\<rparr>, None)
      else case fetch_events_with_retry rpc (get_all_addresses r) (ps_topics s) PendingTag PendingTag of
             None \<Rightarrow> None
           | Some events \<Rightarrow>
               let events = enrich_if_lb_pools_present (rpc_header rpc) r events []
               in Some (s\<lparr>ps_phase := PollBlockNumber\<rparr>,
                    Some \<lparr>eb_events = events, eb_mode = PendingMode, eb_processed_through_block = None\<rparr>))"

definition pending_turn :: "rpc \<Rightarrow> u64 \<Rightarrow> registry \<Rightarrow> pending_source \<Rightarrow> (pending_source \<times> event_batch option) option" where
  "pending_turn rpc latest_block r s =
     (case ps_phase s of
        PollBlockNumber \<Rightarrow> Some (poll_block_number latest_block r s, None)
      | ConfirmedBatches current_block latest_block \<Rightarrow> confirmed_batch rpc current_block latest_block r s
      | FetchPending \<Rightarrow> pending_batch rpc r s)"

section \<open>LatestBlockSource\<close>

definition KNOWN_BLOCK_TIMES_KEPT :: u64 where
  "KNOWN_BLOCK_TIMES_KEPT = 64"

text \<open>The batches are listed in the order they are popped in; the source keeps them reversed.\<close>

record latest_source =
  ls_topics :: "topic list"
  ls_max_blocks_per_batch :: u64
  ls_wait_time_ms :: u64
  ls_batches :: "(u64 \<times> u64 \<times> bool) list"
  ls_known_block_times :: "(u64, u64) btree"

definition latest_new :: "topic list \<Rightarrow> u64 \<Rightarrow> u64 \<Rightarrow> latest_source" where
  "latest_new topics max_blocks wait_time_ms =
     \<lparr>ls_topics = topics, ls_max_blocks_per_batch = max_blocks, ls_wait_time_ms = wait_time_ms,
      ls_batches = [], ls_known_block_times = []\<rparr>"

definition latest_yield ::
    "rpc \<Rightarrow> u64 \<times> u64 \<times> bool \<Rightarrow> registry \<Rightarrow> latest_source \<Rightarrow> (latest_source \<times> event_batch option) option" where
  "latest_yield rpc batch r s =
     (case batch of (from_block, to_block, is_latest_single) \<Rightarrow>
        (case fetch_events_with_retry rpc (get_all_addresses r) (ls_topics s) (Number from_block) (Number to_block) of
           None \<Rightarrow> None
         | Some events \<Rightarrow>
             let events = enrich_if_lb_pools_present (rpc_header rpc) r events (ls_known_block_times s);
                 mode = (if is_latest_single then ConfirmedWithSwaps else ApplyOnly)
             in Some (s, Some \<lparr>eb_events = events, eb_mode = mode, eb_processed_through_block = Some to_block\<rparr>)))"

definition remember_block_time :: "u64 \<Rightarrow> u64 \<Rightarrow> (u64, u64) btree \<Rightarrow> (u64, u64) btree" where
  "remember_block_time n t known =
     filter (\<lambda>(m, _). m + KNOWN_BLOCK_TIMES_KEPT > n) (bt_insert n t known)"

definition latest_poll :: "u64 \<times> u64 \<Rightarrow> registry \<Rightarrow> latest_source \<Rightarrow> latest_source option" where
  "latest_poll poll r s =
     (case poll of (latest_block, latest_time) \<Rightarrow>
        let s = s\<lparr>ls_known_block_times := remember_block_time latest_block latest_time (ls_known_block_times s)\<rparr>;
            next_block = reg_last_processed_block r + 1
        in if next_block > latest_block then Some s
           else map_option (\<lambda>batches. s\<lparr>ls_batches := batches\<rparr>)
                  (latest_batches (ls_max_blocks_per_batch s) latest_block next_block))"

definition latest_turn ::
    "rpc \<Rightarrow> u64 \<times> u64 \<Rightarrow> registry \<Rightarrow> latest_source \<Rightarrow> (latest_source \<times> event_batch option) option" where
  "latest_turn rpc poll r s =
     (case ls_batches s of
        batch # batches \<Rightarrow> latest_yield rpc batch r (s\<lparr>ls_batches := batches\<rparr>)
      | [] \<Rightarrow> map_option (\<lambda>s. (s, None)) (latest_poll poll r s))"

section \<open>What a batch does to the registry\<close>

text \<open>
  The updater's dispatch on the mode (\<^verbatim>\<open>src/collector/unified_pool_updater.rs\<close>), which then moves the cursor.
  The second component is what is sent on; a panic is an error.
\<close>

definition process_events ::
    "processor \<Rightarrow> (log_groups \<Rightarrow> log_groups) \<Rightarrow> u64 \<Rightarrow> processing_mode \<Rightarrow> chain_log list \<Rightarrow> registry \<Rightarrow>
     registry \<times> chain_log list res" where
  "process_events pr iteration now mode events r =
     (case mode of
        ApplyOnly \<Rightarrow> map_prod id (map_sum id (\<lambda>_. [])) (apply_events_to_registry iteration now events r)
      | ConfirmedWithSwaps \<Rightarrow> process_confirmed_events pr now events r
      | PendingMode \<Rightarrow> (r, map_sum id snd (process_pending_events pr now r events)))"

definition process_batch ::
    "processor \<Rightarrow> (log_groups \<Rightarrow> log_groups) \<Rightarrow> u64 \<Rightarrow> event_batch \<Rightarrow> registry \<Rightarrow> registry \<times> chain_log list res" where
  "process_batch pr iteration now b r =
     (case process_events pr iteration now (eb_mode b) (eb_events b) r of
        (r, Inl e) \<Rightarrow> (r, Inl e)
      | (r, Inr sent) \<Rightarrow>
          ((case eb_processed_through_block b of None \<Rightarrow> r | Some n \<Rightarrow> set_last_processed_block n r), Ok sent))"

lemma confirmed_registry:
  assumes "bt_inv (reg_pools r)" and "\<forall>l \<in> set events. mined l"
  shows "process_confirmed_events pr now events r = (fold (apply_at now) events r,
    Ok (if pr_swap_event_tx pr then swaps_of pr r (group_logs events) else []))"
proof -
  let ?gs = "group_logs events"
  note g = group_logs_groups [of events]
  have m: "\<forall>(a, ls) \<in> set ?gs. \<forall>l \<in> set ls. mined l" by (rule group_logs_hashed [OF g assms(2)])
  have "\<forall>l \<in> set events. log_transaction_hash l \<noteq> None" using assms(2) by (simp add: mined_def)
  note a = apply_groups_fold [OF assms(1) g this, of now]
  have "\<forall>l \<in> set (swaps_of pr r ?gs). mined l" using m by (auto simp: swaps_of_def split: if_splits)
  from send_swap_events_all [OF this, of "[]"] show ?thesis
    by (simp add: process_confirmed_events_def confirm_groups_all [OF assms(1) m] a)
qed

lemma pending_sends:
  assumes "\<forall>l \<in> set events. mined l"
  shows "\<exists>ms. process_pending_events pr now r events = Ok ms"
proof -
  have "speculative now r [] []" by (simp add: speculative_def bt_inv_def)
  from pend_events_all [OF assms this, of pr "[]"] show ?thesis by (auto simp: process_pending_events_def)
qed

lemma process_batch_registry:
  assumes "bt_inv (reg_pools r)" and "\<forall>l \<in> set (eb_events b). mined l" and "\<And>gs. mset (iteration gs) = mset gs"
  shows "fst (process_batch pr iteration now b r) =
      (case eb_processed_through_block b of None \<Rightarrow> (\<lambda>r. r) | Some n \<Rightarrow> set_last_processed_block n)
        (if eb_mode b = PendingMode then r else fold (apply_at now) (eb_events b) r)"
    and "\<exists>sent. snd (process_batch pr iteration now b r) = Ok sent"
proof -
  have h: "\<forall>l \<in> set (eb_events b). log_transaction_hash l \<noteq> None" using assms(2) by (simp add: mined_def)
  have a: "apply_events_to_registry iteration now (eb_events b) r = (fold (apply_at now) (eb_events b) r, Ok ())"
    unfolding apply_events_to_registry_def
    by (rule apply_groups_fold [OF assms(1) groups_permuted [OF group_logs_groups assms(3)] h])
  have p: "\<exists>sent. process_events pr iteration now (eb_mode b) (eb_events b) r =
      (if eb_mode b = PendingMode then r else fold (apply_at now) (eb_events b) r, Ok sent)"
    using a confirmed_registry [OF assms(1,2), of pr now] pending_sends [OF assms(2), of pr now r]
    by (auto simp: process_events_def split: processing_mode.splits)
  then show "fst (process_batch pr iteration now b r) =
      (case eb_processed_through_block b of None \<Rightarrow> (\<lambda>r. r) | Some n \<Rightarrow> set_last_processed_block n)
        (if eb_mode b = PendingMode then r else fold (apply_at now) (eb_events b) r)"
    and "\<exists>sent. snd (process_batch pr iteration now b r) = Ok sent"
    by (auto simp: process_batch_def split: option.splits)
qed

end
