(* ===== verification/Settler.thy ===== *)
theory Settler
  imports Event_Queue "HOL-Library.Multiset"
begin

text \<open>
  \<^verbatim>\<open>BlockSettler\<close> of \<^verbatim>\<open>src/collector/block_source.rs\<close>: it holds websocket logs per block until the block is
  complete and hands blocks on whole, oldest first, in chain order. Instants and durations are
  milliseconds.
\<close>

section \<open>State and operations\<close>

record settled =
  st_block :: u64
  st_logs :: "chain_log list"
  st_late :: bool
  st_processed_through :: u64

record block_settler =
  bs_settle :: nat
  bs_pending :: "(u64, chain_log list \<times> nat) btree"
  bs_released_through :: u64

definition settler_new :: "nat \<Rightarrow> u64 \<Rightarrow> block_settler" where
  "settler_new settle released_through =
     \<lparr>bs_settle = settle, bs_pending = [], bs_released_through = released_through\<rparr>"

text \<open>A log without a block is filed with the last block handed on.\<close>

definition block_for :: "block_settler \<Rightarrow> chain_log \<Rightarrow> u64" where
  "block_for s l = (case log_block_number l of None \<Rightarrow> bs_released_through s | Some n \<Rightarrow> n)"

definition settler_add_log :: "nat \<Rightarrow> chain_log \<Rightarrow> block_settler \<Rightarrow> block_settler" where
  "settler_add_log now l s =
     (let b = block_for s l;
          logs = (case bt_get (bs_pending s) b of None \<Rightarrow> [] | Some (logs, _) \<Rightarrow> logs)
      in s\<lparr>bs_pending := bt_insert b (logs @ [l], now) (bs_pending s)\<rparr>)"

definition settler_add :: "chain_log list \<Rightarrow> nat \<Rightarrow> block_settler \<Rightarrow> block_settler" where
  "settler_add ls now s = fold (settler_add_log now) (filter (\<lambda>l. \<not> log_removed l) ls) s"

definition in_block_key :: "chain_log \<Rightarrow> u64 \<times> u64" where
  "in_block_key l =
     (case log_transaction_index l of None \<Rightarrow> - 1 | Some t \<Rightarrow> t, case log_index l of None \<Rightarrow> - 1 | Some i \<Rightarrow> i)"

definition take_ready :: "nat \<Rightarrow> block_settler \<Rightarrow> block_settler \<times> settled option" where
  "take_ready now s =
     (case bs_pending s of
        [] \<Rightarrow> (s, None)
      | (block, logs, last_arrival) # rest \<Rightarrow>
          let later_block_started = rest \<noteq> []
          in if \<not> later_block_started \<and> now - last_arrival < bs_settle s then (s, None)
             else
               let logs = sort_key in_block_key logs;
                   late = block \<le> bs_released_through s;
                   released = max (bs_released_through s) block
               in (s\<lparr>bs_pending := rest, bs_released_through := released\<rparr>,
                   Some \<lparr>st_block = block, st_logs = logs, st_late = late, st_processed_through = released\<rparr>))"

definition next_deadline :: "block_settler \<Rightarrow> nat option" where
  "next_deadline s = (case bs_pending s of [] \<Rightarrow> None | (_, _, last_arrival) # _ \<Rightarrow> Some (last_arrival + bs_settle s))"

section \<open>A run of the settler\<close>

datatype settler_op = Arrive "chain_log list" nat | Take nat

fun settler_run :: "settler_op list \<Rightarrow> block_settler \<Rightarrow> block_settler \<times> settled list" where
  "settler_run [] s = (s, [])"
| "settler_run (Arrive ls now # ops) s = settler_run ops (settler_add ls now s)"
| "settler_run (Take now # ops) s =
     (case take_ready now s of
        (s, None) \<Rightarrow> settler_run ops s
      | (s, Some b) \<Rightarrow> (case settler_run ops s of (s', bs) \<Rightarrow> (s', b # bs)))"

fun arrived :: "settler_op list \<Rightarrow> chain_log list" where
  "arrived [] = []"
| "arrived (Arrive ls now # ops) = ls @ arrived ops"
| "arrived (Take now # ops) = arrived ops"

text \<open>The logs in hand, and that each is filed under its block.\<close>

definition held_logs :: "block_settler \<Rightarrow> chain_log list" where
  "held_logs s = concat (map (\<lambda>(_, logs, _). logs) (bs_pending s))"

definition filed :: "u64 \<Rightarrow> chain_log list \<Rightarrow> bool" where
  "filed b logs \<longleftrightarrow> (\<forall>l \<in> set logs. log_block_number l = None \<or> log_block_number l = Some b)"

definition settler_inv :: "block_settler \<Rightarrow> bool" where
  "settler_inv s \<longleftrightarrow> bt_inv (bs_pending s) \<and> (\<forall>(b, logs, _) \<in> set (bs_pending s). filed b logs)"

lemma mset_insert_entry:
  fixes m :: "(u64, chain_log list \<times> nat) btree"
  assumes "bt_inv m"
  shows "mset (concat (map (\<lambda>(_, logs, _). logs)
      (bt_insert b ((case bt_get m b of None \<Rightarrow> [] | Some (logs, _) \<Rightarrow> logs) @ [l], now) m))) =
    add_mset l (mset (concat (map (\<lambda>(_, logs, _). logs) m)))"
  using assms
proof (induction m)
  case (Cons e m)
  obtain k logs t where e: "e = (k, logs, t)" by (cases e) auto
  have i: "bt_inv m" "\<forall>j \<in> fst ` set m. k < j" using Cons.prems by (simp_all add: e bt_inv_Cons)
  have n: "bt_get m b = None" if "b \<le> k" by (rule bt_get_below) (use i(2) that in force)
  consider "b = k" | "b < k" | "k < b" by fastforce
  then show ?case
  proof cases
    case 3
    then have "b \<noteq> k" "\<not> b < k" by auto
    then show ?thesis using Cons.IH [OF i(1)] by (simp add: e)
  qed (simp_all add: e n)
qed simp

lemma add_log_inv:
  assumes "settler_inv s"
  shows "settler_inv (settler_add_log now l s)" and "mset (held_logs (settler_add_log now l s)) = add_mset l (mset (held_logs s))"
    and "bs_released_through (settler_add_log now l s) = bs_released_through s"
proof -
  have i: "bt_inv (bs_pending s)" and f: "\<And>b logs t. (b, logs, t) \<in> set (bs_pending s) \<Longrightarrow> filed b logs"
    using assms by (auto simp: settler_inv_def)
  let ?b = "block_for s l"
  let ?logs = "(case bt_get (bs_pending s) ?b of None \<Rightarrow> [] | Some (logs, _) \<Rightarrow> logs) @ [l]"
  have g: "filed ?b ?logs"
  proof (cases "bt_get (bs_pending s) ?b")
    case None
    then show ?thesis by (simp add: filed_def block_for_def split: option.splits)
  next
    case (Some e)
    then have "(?b, fst e, snd e) \<in> set (bs_pending s)" using bt_get_set [OF i, of ?b e] by simp
    from f [OF this] Some show ?thesis
      by (cases e) (auto simp: filed_def block_for_def split: option.splits)
  qed
  have "filed b logs" if "(b, logs, t) \<in> set (bt_insert ?b (?logs, now) (bs_pending s))" for b logs t
    using that f g bt_get_set [OF i] bt_get_set [OF bt_inv_insert [OF i], of b _ ?b "(?logs, now)"]
    by (auto simp: bt_simps i split: if_splits)
  then show "settler_inv (settler_add_log now l s)"
    using i by (auto simp: settler_inv_def settler_add_log_def Let_def bt_simps)
  show "mset (held_logs (settler_add_log now l s)) = add_mset l (mset (held_logs s))"
    using mset_insert_entry [OF i, of ?b l now] by (simp add: held_logs_def settler_add_log_def Let_def)
  show "bs_released_through (settler_add_log now l s) = bs_released_through s"
    by (simp add: settler_add_log_def Let_def)
qed

lemma add_inv:
  assumes "settler_inv s"
  shows "settler_inv (settler_add ls now s) \<and>
    mset (held_logs (settler_add ls now s)) = mset (held_logs s) + mset (filter (\<lambda>l. \<not> log_removed l) ls) \<and>
    bs_released_through (settler_add ls now s) = bs_released_through s"
  using assms
proof (induction ls arbitrary: s)
  case (Cons l ls)
  show ?case
  proof (cases "log_removed l")
    case True
    then show ?thesis using Cons by (simp add: settler_add_def)
  next
    case False
    then show ?thesis
      using Cons.IH [OF add_log_inv(1) [OF Cons.prems], of now l] add_log_inv(2,3) [OF Cons.prems]
      by (simp add: settler_add_def)
  qed
qed (simp add: settler_add_def)

text \<open>What a settled block promises, given what was handed on before it.\<close>

definition well_settled :: "u64 \<Rightarrow> settled \<Rightarrow> bool" where
  "well_settled released b \<longleftrightarrow> sorted (map in_block_key (st_logs b)) \<and> filed (st_block b) (st_logs b) \<and>
     st_late b = (st_block b \<le> released) \<and> st_processed_through b = max released (st_block b)"

lemma take_ready_inv:
  assumes "settler_inv s" and "take_ready now s = (s', ob)"
  shows "settler_inv s' \<and>
    (case ob of
       None \<Rightarrow> s' = s
     | Some b \<Rightarrow> well_settled (bs_released_through s) b \<and> bs_released_through s' = st_processed_through b \<and>
         mset (held_logs s) = mset (st_logs b) + mset (held_logs s'))"
proof (cases "bs_pending s")
  case Nil
  then show ?thesis using assms by (auto simp: take_ready_def)
next
  case (Cons e rest)
  obtain b logs t where e: "e = (b, logs, t)" by (cases e) auto
  have "settler_inv (s\<lparr>bs_pending := rest, bs_released_through := x\<rparr>)" for x
    using assms(1) Cons by (cases e) (simp add: settler_inv_def bt_inv_Cons)
  moreover have "filed b (sort_key in_block_key logs)"
    using assms(1) Cons e by (simp add: settler_inv_def filed_def)
  moreover have "sorted (map in_block_key (sort_key in_block_key logs))" by (rule sorted_sort_key)
  ultimately show ?thesis
    using assms Cons e by (auto simp: take_ready_def well_settled_def held_logs_def Let_def split: if_splits)
qed

text \<open>The blocks of a run, each judged by what was handed on before it.\<close>

fun settled_in_turn :: "u64 \<Rightarrow> settled list \<Rightarrow> bool" where
  "settled_in_turn released [] = True"
| "settled_in_turn released (b # bs) = (well_settled released b \<and> settled_in_turn (st_processed_through b) bs)"

lemma settler_run_inv:
  assumes "settler_inv s" and "settler_run ops s = (s', bs)"
  shows "settler_inv s' \<and> settled_in_turn (bs_released_through s) bs \<and>
    mset (held_logs s) + mset (filter (\<lambda>l. \<not> log_removed l) (arrived ops)) = mset (concat (map st_logs bs)) + mset (held_logs s')"
  using assms
proof (induction ops s arbitrary: bs rule: settler_run.induct)
  case (2 ls now ops s)
  then show ?case using add_inv [OF 2(2), of ls now] by (simp add: ac_simps)
next
  case (3 now ops s)
  obtain s1 ob where t: "take_ready now s = (s1, ob)" by fastforce
  note i = take_ready_inv [OF 3(3) t]
  show ?case
  proof (cases ob)
    case None
    then show ?thesis using 3 t i by simp
  next
    case (Some b)
    obtain bs' where "settler_run ops s1 = (s', bs')" "bs = b # bs'"
      using 3(4) t Some by (auto split: prod.splits)
    then show ?thesis using 3(2) [OF t [symmetric] Some] t Some i by (simp add: ac_simps)
  qed
qed simp

lemma settled_blocks:
  "settled_in_turn released bs \<Longrightarrow>
    (\<forall>b \<in> set bs. sorted (map in_block_key (st_logs b)) \<and> filed (st_block b) (st_logs b) \<and>
       st_block b \<le> st_processed_through b \<and> released \<le> st_processed_through b) \<and>
    sorted (map st_processed_through bs) \<and>
    sorted_wrt (<) (map st_block (filter (\<lambda>b. \<not> st_late b) bs)) \<and>
    (\<forall>b \<in> set bs. \<not> st_late b \<longrightarrow> released < st_block b)"
proof (induction bs arbitrary: released)
  case (Cons b bs)
  then have w: "well_settled released b" and i: "settled_in_turn (st_processed_through b) bs" by simp_all
  note IH = Cons.IH [OF i]
  have p: "st_processed_through b = max released (st_block b)" using w by (simp add: well_settled_def)
  have r: "released \<le> st_processed_through b" "st_block b \<le> st_processed_through b" by (simp_all add: p)
  have l: "st_processed_through b < st_block c" if "c \<in> set bs" "\<not> st_late c" for c using IH that by blast
  have o: "\<forall>c \<in> set bs. st_processed_through b \<le> st_processed_through c" using IH by blast
  show ?case
    using w IH r l o by (auto simp: well_settled_def dest: order_trans le_less_trans)
qed simp

section \<open>Properties\<close>

text \<open>C21: whatever arrives and whenever the settler is asked, no log is lost or handed on twice (a retracted one
  is dropped), every block handed on holds only logs of that block, in chain order, the
  processed-through mark never goes back, and blocks handed on in time come in strictly
  increasing order.\<close>

theorem settler_hands_on_whole_blocks:
  assumes "settler_run ops (settler_new settle released) = (s, bs)"
  shows "mset (concat (map st_logs bs)) + mset (held_logs s) = mset (filter (\<lambda>l. \<not> log_removed l) (arrived ops)) \<and>
    (\<forall>b \<in> set bs. sorted (map in_block_key (st_logs b)) \<and> filed (st_block b) (st_logs b) \<and>
       st_block b \<le> st_processed_through b) \<and>
    sorted (map st_processed_through bs) \<and>
    sorted_wrt (<) (map st_block (filter (\<lambda>b. \<not> st_late b) bs))"
proof -
  have i: "settler_inv (settler_new settle released)" by (simp add: settler_inv_def settler_new_def bt_inv_def)
  have h: "held_logs (settler_new settle released) = []" by (simp add: held_logs_def settler_new_def)
  note r = settler_run_inv [OF i assms]
  have "mset (concat (map st_logs bs)) + mset (held_logs s) = mset (filter (\<lambda>l. \<not> log_removed l) (arrived ops))"
    using r by (simp add: h)
  moreover note settled_blocks [OF r [THEN conjunct2, THEN conjunct1]]
  ultimately show ?thesis by blast
qed

theorem settler_hands_on_whole_blocks_witness:
  "mset (concat (map st_logs (snd (settler_run
      [Arrive [sample_log 1 5 2, sample_log 2 5 1] 100, Take 105, Arrive [sample_log 3 6 0] 106, Take 107] (settler_new 10 4))))) +
   mset (held_logs (fst (settler_run
      [Arrive [sample_log 1 5 2, sample_log 2 5 1] 100, Take 105, Arrive [sample_log 3 6 0] 106, Take 107] (settler_new 10 4)))) =
   mset [sample_log 1 5 2, sample_log 2 5 1, sample_log 3 6 0]"
  using settler_hands_on_whole_blocks [OF prod.collapse [symmetric],
      of "[Arrive [sample_log 1 5 2, sample_log 2 5 1] 100, Take 105, Arrive [sample_log 3 6 0] 106, Take 107]" 10 4]
  by (simp add: sample_log_def)

end
