(* ===== verification/Feed_Progress.thy ===== *)
theory Feed_Progress
  imports Event_Queue
begin

text \<open>
  \<^verbatim>\<open>FeedProgress\<close> and the receive loop of \<^verbatim>\<open>src/collector/websocket_listener.rs\<close>: what a websocket feed has
  delivered, across its connections, and the gaps it notes in the event queue when logs may have been
  lost. Connecting, pinging and the stall clock are I/O and left out: a connection is the events
  its loop receives.
\<close>

section \<open>The feed\<close>

record feed_progress =
  fp_subscribed_before :: bool
  fp_last_forwarded :: "log_position option"
  fp_gap_open :: bool

definition feed_new :: feed_progress where
  "feed_new = \<lparr>fp_subscribed_before = False, fp_last_forwarded = None, fp_gap_open = False\<rparr>"

definition subscribed :: "feed_progress \<Rightarrow> feed_progress \<times> bool" where
  "subscribed f = (f\<lparr>fp_subscribed_before := True, fp_gap_open := True\<rparr>, fp_subscribed_before f)"

definition lagged :: "feed_progress \<Rightarrow> feed_progress" where
  "lagged f = f\<lparr>fp_gap_open := True\<rparr>"

definition later_position :: "log_position option \<Rightarrow> log_position \<Rightarrow> log_position" where
  "later_position last_position p = (case last_position of None \<Rightarrow> p | Some q \<Rightarrow> max q p)"

definition forwarding :: "chain_log \<Rightarrow> feed_progress \<Rightarrow> feed_progress \<times> gap option" where
  "forwarding l f =
     (if log_removed l then (f, None)
      else case position_of l of
             None \<Rightarrow> (f, None)
           | Some p \<Rightarrow>
               (f\<lparr>fp_gap_open := False, fp_last_forwarded := Some (later_position (fp_last_forwarded f) p)\<rparr>,
                if fp_gap_open f then Some \<lparr>gap_after = fp_last_forwarded f, gap_before = p\<rparr> else None))"

text \<open>What the receive loop sees; a failed send is only logged.\<close>

datatype feed_event = Subscribed | LogsLagged | LogReceived chain_log | HeaderReceived u64 u64 | HeadersLagged

fun feed_step :: "feed_event \<Rightarrow> feed_progress \<times> event_queue \<Rightarrow> feed_progress \<times> event_queue" where
  "feed_step Subscribed (f, q) = (fst (subscribed f), q)"
| "feed_step LogsLagged (f, q) = (lagged f, q)"
| "feed_step (LogReceived l) (f, q) =
     (case forwarding l f of
        (f, gap) \<Rightarrow>
          let q = (case gap of None \<Rightarrow> q | Some g \<Rightarrow> note_gap g q)
          in (f, fst (send l q)))"
| "feed_step (HeaderReceived n t) (f, q) = (f, record_block_time n t q)"
| "feed_step HeadersLagged (f, q) = (f, q)"

section \<open>What a feed may lose\<close>

text \<open>
  A history of the chain's logs as the feed meets them: some it receives, some are lost to it. Losing
  is silent, but always announced before the next log it receives: the subscription is made anew
  or the channel reports the overflow.
\<close>

datatype feed_history = Received feed_event | Lost chain_log

fun feed_run :: "feed_history list \<Rightarrow> feed_progress \<times> event_queue \<Rightarrow> feed_progress \<times> event_queue" where
  "feed_run [] s = s"
| "feed_run (Received e # h) s = feed_run h (feed_step e s)"
| "feed_run (Lost l # h) s = feed_run h s"

definition beyond :: "'a::linorder option \<Rightarrow> 'a \<Rightarrow> bool" where
  "beyond last_position p = (case last_position of None \<Rightarrow> True | Some q \<Rightarrow> q < p)"

definition next_position :: "log_position option \<Rightarrow> chain_log \<Rightarrow> log_position option" where
  "next_position last_position l =
     (case position_of l of None \<Rightarrow> None | Some p \<Rightarrow> if beyond last_position p then Some p else None)"

text \<open>\<open>announced last missing h\<close>: logs come in chain order after \<open>last\<close>, and \<open>missing\<close> losses are announced in time.\<close>

fun announced :: "log_position option \<Rightarrow> bool \<Rightarrow> feed_history list \<Rightarrow> bool" where
  "announced p missing [] = True"
| "announced p missing (Lost l # h) = (next_position p l \<noteq> None \<and> announced (next_position p l) True h)"
| "announced p missing (Received (LogReceived l) # h) =
     (if log_removed l then announced p missing h
      else next_position p l \<noteq> None \<and> \<not> missing \<and> announced (next_position p l) missing h)"
| "announced p missing (Received Subscribed # h) = announced p False h"
| "announced p missing (Received LogsLagged # h) = announced p False h"
| "announced p missing (Received e # h) = announced p missing h"

fun receives :: "feed_history list \<Rightarrow> bool" where
  "receives [] = False"
| "receives (Received (LogReceived l) # h) = (\<not> log_removed l \<or> receives h)"
| "receives (_ # h) = receives h"

text \<open>The lost logs after which the feed received another.\<close>

fun lost_within :: "feed_history list \<Rightarrow> chain_log list" where
  "lost_within [] = []"
| "lost_within (Lost l # h) = (if receives h then [l] else []) @ lost_within h"
| "lost_within (Received e # h) = lost_within h"

definition covers :: "gap list \<Rightarrow> log_position \<Rightarrow> bool" where
  "covers gs p \<longleftrightarrow> (\<exists>g \<in> set gs. beyond (gap_after g) p \<and> p < gap_before g)"

section \<open>Gaps\<close>

lemma send_gaps [simp]: "q_gaps (fst (send l q)) = q_gaps q"
  by (auto simp: send_def record_event_def prune_oldest_def Let_def split: option.splits list.splits sum.splits bool.splits)

lemma record_time_gaps [simp]: "q_gaps (record_block_time n t q) = q_gaps q"
  by (simp add: record_block_time_def Let_def split: option.splits)

lemma covers_mono: "set gs \<subseteq> set gs' \<Longrightarrow> covers gs p \<Longrightarrow> covers gs' p"
  by (auto simp: covers_def)

lemma feed_step_gaps: "set (q_gaps q) \<subseteq> set (q_gaps (snd (feed_step e (f, q))))"
  by (cases e) (auto simp: note_gap_def Let_def split: prod.splits option.splits)

lemma feed_run_gaps: "set (q_gaps q) \<subseteq> set (q_gaps (snd (feed_run h (f, q))))"
proof (induction h arbitrary: f q)
  case (Cons x h)
  show ?case
  proof (cases x)
    case (Received e)
    obtain f' q' where s: "feed_step e (f, q) = (f', q')" by fastforce
    then show ?thesis using Cons.IH [of q' f'] feed_step_gaps [of q e f] Received by auto
  next
    case (Lost l)
    then show ?thesis using Cons.IH by simp
  qed
qed simp

text \<open>
  \<open>open_losses\<close> are positions lost since the last log received: after it, not after \<open>p\<close>, and either
  still unannounced or behind an open gap.
\<close>

definition within :: "'a::linorder option \<Rightarrow> 'a \<Rightarrow> bool" where
  "within p x \<longleftrightarrow> (\<exists>q. p = Some q \<and> x \<le> q)"

definition losing :: "log_position option \<Rightarrow> bool \<Rightarrow> log_position set \<Rightarrow> feed_progress \<Rightarrow> bool" where
  "losing p missing open_losses f \<longleftrightarrow>
     (\<forall>x \<in> open_losses. beyond (fp_last_forwarded f) x \<and> within p x) \<and>
     (open_losses \<noteq> {} \<longrightarrow> missing \<or> fp_gap_open f) \<and>
     (case fp_last_forwarded f of None \<Rightarrow> True | Some x \<Rightarrow> within p x)"

lemma next_position_Some: "next_position p l = Some x \<longleftrightarrow> position_of l = Some x \<and> beyond p x"
  by (cases "position_of l") (auto simp: next_position_def simp del: split_paired_All split_paired_Ex)

lemma within_less: "within p x \<Longrightarrow> beyond p y \<Longrightarrow> x < y" for x y :: "'a::linorder"
  by (cases p) (simp_all add: within_def beyond_def)

lemma within_later: "within p x \<Longrightarrow> beyond p y \<Longrightarrow> within (Some y) x" for x y :: "'a::linorder"
  using within_less [of p x y] by (simp add: within_def)

lemma losing_beyond: "losing p missing M f \<Longrightarrow> beyond p x \<Longrightarrow> beyond (fp_last_forwarded f) x"
  using within_less [of p _ x] by (cases "fp_last_forwarded f") (simp_all add: losing_def beyond_def)

lemma losing_lost:
  assumes "losing p missing M f" and "next_position p l = Some x"
  shows "losing (Some x) True (insert x M) f"
proof -
  have x: "beyond p x" using assms(2) by (simp add: next_position_Some)
  have "within (Some x) y" if "within p y" for y by (rule within_later [OF that x])
  then show ?thesis
    using assms(1) losing_beyond [OF assms(1) x] by (auto simp: losing_def within_def [of "Some x" x] split: option.splits)
qed

lemma losing_received:
  assumes "losing p False M f" and "next_position p l = Some x" and "\<not> log_removed l"
  shows "losing (Some x) False {} (fst (forwarding l f))"
    and "y \<in> M \<Longrightarrow> covers (q_gaps (snd (feed_step (LogReceived l) (f, q)))) y"
proof -
  have x: "position_of l = Some x" "beyond p x" using assms(2) by (simp_all add: next_position_Some)
  have b: "beyond (fp_last_forwarded f) x" by (rule losing_beyond [OF assms(1) x(2)])
  have "later_position (fp_last_forwarded f) x = x"
    using b by (cases "fp_last_forwarded f") (simp_all add: later_position_def beyond_def max_absorb2)
  then show "losing (Some x) False {} (fst (forwarding l f))"
    using assms(3) x by (simp add: losing_def forwarding_def within_def)
  show "covers (q_gaps (snd (feed_step (LogReceived l) (f, q)))) y" if "y \<in> M"
  proof -
    have "within p y" "beyond (fp_last_forwarded f) y" using assms(1) that by (simp_all add: losing_def)
    moreover have "fp_gap_open f" using assms(1) that by (auto simp: losing_def)
    ultimately show ?thesis
      using within_less [OF _ x(2)] assms(3) x(1) by (simp add: forwarding_def note_gap_def covers_def)
  qed
qed

lemma feed_covers:
  assumes "announced p missing h" and "losing p missing M f"
  shows "(receives h \<longrightarrow> (\<forall>y \<in> M. covers (q_gaps (snd (feed_run h (f, q)))) y)) \<and>
    (\<forall>l \<in> set (lost_within h). \<exists>x. position_of l = Some x \<and> covers (q_gaps (snd (feed_run h (f, q)))) x)"
  using assms
proof (induction p missing h arbitrary: M f q rule: announced.induct)
  case (2 p missing l h)
  obtain x where x: "next_position p l = Some x" using 2(2) by auto
  have "announced (Some x) True h" using 2(2) x by simp
  then have IH: "(receives h \<longrightarrow> (\<forall>y \<in> insert x M. covers (q_gaps (snd (feed_run h (f, q)))) y)) \<and>
      (\<forall>l \<in> set (lost_within h). \<exists>x. position_of l = Some x \<and> covers (q_gaps (snd (feed_run h (f, q)))) x)"
    using 2(1) [of "insert x M" f q] losing_lost [OF 2(3) x] x by simp
  have "position_of l = Some x" using x by (simp add: next_position_Some)
  with IH show ?case by (auto simp del: split_paired_All split_paired_Ex)
next
  case (3 p missing l h)
  show ?case
  proof (cases "log_removed l")
    case True
    obtain q' where "feed_step (LogReceived l) (f, q) = (f, q')" using True by (simp add: forwarding_def)
    then show ?thesis using 3(1) [OF True, of M f q'] 3(3,4) True by simp
  next
    case False
    obtain x where x: "next_position p l = Some x" and m: "\<not> missing" using 3(3) False by auto
    obtain f' q' where s: "feed_step (LogReceived l) (f, q) = (f', q')" by fastforce
    have f': "f' = fst (forwarding l f)" using s by (auto split: prod.splits simp: Let_def)
    have lo: "losing p False M f" using 3(4) m by simp
    have n: "losing (Some x) missing {} f'" using losing_received(1) [OF lo x False] f' m by simp
    have an: "announced (next_position p l) missing h" using 3(3) False m by (simp del: split_paired_Ex)
    have "covers (q_gaps q') y" if "y \<in> M" for y
      using losing_received(2) [OF lo x False that, of q] s by simp
    then have "covers (q_gaps (snd (feed_run h (f', q')))) y" if "y \<in> M" for y
      using that covers_mono [OF feed_run_gaps] by blast
    moreover have "feed_run (Received (LogReceived l) # h) (f, q) = feed_run h (f', q')"
      by (simp only: feed_run.simps s)
    ultimately show ?thesis
      using 3(2) [OF False an, of "{}" f' q'] n x by (simp del: split_paired_Ex split_paired_All feed_step.simps)
  qed
next
  case (4 p missing h)
  have "losing p False M (fst (subscribed f))" using 4(3) by (auto simp: losing_def subscribed_def)
  with 4(1) [of M "fst (subscribed f)" q] 4(2) show ?case by simp
next
  case (5 p missing h)
  have "losing p False M (lagged f)" using 5(3) by (auto simp: losing_def lagged_def)
  with 5(1) [of M "lagged f" q] 5(2) show ?case by simp
qed simp_all

section \<open>Properties\<close>

text \<open>C22: every log a feed lost, whether the connection was down, had not begun or its channel overflowed, lies
  strictly inside a gap the feed has noted by the time it forwards the next log.\<close>

theorem lost_logs_fall_in_gaps:
  assumes "announced None True h" and "l \<in> set (lost_within h)"
  shows "\<exists>x. position_of l = Some x \<and> covers (q_gaps (snd (feed_run h (feed_new, q)))) x"
proof -
  have "losing None True {} feed_new" by (simp add: losing_def feed_new_def)
  from feed_covers [OF assms(1) this] assms(2) show ?thesis by blast
qed

theorem lost_logs_fall_in_gaps_witness:
  "covers (q_gaps (snd (feed_run [Received Subscribed, Received (LogReceived (sample_log 1 5 0)), Lost (sample_log 2 5 1),
     Lost (sample_log 3 6 0), Received LogsLagged, Received (LogReceived (sample_log 4 6 2))] (feed_new, queue_new 10 10 1)))) (6, 0, 0)"
  using lost_logs_fall_in_gaps [of "[Received Subscribed, Received (LogReceived (sample_log 1 5 0)), Lost (sample_log 2 5 1),
     Lost (sample_log 3 6 0), Received LogsLagged, Received (LogReceived (sample_log 4 6 2))]" "sample_log 3 6 0" "queue_new 10 10 1"]
  by (simp add: next_position_def beyond_def position_of_def sample_log_def)

end
