(* ===== verification/Websocket.thy ===== *)
theory Websocket
  imports Block_Source Settler Feed_Progress
begin

text \<open>
  \<^verbatim>\<open>WebsocketBlockSource\<close> of \<^verbatim>\<open>src/collector/block_source.rs\<close>: it brings the registry up to the first queued
  log over RPC, then hands on the blocks the settler completes, filling the gaps the feed notes. The
  event queue is shared with the feeds, so it is an argument and a result; the node's head, read
  again and again while a gap fill waits, is a parameter like its other answers. Logging and the
  waits between turns are left out.
\<close>

section \<open>The source\<close>

record ws_source =
  ws_topics :: "topic list"
  ws_max_blocks_per_batch :: u64
  ws_block_settle :: nat
  ws_settler :: block_settler
  ws_fill_reconnect_gaps :: bool
  ws_fill_floor :: log_position
  ws_apply_only_through :: u64

definition ws_new :: "topic list \<Rightarrow> u64 \<Rightarrow> nat \<Rightarrow> bool \<Rightarrow> ws_source" where
  "ws_new topics max_blocks_per_batch block_settle fill_reconnect_gaps =
     \<lparr>ws_topics = topics, ws_max_blocks_per_batch = max_blocks_per_batch, ws_block_settle = block_settle,
      ws_settler = settler_new block_settle 0, ws_fill_reconnect_gaps = fill_reconnect_gaps,
      ws_fill_floor = (0, 0, 0), ws_apply_only_through = 0\<rparr>"

section \<open>Filling a gap\<close>

text \<open>\<open>heads k\<close> is what the node answers to the attempts of the \<open>k\<close>-th call. No deadline: \<open>None\<close> is waiting for ever.\<close>

partial_function (option) wait_until_rpc_passes :: "(nat \<Rightarrow> u64 attempts) \<Rightarrow> nat \<Rightarrow> u64 \<Rightarrow> unit option" where
  "wait_until_rpc_passes heads k block =
     (case get_block_number_with_retry (heads k) of
        None \<Rightarrow> None
      | Some head \<Rightarrow> if head > block then Some () else wait_until_rpc_passes heads (k + 1) block)"

declare wait_until_rpc_passes.simps [code]

definition gap_empty :: "log_position \<Rightarrow> gap \<Rightarrow> bool" where
  "gap_empty floor g \<longleftrightarrow> gap_before g \<le> floor \<or> (case gap_after g of None \<Rightarrow> False | Some a \<Rightarrow> gap_before g \<le> a)"

definition gap_from :: "log_position \<Rightarrow> gap \<Rightarrow> u64" where
  "gap_from floor g = max (case gap_after g of None \<Rightarrow> fst floor | Some (block, _, _) \<Rightarrow> block) (fst floor)"

definition in_gap :: "log_position \<Rightarrow> gap \<Rightarrow> log_position \<Rightarrow> bool" where
  "in_gap floor g p \<longleftrightarrow>
     (case gap_after g of None \<Rightarrow> True | Some a \<Rightarrow> p > a) \<and> p < gap_before g \<and> p \<ge> floor"

text \<open>A log that cannot be claimed is skipped with an error message.\<close>

definition take_missed :: "log_position \<Rightarrow> gap \<Rightarrow> chain_log \<Rightarrow> event_queue \<times> chain_log list \<Rightarrow> event_queue \<times> chain_log list" where
  "take_missed floor g l = (\<lambda>(q, missed).
     (case position_of l of
        None \<Rightarrow> (q, missed)
      | Some p \<Rightarrow>
          if log_removed l \<or> \<not> in_gap floor g p then (q, missed)
          else case claim l q of
                 (q, Inr True) \<Rightarrow> (q, missed @ [l])
               | (q, _) \<Rightarrow> (q, missed)))"

fun fetch_ranges ::
    "rpc \<Rightarrow> registry \<Rightarrow> ws_source \<Rightarrow> gap \<Rightarrow> (u64 \<times> u64) list \<Rightarrow> event_queue \<times> chain_log list \<Rightarrow>
     (event_queue \<times> chain_log list) option" where
  "fetch_ranges rpc r s g [] acc = Some acc"
| "fetch_ranges rpc r s g ((start, stop) # ranges) acc =
     (case fetch_events_with_retry rpc (get_all_addresses r) (ws_topics s) (Number start) (Number stop) of
        None \<Rightarrow> None
      | Some fetched \<Rightarrow> fetch_ranges rpc r s g ranges (fold (take_missed (ws_fill_floor s) g) fetched acc))"

definition fetch_gap ::
    "rpc \<Rightarrow> (nat \<Rightarrow> u64 attempts) \<Rightarrow> registry \<Rightarrow> ws_source \<Rightarrow> gap \<Rightarrow> event_queue \<Rightarrow> (event_queue \<times> chain_log list) option" where
  "fetch_gap rpc heads r s g q =
     (if gap_empty (ws_fill_floor s) g then Some (q, [])
      else let from = gap_from (ws_fill_floor s) g;
               to = fst (gap_before g)
           in case wait_until_rpc_passes heads 0 to of
                None \<Rightarrow> None
              | Some _ \<Rightarrow>
                  fetch_ranges rpc r s g (catchup_batches (saturating_sub from 1) (ws_max_blocks_per_batch s) to) (q, []))"

definition fill_gap ::
    "rpc \<Rightarrow> (nat \<Rightarrow> u64 attempts) \<Rightarrow> nat \<Rightarrow> registry \<Rightarrow> gap \<Rightarrow> ws_source \<times> event_queue \<Rightarrow> (ws_source \<times> event_queue) option" where
  "fill_gap rpc heads now r g = (\<lambda>(s, q).
     (case fetch_gap rpc heads r s g q of
        None \<Rightarrow> None
      | Some (q, missed) \<Rightarrow>
          Some (s\<lparr>ws_settler := settler_add missed now (ws_settler s),
                  ws_apply_only_through := max (ws_apply_only_through s) (fst (gap_before g))\<rparr>, q)))"

section \<open>Bootstrap\<close>

text \<open>The fetch is repeated without limit and without a deadline: an attempt that is never answered hangs.\<close>

partial_function (option) fetch_until_ok :: "'a attempts \<Rightarrow> nat \<Rightarrow> 'a option" where
  "fetch_until_ok read attempt =
     (case read attempt of
        None \<Rightarrow> None
      | Some (Inl e) \<Rightarrow> fetch_until_ok read (attempt + 1)
      | Some (Inr v) \<Rightarrow> Some v)"

declare fetch_until_ok.simps [code]

text \<open>
  What a bootstrap meets: the node's head, the wall clock when a log is applied, the block times known when
  the range from a block on has been fetched, the head while a gap fill waits, and what the feeds do to the
  queue while the catch-up runs, after the queue was drained.
\<close>

record ws_boot =
  wb_latest :: "u64 res"
  wb_clock :: "chain_log \<Rightarrow> u64"
  wb_times :: "u64 \<Rightarrow> (u64, u64) btree"
  wb_heads :: "gap \<Rightarrow> nat \<Rightarrow> u64 attempts"
  wb_arrivals :: "event_queue \<Rightarrow> event_queue"

text \<open>The flag says the first queued log was reached.\<close>

fun apply_until :: "(chain_log \<Rightarrow> u64) \<Rightarrow> log_position \<Rightarrow> chain_log list \<Rightarrow> registry \<Rightarrow> registry \<times> bool" where
  "apply_until clock first_queued [] r = (r, False)"
| "apply_until clock first_queued (l # ls) r =
     (case position_of l of
        None \<Rightarrow> apply_until clock first_queued ls r
      | Some p \<Rightarrow>
          if is_at_or_after p first_queued then (r, True)
          else apply_until clock first_queued ls (apply_at (clock l) l r))"

fun catch_up ::
    "rpc \<Rightarrow> ws_boot \<Rightarrow> ws_source \<Rightarrow> log_position \<Rightarrow> (u64 \<times> u64) list \<Rightarrow> registry \<Rightarrow> registry option" where
  "catch_up rpc w s first_queued [] r = Some r"
| "catch_up rpc w s first_queued ((start_block, end_block) # batches) r =
     (case fetch_until_ok (fetch_events rpc (get_all_addresses r) (ws_topics s) (Number start_block) (Number end_block)) 1 of
        None \<Rightarrow> None
      | Some fetched \<Rightarrow>
          (case apply_until (wb_clock w) first_queued
              (enrich_if_lb_pools_present (rpc_header rpc) r fetched (wb_times w start_block)) r of
             (r, True) \<Rightarrow> Some r
           | (r, False) \<Rightarrow> catch_up rpc w s first_queued batches r))"

definition first_position :: "u64 \<Rightarrow> chain_log list \<Rightarrow> log_position" where
  "first_position latest_block events =
     (case List.map_filter position_of events of
        [] \<Rightarrow> (latest_block, 0, 0)
      | p # ps \<Rightarrow> fold min ps p)"

text \<open>
  The gaps noted before: one whose closing log was drained is filled, any other is noted again. The flag
  says one was filled.
\<close>

fun bootstrap_gaps ::
    "rpc \<Rightarrow> (gap \<Rightarrow> nat \<Rightarrow> u64 attempts) \<Rightarrow> registry \<Rightarrow> ws_source \<Rightarrow> log_position set \<Rightarrow> gap list \<Rightarrow>
     event_queue \<times> chain_log list \<times> bool \<Rightarrow> (event_queue \<times> chain_log list \<times> bool) option" where
  "bootstrap_gaps rpc heads r s drained [] acc = Some acc"
| "bootstrap_gaps rpc heads r s drained (g # gs) (q, events, filled) =
     (if gap_before g \<in> drained then
        (case fetch_gap rpc (heads g) r s g q of
           None \<Rightarrow> None
         | Some (q, missed) \<Rightarrow> bootstrap_gaps rpc heads r s drained gs (q, events @ missed, True))
      else bootstrap_gaps rpc heads r s drained gs (note_gap g q, events, filled))"

definition position_key :: "chain_log \<Rightarrow> log_position" where
  "position_key l = (case position_of l of None \<Rightarrow> (- 1, - 1, - 1) | Some p \<Rightarrow> p)"

definition fill_bootstrap_gaps ::
    "rpc \<Rightarrow> (gap \<Rightarrow> nat \<Rightarrow> u64 attempts) \<Rightarrow> registry \<Rightarrow> ws_source \<Rightarrow> chain_log list \<Rightarrow> event_queue \<Rightarrow>
     (event_queue \<times> chain_log list) option" where
  "fill_bootstrap_gaps rpc heads r s events q =
     (case take_gaps q of
        (q, gs) \<Rightarrow>
          if ws_fill_reconnect_gaps s \<and> gs \<noteq> [] then
            (case bootstrap_gaps rpc heads r s (set (List.map_filter position_of events)) gs (q, events, False) of
               None \<Rightarrow> None
             | Some (q, events, filled) \<Rightarrow> Some (q, if filled then sort_key position_key events else events))
          else Some (q, events))"

definition max_block :: "chain_log list \<Rightarrow> u64 option" where
  "max_block events =
     (case List.map_filter log_block_number events of [] \<Rightarrow> None | n # ns \<Rightarrow> Some (fold max ns n))"

text \<open>A failed read of the head block ends the bootstrap with its error.\<close>

definition bootstrap ::
    "rpc \<Rightarrow> ws_boot \<Rightarrow> registry \<Rightarrow> ws_source \<times> event_queue \<Rightarrow> (registry \<times> ws_source \<times> event_queue) res option" where
  "bootstrap rpc w r = (\<lambda>(s, q).
     (case wb_latest w of
        Inl e \<Rightarrow> Some (Err e)
      | Inr latest_block \<Rightarrow>
          (case get_all_available_events q of
             (q, events) \<Rightarrow>
               let first_queued = first_position latest_block events;
                   first_event_block = fst first_queued;
                   s = s\<lparr>ws_fill_floor := first_queued\<rparr>;
                   batches = catchup_batches (reg_last_processed_block r) (ws_max_blocks_per_batch s) first_event_block
               in case catch_up rpc w s first_queued batches r of
                    None \<Rightarrow> None
                  | Some r \<Rightarrow>
                      (case fill_bootstrap_gaps rpc (wb_heads w) r s events (wb_arrivals w q) of
                         None \<Rightarrow> None
                       | Some (q, events) \<Rightarrow>
                           let events = enrich_if_lb_pools_present (rpc_header rpc) r events (known_block_times q);
                               max_ws_block = max_block events;
                               r = fold (\<lambda>l. apply_at (wb_clock w l) l) events r;
                               bootstrap_block = (case max_ws_block of None \<Rightarrow> first_event_block | Some n \<Rightarrow> n)
                           in Some (Ok (set_last_processed_block bootstrap_block r,
                                s\<lparr>ws_settler := settler_new (ws_block_settle s) bootstrap_block\<rparr>, q))))))"

section \<open>The next batch\<close>

text \<open>
  A turn of the loop is three steps: the arrivals join the settler, the noted gaps are filled, and the oldest
  block is taken if it is complete. A feed may move the queue between them.
\<close>

definition ws_drain :: "nat \<Rightarrow> ws_source \<times> event_queue \<Rightarrow> ws_source \<times> event_queue" where
  "ws_drain now = (\<lambda>(s, q).
     (case get_all_available_events q of
        (q, events) \<Rightarrow>
          let floor = ws_fill_floor s;
              events = filter (\<lambda>l. case position_of l of None \<Rightarrow> True | Some p \<Rightarrow> p \<ge> floor) events
          in (if events = [] then s else s\<lparr>ws_settler := settler_add events now (ws_settler s)\<rparr>, q)))"

fun fill_gaps ::
    "rpc \<Rightarrow> (gap \<Rightarrow> nat \<Rightarrow> u64 attempts) \<Rightarrow> (gap \<Rightarrow> nat) \<Rightarrow> registry \<Rightarrow> gap list \<Rightarrow> ws_source \<times> event_queue \<Rightarrow>
     (ws_source \<times> event_queue) option" where
  "fill_gaps rpc heads filled_at r [] sq = Some sq"
| "fill_gaps rpc heads filled_at r (g # gs) sq =
     (if ws_fill_reconnect_gaps (fst sq) then
        (case fill_gap rpc (heads g) (filled_at g) r g sq of
           None \<Rightarrow> None
         | Some sq \<Rightarrow> fill_gaps rpc heads filled_at r gs sq)
      else fill_gaps rpc heads filled_at r gs sq)"

definition ws_fill ::
    "rpc \<Rightarrow> (gap \<Rightarrow> nat \<Rightarrow> u64 attempts) \<Rightarrow> (gap \<Rightarrow> nat) \<Rightarrow> registry \<Rightarrow> ws_source \<times> event_queue \<Rightarrow>
     (ws_source \<times> event_queue) option" where
  "ws_fill rpc heads filled_at r = (\<lambda>(s, q).
     (case take_gaps q of (q, gs) \<Rightarrow> fill_gaps rpc heads filled_at r gs (s, q)))"

definition settled_batch :: "rpc \<Rightarrow> (u64, u64) btree \<Rightarrow> registry \<Rightarrow> u64 \<Rightarrow> settled \<Rightarrow> event_batch" where
  "settled_batch rpc known r apply_only_through b =
     \<lparr>eb_events = enrich_if_lb_pools_present (rpc_header rpc) r (st_logs b) known,
      eb_mode = (if st_block b < st_processed_through b \<or> st_block b \<le> apply_only_through then ApplyOnly
                 else ConfirmedWithSwaps),
      eb_processed_through_block = Some (st_processed_through b)\<rparr>"

definition ws_take :: "rpc \<Rightarrow> nat \<Rightarrow> registry \<Rightarrow> ws_source \<times> event_queue \<Rightarrow> (ws_source \<times> event_queue) \<times> event_batch option" where
  "ws_take rpc now r = (\<lambda>(s, q).
     (case take_ready now (ws_settler s) of
        (st, settled) \<Rightarrow>
          ((s\<lparr>ws_settler := st\<rparr>, q),
           map_option (settled_batch rpc (known_block_times q) r (ws_apply_only_through s)) settled)))"

text \<open>What the clock and the node say in a turn.\<close>

record ws_poll =
  wp_drained_at :: nat
  wp_heads :: "gap \<Rightarrow> nat \<Rightarrow> u64 attempts"
  wp_filled_at :: "gap \<Rightarrow> nat"
  wp_taken_at :: nat

definition ws_turn ::
    "rpc \<Rightarrow> ws_poll \<Rightarrow> registry \<Rightarrow> ws_source \<times> event_queue \<Rightarrow> ((ws_source \<times> event_queue) \<times> event_batch option) option" where
  "ws_turn rpc p r sq =
     (case ws_fill rpc (wp_heads p) (wp_filled_at p) r (ws_drain (wp_drained_at p) sq) of
        None \<Rightarrow> None
      | Some sq \<Rightarrow> Some (ws_take rpc (wp_taken_at p) r sq))"

end
