(* ===== verification/Fee_Reader.thy ===== *)
theory Fee_Reader
  imports Provider
begin

text \<open>
  \<^verbatim>\<open>src/collector/fee_reader.rs\<close>: the V3 fees no event announces. A read is asynchronous, so it is two
  operations here: \<open>after_batch\<close>, which the updater calls and which may start a read, and \<open>read_fees\<close>,
  what the started read does to the registry when it gets to it. The node's multicall is a
  parameter. Hash sets of addresses are sorted here; the source leaves their order open. Instants
  are milliseconds.
\<close>

section \<open>Which pools\<close>

type_synonym address_set = "(address, unit) btree"

abbreviation insert_all :: "address list \<Rightarrow> address_set \<Rightarrow> address_set" where
  "insert_all as s \<equiv> fold (\<lambda>a. bt_insert a ()) as s"

text \<open>The two signature hashes come from the generated bindings.\<close>

definition reconfigures :: "topic \<Rightarrow> topic \<Rightarrow> chain_log \<Rightarrow> bool" where
  "reconfigures plugin_config plugin l = (log_topic0 l = Some plugin_config \<or> log_topic0 l = Some plugin)"

fun fee_read_candidates ::
    "topic \<Rightarrow> topic \<Rightarrow> chain_log list \<Rightarrow> registry \<times> address_set \<Rightarrow> registry \<times> address_set" where
  "fee_read_candidates plugin_config plugin [] (r, candidates) = (r, candidates)"
| "fee_read_candidates plugin_config plugin (l # ls) (r, candidates) =
     (let a = log_address l;
          reconfigured = reconfigures plugin_config plugin l;
          r = (if reconfigured then add_dynamic_fee_address a r else r);
          candidates = (if reconfigured \<or> is_dynamic_fee_address r a then bt_insert a () candidates else candidates)
      in fee_read_candidates plugin_config plugin ls (r, candidates))"

definition pools_needing_reads :: "registry \<Rightarrow> registry \<times> address list" where
  "pools_needing_reads r =
     (let addresses = List.map_filter (\<lambda>p. if needs_reading p then Some (pool_address p) else None) (get_all_pools r)
      in (fold add_dynamic_fee_address addresses r, addresses))"

section \<open>When\<close>

definition FULL_READ_INTERVAL :: nat where
  "FULL_READ_INTERVAL = 30000"

record fee_read_schedule =
  fs_queued :: address_set
  fs_last_full_read :: "nat option"

definition schedule_new :: fee_read_schedule where
  "schedule_new = \<lparr>fs_queued = [], fs_last_full_read = None\<rparr>"

record fee_read =
  fread_addresses :: "address list"
  fread_full_pass :: bool

definition full_due :: "nat \<Rightarrow> fee_read_schedule \<Rightarrow> bool" where
  "full_due now s = (case fs_last_full_read s of None \<Rightarrow> True | Some last_read \<Rightarrow> now - last_read \<ge> FULL_READ_INTERVAL)"

definition next_read ::
    "address list \<Rightarrow> address list \<Rightarrow> nat \<Rightarrow> bool \<Rightarrow> fee_read_schedule \<Rightarrow> fee_read_schedule \<times> fee_read option" where
  "next_read touched tracked now busy s =
     (let s = s\<lparr>fs_queued := insert_all touched (fs_queued s)\<rparr>
      in if busy then (s, None)
         else if full_due now s then
           (s\<lparr>fs_queued := [], fs_last_full_read := Some now\<rparr>,
            Some \<lparr>fread_addresses = map fst (insert_all tracked (fs_queued s)), fread_full_pass = True\<rparr>)
         else if fs_queued s = [] then (s, None)
         else (s\<lparr>fs_queued := []\<rparr>, Some \<lparr>fread_addresses = map fst (fs_queued s), fread_full_pass = False\<rparr>))"

record fee_reader =
  fr_schedule :: fee_read_schedule
  fr_busy :: bool

definition fee_reader_new :: fee_reader where
  "fee_reader_new = \<lparr>fr_schedule = schedule_new, fr_busy = False\<rparr>"

text \<open>The read to spawn, if any; \<open>read_done\<close> is the guard of a finished read, however it ended.\<close>

definition after_batch :: "address list \<Rightarrow> nat \<Rightarrow> registry \<Rightarrow> fee_reader \<Rightarrow> fee_reader \<times> fee_read option" where
  "after_batch touched now r f =
     (case next_read touched (get_dynamic_fee_addresses r) now (fr_busy f) (fr_schedule f) of
        (s, None) \<Rightarrow> (f\<lparr>fr_schedule := s\<rparr>, None)
      | (s, Some read) \<Rightarrow> (\<lparr>fr_schedule = s, fr_busy = True\<rparr>, Some read))"

definition read_done :: "fee_reader \<Rightarrow> fee_reader" where
  "read_done f = f\<lparr>fr_busy := False\<rparr>"

section \<open>Reading\<close>

record read_plan =
  want_fee :: "address list"
  want_config :: "address list"
  want_current_fee :: "address list"

definition plan_pool :: "address \<Rightarrow> v3_pool \<Rightarrow> read_plan \<Rightarrow> read_plan" where
  "plan_pool a p plan =
     (case (v3_fee_source p, v3_type p) of
        (ReadFee, _) \<Rightarrow> plan\<lparr>want_fee := want_fee plan @ [a]\<rparr>
      | (ReadCurrentFee, _) \<Rightarrow> plan\<lparr>want_current_fee := want_current_fee plan @ [a]\<rparr>
      | (Unknown, RamsesCL) \<Rightarrow> plan\<lparr>want_current_fee := want_current_fee plan @ [a]\<rparr>
      | (Unknown, AlgebraV3) \<Rightarrow> plan\<lparr>want_fee := want_fee plan @ [a], want_config := want_config plan @ [a]\<rparr>
      | (Events, AlgebraV3) \<Rightarrow> plan\<lparr>want_fee := want_fee plan @ [a], want_config := want_config plan @ [a]\<rparr>
      | _ \<Rightarrow> plan)"

definition plan_reads :: "registry \<Rightarrow> address list \<Rightarrow> read_plan" where
  "plan_reads r as =
     fold (\<lambda>a plan. case get_pool r a of Some (PV3 p) \<Rightarrow> plan_pool a p plan | _ \<Rightarrow> plan)
       as \<lparr>want_fee = [], want_config = [], want_current_fee = []\<rparr>"

text \<open>Multicalls of at most \<open>CHUNK_SIZE\<close> calls; a call that reverts answers \<open>None\<close>.\<close>

definition CHUNK_SIZE :: nat where
  "CHUNK_SIZE = 250"

fun read_chunks :: "nat \<Rightarrow> (address list \<Rightarrow> 'a option list res) \<Rightarrow> address list \<Rightarrow> 'a option list res" where
  "read_chunks left call [] = Ok []"
| "read_chunks 0 call as = Ok []"
| "read_chunks (Suc left) call as =
     and_then (call (take CHUNK_SIZE as)) (\<lambda>rs. and_then (read_chunks left call (drop CHUNK_SIZE as)) (\<lambda>rest. Ok (rs @ rest)))"

abbreviation read_all :: "(address list \<Rightarrow> 'a option list res) \<Rightarrow> address list \<Rightarrow> 'a option list res" where
  "read_all call as \<equiv> read_chunks (length as) call as"

text \<open>What the node answers to an attempt: \<open>fee()\<close>, the plugin configuration of \<open>globalState()\<close>, \<open>currentFee()\<close>.\<close>

record fee_rpc =
  call_fee :: "address list \<Rightarrow> u24 option list res"
  call_config :: "address list \<Rightarrow> u8 option list res"
  call_current_fee :: "address list \<Rightarrow> u24 option list res"

definition READ_ATTEMPTS :: nat where
  "READ_ATTEMPTS = 3"

definition read_once :: "fee_rpc \<Rightarrow> read_plan \<Rightarrow> (u24 option list \<times> u8 option list \<times> u24 option list) res" where
  "read_once rpc plan =
     and_then (read_all (call_fee rpc) (want_fee plan)) (\<lambda>fees.
     and_then (read_all (call_config rpc) (want_config plan)) (\<lambda>configs.
     and_then (read_all (call_current_fee rpc) (want_current_fee plan)) (\<lambda>current_fees.
       Ok (fees, configs, current_fees))))"

text \<open>\<open>left\<close> attempts are left after this one; the last error is returned.\<close>

fun read_attempts :: "(nat \<Rightarrow> fee_rpc) \<Rightarrow> nat \<Rightarrow> nat \<Rightarrow> read_plan \<Rightarrow> (u24 option list \<times> u8 option list \<times> u24 option list) res" where
  "read_attempts rpc attempt 0 plan = read_once (rpc attempt) plan"
| "read_attempts rpc attempt (Suc left) plan =
     (case read_once (rpc attempt) plan of Inr v \<Rightarrow> Inr v | Inl e \<Rightarrow> read_attempts rpc (attempt + 1) left plan)"

section \<open>Writing back\<close>

definition has_flag :: "u8 \<Rightarrow> bool" where
  "has_flag config \<longleftrightarrow> config AND ALGEBRA_DYNAMIC_FEE_FLAG \<noteq> 0"

definition write_fee :: "u24 \<Rightarrow> u8 option \<Rightarrow> v3_pool \<Rightarrow> v3_pool" where
  "write_fee fee config p =
     (let p = set_fee fee p
      in case config of None \<Rightarrow> p | Some c \<Rightarrow> p\<lparr>v3_fee_source := if has_flag c then ReadFee else Events\<rparr>)"

definition put_v3 :: "address \<Rightarrow> v3_pool \<Rightarrow> registry \<Rightarrow> registry" where
  "put_v3 a p r = r\<lparr>reg_pools := bt_insert a (PV3 p) (reg_pools r)\<rparr>"

text \<open>Tracking follows the classification a configuration gave.\<close>

definition store_fee :: "address \<Rightarrow> u24 option \<Rightarrow> u8 option \<Rightarrow> registry \<Rightarrow> registry" where
  "store_fee a fee config r =
     (case fee of
        None \<Rightarrow> r
      | Some fee \<Rightarrow>
          (case get_pool r a of
             Some (PV3 p) \<Rightarrow>
               let p = write_fee fee config p; r = put_v3 a p r
               in if config = None then r
                  else (case v3_fee_source p of
                          ReadFee \<Rightarrow> add_dynamic_fee_address a r
                        | Events \<Rightarrow> remove_dynamic_fee_address a r
                        | _ \<Rightarrow> r)
           | _ \<Rightarrow> r))"

definition store_current_fee :: "address \<Rightarrow> u24 option \<Rightarrow> registry \<Rightarrow> registry" where
  "store_current_fee a current r =
     (case get_pool r a of
        Some (PV3 p) \<Rightarrow>
          (case current of
             Some fee \<Rightarrow> put_v3 a ((set_fee fee p)\<lparr>v3_fee_source := ReadCurrentFee\<rparr>) r
           | None \<Rightarrow>
               if v3_fee_source p = Unknown
               then remove_dynamic_fee_address a (put_v3 a (p\<lparr>v3_fee_source := Events\<rparr>) r)
               else r)
      | _ \<Rightarrow> r)"

definition config_for :: "read_plan \<Rightarrow> u8 option list \<Rightarrow> address \<Rightarrow> u8 option" where
  "config_for plan configs a =
     (case map_of (zip (want_config plan) configs) a of None \<Rightarrow> None | Some c \<Rightarrow> c)"

definition write_back ::
    "read_plan \<Rightarrow> u24 option list \<times> u8 option list \<times> u24 option list \<Rightarrow> registry \<Rightarrow> registry" where
  "write_back plan answer r =
     (case answer of (fees, configs, current_fees) \<Rightarrow>
        let r = fold (\<lambda>(a, fee). store_fee a fee (config_for plan configs a)) (zip (want_fee plan) fees) r
        in fold (\<lambda>(a, current). store_current_fee a current) (zip (want_current_fee plan) current_fees) r)"

definition read_fees :: "(nat \<Rightarrow> fee_rpc) \<Rightarrow> address list \<Rightarrow> registry \<Rightarrow> registry \<times> unit res" where
  "read_fees rpc as r =
     (let plan = plan_reads r as
      in if want_fee plan = [] \<and> want_current_fee plan = [] then (r, Ok ())
         else case read_attempts rpc 1 (READ_ATTEMPTS - 1) plan of
                Inl e \<Rightarrow> (r, Inl e)
              | Inr answer \<Rightarrow> (write_back plan answer r, Ok ()))"

text \<open>The spawned task: a full pass rescans the registry and sorts and dedups what it adds.\<close>

definition run_read :: "(nat \<Rightarrow> fee_rpc) \<Rightarrow> fee_read \<Rightarrow> registry \<Rightarrow> registry \<times> unit res" where
  "run_read rpc read r =
     (if fread_full_pass read then
        case pools_needing_reads r of (r, found) \<Rightarrow>
          read_fees rpc (map fst (insert_all (fread_addresses read @ found) [])) r
      else read_fees rpc (fread_addresses read) r)"

section \<open>The schedule\<close>

text \<open>The calls of a run: what was touched, what is tracked then, the time, and whether a read is out.\<close>

type_synonym fee_call = "address list \<times> address list \<times> nat \<times> bool"

fun reads :: "fee_call list \<Rightarrow> fee_read_schedule \<Rightarrow> fee_read option list" where
  "reads [] s = []"
| "reads ((touched, tracked, now, busy) # cs) s =
     (case next_read touched tracked now busy s of (s, read) \<Rightarrow> read # reads cs s)"

lemma insert_all_keys: "fst ` set (insert_all as s) = set as \<union> fst ` set s"
  by (induction as arbitrary: s) (auto simp: bt_keys_insert)

lemma insert_all_inv: "bt_inv s \<Longrightarrow> bt_inv (insert_all as s)"
  by (induction as arbitrary: s) (simp_all add: bt_simps)

lemma next_read_busy: "next_read touched tracked now True s = (s\<lparr>fs_queued := insert_all touched (fs_queued s)\<rparr>, None)"
  by (simp add: next_read_def Let_def)

lemma next_read_ready:
  assumes "a \<in> set touched \<union> fst ` set (fs_queued s)"
  shows "\<exists>read. snd (next_read touched tracked now False s) = Some read \<and> a \<in> set (fread_addresses read)"
proof -
  have k: "a \<in> fst ` set (insert_all touched (fs_queued s))" using assms by (simp add: insert_all_keys)
  then have "insert_all touched (fs_queued s) \<noteq> []" by auto
  then show ?thesis
    using k insert_all_keys [of tracked "insert_all touched (fs_queued s)"]
    by (auto simp: next_read_def Let_def full_due_def)
qed

lemma reads_queued:
  assumes "j < length cs" and "\<forall>k < j. snd (snd (snd (cs ! k)))" and "\<not> snd (snd (snd (cs ! j)))"
    and "a \<in> fst ` set (fs_queued s) \<or> a \<in> set (fst (cs ! 0))"
  shows "\<exists>read. reads cs s ! j = Some read \<and> a \<in> set (fread_addresses read)"
  using assms
proof (induction j arbitrary: cs s)
  case 0
  then obtain touched tracked now cs' where c: "cs = (touched, tracked, now, False) # cs'"
    by (cases cs) auto
  have "a \<in> set touched \<union> fst ` set (fs_queued s)" using 0(4) c by auto
  from next_read_ready [OF this, of tracked now] show ?case by (cases "next_read touched tracked now False s") (simp add: c)
next
  case (Suc j)
  then obtain touched tracked now cs' where c: "cs = (touched, tracked, now, True) # cs'"
    by (cases cs) force+
  let ?s = "s\<lparr>fs_queued := insert_all touched (fs_queued s)\<rparr>"
  have "\<exists>read. reads cs' ?s ! j = Some read \<and> a \<in> set (fread_addresses read)"
    by (rule Suc.IH) (use Suc.prems in \<open>auto simp: c insert_all_keys\<close>)
  then show ?case by (simp add: c next_read_busy)
qed

lemma reads_drop:
  "i < length cs \<Longrightarrow> \<exists>s'. drop i (reads cs s) = reads (drop i cs) s'"
proof (induction i arbitrary: cs s)
  case (Suc i)
  then show ?case by (cases cs) (auto split: prod.splits)
qed auto

text \<open>C25: no touched pool is forgotten: whatever was touched while a read was out is among the addresses of the
  next read that can start, whenever that is, and that read does start.\<close>

theorem touched_pools_are_read:
  assumes "i \<le> j" and "j < length calls" and "\<forall>k. i \<le> k \<and> k < j \<longrightarrow> snd (snd (snd (calls ! k)))"
    and "\<not> snd (snd (snd (calls ! j)))" and "a \<in> set (fst (calls ! i))"
  shows "\<exists>read. reads calls s ! j = Some read \<and> a \<in> set (fread_addresses read)"
proof -
  have i: "i < length calls" using assms(1,2) by simp
  obtain s' where s: "drop i (reads calls s) = reads (drop i calls) s'" using reads_drop [OF i] by blast
  have l: "length (reads cs s) = length cs" for cs s
    by (induction cs s rule: reads.induct) (simp_all split: prod.splits)
  have "\<exists>read. reads (drop i calls) s' ! (j - i) = Some read \<and> a \<in> set (fread_addresses read)"
    by (rule reads_queued) (use assms in \<open>auto simp: nth_drop\<close>)
  moreover have "reads (drop i calls) s' ! (j - i) = reads calls s ! j"
    using assms(1,2) i l [of calls s] by (simp flip: s)
  ultimately show ?thesis by simp
qed

theorem touched_pools_are_read_witness:
  "\<exists>read. reads [([5], [], 0, False), ([7], [], 10, True), ([8], [9], 20, False)] schedule_new ! 2 = Some read \<and>
    7 \<in> set (fread_addresses read)"
  by (rule touched_pools_are_read [of 1 2]) (auto simp: less_Suc_eq numeral_2_eq_2)

section \<open>Tracking\<close>

text \<open>Every V3 pool whose fee needs reading is tracked.\<close>

definition tracks_needed :: "registry \<Rightarrow> bool" where
  "tracks_needed r \<longleftrightarrow> bt_inv (reg_pools r) \<and> bt_inv (reg_dynamic_fee r) \<and>
     (\<forall>a p. get_pool r a = Some p \<longrightarrow> needs_reading p \<longrightarrow> is_dynamic_fee_address r a)"

lemma dynamic_simps:
  "get_pool (add_dynamic_fee_address b r) a = get_pool r a"
  "get_pool (remove_dynamic_fee_address b r) a = get_pool r a"
  "bt_inv (reg_dynamic_fee r) \<Longrightarrow> is_dynamic_fee_address (add_dynamic_fee_address b r) a \<longleftrightarrow> a = b \<or> is_dynamic_fee_address r a"
  "bt_inv (reg_dynamic_fee r) \<Longrightarrow> is_dynamic_fee_address (remove_dynamic_fee_address b r) a \<longleftrightarrow> a \<noteq> b \<and> is_dynamic_fee_address r a"
  "is_dynamic_fee_address (put_v3 b p r) a = is_dynamic_fee_address r a"
  "bt_inv (reg_pools r) \<Longrightarrow> get_pool (put_v3 b p r) a = (if a = b then Some (PV3 p) else get_pool r a)"
  by (auto simp: add_dynamic_fee_address_def remove_dynamic_fee_address_def put_v3_def is_dynamic_fee_address_def
      get_pool_def bt_simps)

lemma dynamic_inv:
  "reg_pools (add_dynamic_fee_address b r) = reg_pools r" "reg_pools (remove_dynamic_fee_address b r) = reg_pools r"
  "bt_inv (reg_dynamic_fee r) \<Longrightarrow> bt_inv (reg_dynamic_fee (add_dynamic_fee_address b r))"
  "bt_inv (reg_dynamic_fee r) \<Longrightarrow> bt_inv (reg_dynamic_fee (remove_dynamic_fee_address b r))"
  "bt_inv (reg_pools r) \<Longrightarrow> bt_inv (reg_pools (put_v3 b p r))" "reg_dynamic_fee (put_v3 b p r) = reg_dynamic_fee r"
  by (simp_all add: add_dynamic_fee_address_def remove_dynamic_fee_address_def put_v3_def bt_simps)

lemma needs_reading_simps [simp]:
  "needs_reading (PV3 p) = fee_needs_reading p" "needs_reading (PV2 q) = False" "needs_reading (PLB b) = False"
  "needs_reading (PVerio e) = False"
  by (simp_all add: needs_reading_def)

lemma fee_needs_reading_sources:
  "v3_fee_source p = ReadFee \<Longrightarrow> fee_needs_reading p" "v3_fee_source p = Events \<Longrightarrow> \<not> fee_needs_reading p"
  "fee_needs_reading (p\<lparr>v3_fee := fee\<rparr>) = fee_needs_reading p"
  by (simp_all add: fee_needs_reading_def split: fee_source.splits)

lemma store_fee_tracks: "tracks_needed r \<Longrightarrow> tracks_needed (store_fee a fee config r)"
proof (cases fee)
  case (Some f)
  assume t: "tracks_needed r"
  show ?thesis
  proof (cases "get_pool r a")
    case None
    then show ?thesis using t Some by (simp add: store_fee_def)
  next
    case (Some p)
    show ?thesis
    proof (cases p)
      case (PV3 q)
      show ?thesis
      proof (cases config)
        case None
        then show ?thesis
          using t \<open>fee = Some f\<close> Some PV3
          by (auto simp: store_fee_def write_fee_def set_fee_def tracks_needed_def dynamic_simps dynamic_inv
              fee_needs_reading_sources Let_def)
      next
        case (Some c)
        then show ?thesis
          using t \<open>fee = Some f\<close> \<open>get_pool r a = Some p\<close> PV3
          by (auto simp: store_fee_def write_fee_def set_fee_def tracks_needed_def dynamic_simps dynamic_inv
              fee_needs_reading_sources Let_def)
      qed
    qed (use t \<open>fee = Some f\<close> Some in \<open>simp_all add: store_fee_def\<close>)
  qed
qed (simp add: store_fee_def)

lemma store_current_fee_tracks:
  assumes t: "tracks_needed r" and d: "is_dynamic_fee_address r a"
  shows "tracks_needed (store_current_fee a current r)"
  using t d by (auto simp: store_current_fee_def tracks_needed_def dynamic_simps dynamic_inv
      fee_needs_reading_sources split: option.splits pool.splits)

lemma tracks_fold:
  assumes "tracks_needed r" and "\<And>x r. x \<in> set xs \<Longrightarrow> tracks_needed r \<Longrightarrow> tracks_needed (f x r)"
  shows "tracks_needed (fold f xs r)"
  using assms by (induction xs arbitrary: r) simp_all

section \<open>A read, pool by pool\<close>

text \<open>What reading one pool alone makes of it, given what the node answers for it.\<close>

definition read_pool :: "u24 option \<Rightarrow> u8 option \<Rightarrow> u24 option \<Rightarrow> v3_pool \<Rightarrow> v3_pool" where
  "read_pool fee config current p =
     (if v3_fee_source p = ReadFee then (case fee of None \<Rightarrow> p | Some f \<Rightarrow> set_fee f p)
      else if v3_type p = AlgebraV3 \<and> v3_fee_source p \<noteq> ReadCurrentFee then
        (case fee of None \<Rightarrow> p | Some f \<Rightarrow> write_fee f config p)
      else if v3_fee_source p = ReadCurrentFee \<or> v3_fee_source p = Unknown \<and> v3_type p = RamsesCL then
        (case current of
           Some f \<Rightarrow> (set_fee f p)\<lparr>v3_fee_source := ReadCurrentFee\<rparr>
         | None \<Rightarrow> if v3_fee_source p = Unknown then p\<lparr>v3_fee_source := Events\<rparr> else p)
      else p)"

definition v3_at :: "registry \<Rightarrow> address \<Rightarrow> (v3_pool \<Rightarrow> bool) \<Rightarrow> bool" where
  "v3_at r a P = (case get_pool r a of Some (PV3 p) \<Rightarrow> P p | _ \<Rightarrow> False)"

definition by_fee :: "v3_pool \<Rightarrow> bool" where
  "by_fee p \<longleftrightarrow> v3_fee_source p = ReadFee \<or> v3_type p = AlgebraV3 \<and> v3_fee_source p \<noteq> ReadCurrentFee"

definition by_config :: "v3_pool \<Rightarrow> bool" where
  "by_config p \<longleftrightarrow> v3_type p = AlgebraV3 \<and> v3_fee_source p \<noteq> ReadCurrentFee \<and> v3_fee_source p \<noteq> ReadFee"

definition by_current :: "v3_pool \<Rightarrow> bool" where
  "by_current p \<longleftrightarrow> v3_fee_source p = ReadCurrentFee \<or> v3_fee_source p = Unknown \<and> v3_type p = RamsesCL"

lemma plan_pool_wants:
  "want_fee (plan_pool a p plan) = want_fee plan @ (if by_fee p then [a] else [])"
  "want_config (plan_pool a p plan) = want_config plan @ (if by_config p then [a] else [])"
  "want_current_fee (plan_pool a p plan) = want_current_fee plan @ (if by_current p then [a] else [])"
  by (simp_all add: plan_pool_def by_fee_def by_config_def by_current_def split: fee_source.split v3_pool_type.split)

lemma plan_wants:
  "want_fee (plan_reads r as) = filter (\<lambda>a. v3_at r a by_fee) as"
  "want_config (plan_reads r as) = filter (\<lambda>a. v3_at r a by_config) as"
  "want_current_fee (plan_reads r as) = filter (\<lambda>a. v3_at r a by_current) as"
proof -
  have "want_fee (fold (\<lambda>a plan. case get_pool r a of Some (PV3 p) \<Rightarrow> plan_pool a p plan | _ \<Rightarrow> plan) as plan) =
      want_fee plan @ filter (\<lambda>a. v3_at r a by_fee) as \<and>
    want_config (fold (\<lambda>a plan. case get_pool r a of Some (PV3 p) \<Rightarrow> plan_pool a p plan | _ \<Rightarrow> plan) as plan) =
      want_config plan @ filter (\<lambda>a. v3_at r a by_config) as \<and>
    want_current_fee (fold (\<lambda>a plan. case get_pool r a of Some (PV3 p) \<Rightarrow> plan_pool a p plan | _ \<Rightarrow> plan) as plan) =
      want_current_fee plan @ filter (\<lambda>a. v3_at r a by_current) as" for plan
    by (induction as arbitrary: plan) (simp_all add: v3_at_def plan_pool_wants split: option.split pool.split)
  then show "want_fee (plan_reads r as) = filter (\<lambda>a. v3_at r a by_fee) as"
    "want_config (plan_reads r as) = filter (\<lambda>a. v3_at r a by_config) as"
    "want_current_fee (plan_reads r as) = filter (\<lambda>a. v3_at r a by_current) as"
    by (simp_all add: plan_reads_def)
qed

text \<open>A node that answers every call with what it holds for each address, on one of the three attempts.\<close>

definition truthful :: "fee_rpc \<Rightarrow> (address \<Rightarrow> u24 option) \<Rightarrow> (address \<Rightarrow> u8 option) \<Rightarrow> (address \<Rightarrow> u24 option) \<Rightarrow> bool" where
  "truthful rpc fee config current \<longleftrightarrow>
     (\<forall>as. call_fee rpc as = Ok (map fee as) \<and> call_config rpc as = Ok (map config as) \<and>
       call_current_fee rpc as = Ok (map current as))"

definition node_answers ::
    "(nat \<Rightarrow> fee_rpc) \<Rightarrow> (address \<Rightarrow> u24 option) \<Rightarrow> (address \<Rightarrow> u8 option) \<Rightarrow> (address \<Rightarrow> u24 option) \<Rightarrow> bool" where
  "node_answers rpc fee config current \<longleftrightarrow>
     (\<exists>k < READ_ATTEMPTS. truthful (rpc (1 + k)) fee config current \<and>
       (\<forall>i < k. \<forall>plan. want_fee plan \<noteq> [] \<or> want_current_fee plan \<noteq> [] \<longrightarrow> (\<exists>e. read_once (rpc (1 + i)) plan = Err e)))"

lemma read_chunks_all:
  "(\<And>as. call as = Ok (map f as)) \<Longrightarrow> length as \<le> n \<Longrightarrow> read_chunks n call as = Ok (map f as)"
proof (induction n arbitrary: as)
  case (Suc n)
  show ?case
  proof (cases as)
    case (Cons a as')
    have "length (drop CHUNK_SIZE as) \<le> n" using Suc.prems(2) by (simp add: CHUNK_SIZE_def Cons)
    from Suc.IH [OF Suc.prems(1) this] show ?thesis
      using Suc.prems(1) by (simp add: Cons flip: map_append)
  qed simp
qed simp

lemma read_once_truthful:
  "truthful rpc fee config current \<Longrightarrow> read_once rpc plan =
    Ok (map fee (want_fee plan), map config (want_config plan), map current (want_current_fee plan))"
  using read_chunks_all [of "call_fee rpc" fee] read_chunks_all [of "call_config rpc" config]
    read_chunks_all [of "call_current_fee rpc" current]
  by (simp add: read_once_def truthful_def)

lemma read_attempts_answer:
  assumes "k \<le> n" and "truthful (rpc (m + k)) fee config current"
    and "\<forall>i < k. \<exists>e. read_once (rpc (m + i)) plan = Err e"
  shows "read_attempts rpc m n plan =
    Ok (map fee (want_fee plan), map config (want_config plan), map current (want_current_fee plan))"
  using assms
proof (induction n arbitrary: m k)
  case 0
  then show ?case by (simp add: read_once_truthful)
next
  case (Suc n)
  show ?case
  proof (cases k)
    case 0
    then show ?thesis using Suc.prems(2) by (simp add: read_once_truthful)
  next
    case (Suc k')
    obtain e where "read_once (rpc m) plan = Err e" using Suc.prems(3) Suc by auto
    moreover have "\<forall>i < k'. \<exists>e. read_once (rpc (m + 1 + i)) plan = Err e"
      using Suc.prems(3) Suc by (metis Suc_less_eq add_Suc_right plus_1_eq_Suc add.assoc)
    ultimately show ?thesis using Suc.IH [of k' "m + 1"] Suc.prems Suc by simp
  qed
qed

lemma fold_zip_map: "fold (\<lambda>(a, x). f a x) (zip as (map g as)) r = fold (\<lambda>a. f a (g a)) as r"
  by (induction as arbitrary: r) simp_all

lemma config_for_map: "config_for plan (map config (want_config plan)) a =
    (if a \<in> set (want_config plan) then config a else None)"
proof -
  have "map_of (zip as (map config as)) a = (if a \<in> set as then Some (config a) else None)" for as
    by (induction as) auto
  then show ?thesis by (simp add: config_for_def)
qed

text \<open>Updates of distinct addresses do not meet.\<close>

lemma fold_local:
  assumes "distinct as" and "I r" and "\<And>a r. I r \<Longrightarrow> I (f a r)"
    and "\<And>a b r. I r \<Longrightarrow> g (f a r) b = (if b = a then u a (g r a) else g r b)"
  shows "g (fold f as r) b = (if b \<in> set as then u b (g r b) else g r b)"
  using assms(1,2)
proof (induction as arbitrary: r)
  case (Cons a as)
  have "g (fold f as (f a r)) b = (if b \<in> set as then u b (g (f a r) b) else g (f a r) b)"
    using Cons assms(3) by simp
  then show ?case using Cons.prems assms(4) by auto
qed simp

abbreviation state_at :: "registry \<Rightarrow> address \<Rightarrow> pool option \<times> bool" where
  "state_at r a \<equiv> (get_pool r a, is_dynamic_fee_address r a)"

definition maps_sorted :: "registry \<Rightarrow> bool" where
  "maps_sorted r \<longleftrightarrow> bt_inv (reg_pools r) \<and> bt_inv (reg_dynamic_fee r)"

definition fee_update :: "u24 option \<Rightarrow> u8 option \<Rightarrow> pool option \<times> bool \<Rightarrow> pool option \<times> bool" where
  "fee_update fee config s =
     (case (fee, s) of
        (Some f, Some (PV3 p), tracked) \<Rightarrow>
          let p = write_fee f config p
          in (Some (PV3 p), if config = None then tracked else v3_fee_source p = ReadFee)
      | _ \<Rightarrow> s)"

definition current_update :: "u24 option \<Rightarrow> pool option \<times> bool \<Rightarrow> pool option \<times> bool" where
  "current_update current s =
     (case s of
        (Some (PV3 p), tracked) \<Rightarrow>
          (case current of
             Some f \<Rightarrow> (Some (PV3 ((set_fee f p)\<lparr>v3_fee_source := ReadCurrentFee\<rparr>)), tracked)
           | None \<Rightarrow> if v3_fee_source p = Unknown then (Some (PV3 (p\<lparr>v3_fee_source := Events\<rparr>)), False) else s)
      | _ \<Rightarrow> s)"

lemma write_fee_source:
  "v3_fee_source (write_fee f (Some c) p) = (if has_flag c then ReadFee else Events)"
  by (simp add: write_fee_def)

lemma store_fee_state:
  assumes "maps_sorted r"
  shows "maps_sorted (store_fee a fee config r)"
    and "state_at (store_fee a fee config r) b = (if b = a then fee_update fee config (state_at r a) else state_at r b)"
proof -
  show "maps_sorted (store_fee a fee config r)"
    using assms by (auto simp: store_fee_def maps_sorted_def dynamic_inv Let_def
        split: option.splits pool.splits fee_source.splits)
  show "state_at (store_fee a fee config r) b = (if b = a then fee_update fee config (state_at r a) else state_at r b)"
  proof (cases fee)
    case (Some f)
    then show ?thesis
      using assms write_fee_source by (cases config)
        (auto simp: store_fee_def fee_update_def maps_sorted_def dynamic_simps dynamic_inv Let_def
          split: option.splits pool.splits)
  qed (simp add: store_fee_def fee_update_def)
qed

lemma store_current_fee_state:
  assumes "maps_sorted r"
  shows "maps_sorted (store_current_fee a current r)"
    and "state_at (store_current_fee a current r) b = (if b = a then current_update current (state_at r a) else state_at r b)"
  using assms
  by (auto simp: store_current_fee_def current_update_def maps_sorted_def dynamic_simps dynamic_inv
      split: option.splits pool.splits)

lemma write_back_state:
  fixes fee current :: "address \<Rightarrow> u24 option" and config :: "address \<Rightarrow> u8 option"
  assumes "maps_sorted r" and "distinct as"
  defines "plan \<equiv> plan_reads r as"
  defines "r' \<equiv> write_back plan (map fee (want_fee plan), map config (want_config plan), map current (want_current_fee plan)) r"
  shows "state_at r' a =
    (if a \<in> set (want_current_fee plan) then current_update (current a) else (\<lambda>s. s))
      (if a \<in> set (want_fee plan)
       then fee_update (fee a) (if a \<in> set (want_config plan) then config a else None) (state_at r a) else state_at r a)"
proof -
  let ?c = "\<lambda>a. if a \<in> set (want_config plan) then config a else None"
  let ?r = "fold (\<lambda>a. store_fee a (fee a) (?c a)) (want_fee plan) r"
  have r': "r' = fold (\<lambda>a. store_current_fee a (current a)) (want_current_fee plan) ?r"
    unfolding r'_def write_back_def by (simp add: fold_zip_map config_for_map Let_def)
  have d: "distinct (want_fee plan)" "distinct (want_current_fee plan)"
    using assms(2) by (simp_all add: plan_def plan_wants)
  have i: "maps_sorted ?r"
    by (rule fold_invariant [where Q = "\<lambda>_. True"]) (use assms(1) store_fee_state in auto)
  have "state_at r' a = (if a \<in> set (want_current_fee plan) then current_update (current a) (state_at ?r a) else state_at ?r a)"
    unfolding r' by (rule fold_local [where I = maps_sorted and u = "\<lambda>a. current_update (current a)", OF d(2) i])
      (use store_current_fee_state in blast)+
  moreover have "state_at ?r a = (if a \<in> set (want_fee plan) then fee_update (fee a) (?c a) (state_at r a) else state_at r a)"
    by (rule fold_local [where I = maps_sorted and u = "\<lambda>a. fee_update (fee a) (?c a)", OF d(1) assms(1)])
      (use store_fee_state in blast)+
  ultimately show ?thesis by simp
qed

lemma read_fees_write_back:
  fixes r :: registry and as :: "address list"
  assumes "node_answers rpc fee config current"
  defines "plan \<equiv> plan_reads r as"
  shows "read_fees rpc as r =
    (write_back plan (map fee (want_fee plan), map config (want_config plan), map current (want_current_fee plan)) r, Ok ())"
proof -
  show ?thesis
  proof (cases "want_fee plan = [] \<and> want_current_fee plan = []")
    case True
    then show ?thesis by (simp add: read_fees_def Let_def write_back_def flip: plan_def)
  next
    case False
    obtain k where k: "k < READ_ATTEMPTS" "truthful (rpc (1 + k)) fee config current"
        "\<forall>i < k. \<exists>e. read_once (rpc (1 + i)) plan = Err e"
      using assms(1) False by (auto simp: node_answers_def)
    have "read_attempts rpc 1 (READ_ATTEMPTS - 1) plan =
        Ok (map fee (want_fee plan), map config (want_config plan), map current (want_current_fee plan))"
      by (rule read_attempts_answer [of k]) (use k in auto)
    then show ?thesis using False by (auto simp add: read_fees_def Let_def simp flip: plan_def)
  qed
qed

lemma read_pool_updates:
  "fst ((if by_current q then current_update current else (\<lambda>s. s))
     (if by_fee q then fee_update fee (if by_config q then config else None) (Some (PV3 q), t) else (Some (PV3 q), t))) =
   Some (PV3 (read_pool fee config current q))"
  by (cases "v3_fee_source q"; cases "v3_type q = AlgebraV3"; cases fee; cases current)
    (simp_all add: by_current_def by_fee_def by_config_def current_update_def fee_update_def read_pool_def
      write_fee_def Let_def)

lemma write_back_sorted:
  fixes fee current :: "address \<Rightarrow> u24 option" and config :: "address \<Rightarrow> u8 option"
  assumes "maps_sorted r"
  shows "maps_sorted (write_back plan (fees, configs, currents) r)"
proof -
  have f: "maps_sorted (fold (\<lambda>(a, fee). store_fee a fee (config_for plan configs a)) xs r)" if "maps_sorted r" for xs r
    using that by (induction xs arbitrary: r) (auto simp: store_fee_state(1))
  have c: "maps_sorted (fold (\<lambda>(a, current). store_current_fee a current) xs r)" if "maps_sorted r" for xs r
    using that by (induction xs arbitrary: r) (auto simp: store_current_fee_state(1))
  show ?thesis using f [OF assms] c by (simp add: write_back_def)
qed

lemma write_back_tracks:
  fixes fee current :: "address \<Rightarrow> u24 option" and config :: "address \<Rightarrow> u8 option"
  assumes "tracks_needed r" and "distinct as"
  defines "plan \<equiv> plan_reads r as"
  shows "tracks_needed (write_back plan (map fee (want_fee plan), map config (want_config plan), map current (want_current_fee plan)) r)"
    (is "tracks_needed ?r")
proof -
  have m: "maps_sorted r" using assms(1) by (simp add: maps_sorted_def tracks_needed_def)
  have "is_dynamic_fee_address ?r a" if g: "get_pool ?r a = Some p'" and n: "needs_reading p'" for a p'
  proof -
    obtain q' where q': "p' = PV3 q'" "fee_needs_reading q'" using n by (cases p') auto
    note s = write_back_state [OF m assms(2), of fee config current a, folded plan_def]
    obtain q where q: "get_pool r a = Some (PV3 q)"
      using s g q'(1) by (cases "get_pool r a"; cases "the (get_pool r a)")
        (auto simp: fee_update_def current_update_def Let_def split: option.splits if_splits)
    have d: "fee_needs_reading q \<Longrightarrow> is_dynamic_fee_address r a"
      using assms(1) q by (simp add: tracks_needed_def)
    show ?thesis
      using s g q' q d
      by (auto simp: plan_def plan_wants v3_at_def by_fee_def by_config_def by_current_def fee_update_def
          current_update_def write_fee_def set_fee_def Let_def fee_needs_reading_def
          split: option.splits if_splits fee_source.splits)
  qed
  then show ?thesis using write_back_sorted [OF m] by (simp add: tracks_needed_def maps_sorted_def)
qed

text \<open>C24: a read that some attempt of three answers does, for each listed V3 pool, exactly what reading that
  pool alone would: it stores the fee the chain holds and the source the configuration, the answer or
  the revert shows, and leaves every other pool alone; and every pool that still needs reading
  stays tracked.\<close>

theorem read_fees_pool_by_pool:
  assumes "tracks_needed r" and "distinct as" and "node_answers rpc fee config current"
  shows "\<exists>r'. read_fees rpc as r = (r', Ok ()) \<and> tracks_needed r' \<and>
    (\<forall>a. get_pool r' a = (case get_pool r a of
        Some (PV3 p) \<Rightarrow> Some (PV3 (if a \<in> set as then read_pool (fee a) (config a) (current a) p else p))
      | other \<Rightarrow> other))"
proof -
  let ?plan = "plan_reads r as"
  let ?r = "write_back ?plan (map fee (want_fee ?plan), map config (want_config ?plan), map current (want_current_fee ?plan)) r"
  have m: "maps_sorted r" using assms(1) by (simp add: maps_sorted_def tracks_needed_def)
  note s = write_back_state [OF m assms(2), of fee config current]
  have p: "get_pool ?r a = (case get_pool r a of
        Some (PV3 p) \<Rightarrow> Some (PV3 (if a \<in> set as then read_pool (fee a) (config a) (current a) p else p))
      | other \<Rightarrow> other)" for a
  proof (cases "a \<in> set as \<and> (\<exists>q. get_pool r a = Some (PV3 q))")
    case True
    then obtain q where q: "a \<in> set as" "get_pool r a = Some (PV3 q)" by blast
    have "fst (state_at ?r a) = Some (PV3 (read_pool (fee a) (config a) (current a) q))"
      unfolding s [of a] by (simp only: plan_wants set_filter mem_Collect_eq v3_at_def q option.case pool.case simp_thms
        read_pool_updates)
    then show ?thesis using q by simp
  next
    case False
    then have "state_at ?r a = state_at r a"
      unfolding s [of a] by (auto simp: plan_wants v3_at_def split: option.splits pool.splits)
    then show ?thesis using False by (auto split: option.splits pool.splits)
  qed
  have "tracks_needed ?r"
    by (rule write_back_tracks [OF assms(1,2)])
  then show ?thesis using read_fees_write_back [OF assms(3)] p by blast
qed

text \<open>An Algebra pool restored from a snapshot, whose configuration turns out to set the flag.\<close>

definition sample_algebra :: v3_pool where
  "sample_algebra = v3_new 11 2 3 500 60 4295128740 0 1000 4 AlgebraV3 0"

definition sample_fee_rpc :: "nat \<Rightarrow> fee_rpc" where
  "sample_fee_rpc k =
     (if k = 1 then \<lparr>call_fee = (\<lambda>_. Err DecodeFailed), call_config = (\<lambda>_. Err DecodeFailed), call_current_fee = (\<lambda>_. Err DecodeFailed)\<rparr>
      else \<lparr>call_fee = (\<lambda>as. Ok (map (\<lambda>_. Some 224) as)), call_config = (\<lambda>as. Ok (map (\<lambda>_. Some 128) as)),
        call_current_fee = (\<lambda>as. Ok (map (\<lambda>_. None) as))\<rparr>)"

theorem read_fees_pool_by_pool_witness:
  "get_pool (fst (read_fees sample_fee_rpc [11] (add_pool (PV3 sample_algebra) (registry_new 14)))) 11 =
   Some (PV3 (sample_algebra\<lparr>v3_fee := 224, v3_fee_source := ReadFee\<rparr>))"
proof -
  let ?r = "add_pool (PV3 sample_algebra) (registry_new 14)"
  have n: "needs_reading (PV3 sample_algebra)" by (simp add: sample_algebra_def v3_new_def fee_needs_reading_def)
  have g: "get_pool ?r a = (if a = 11 then Some (PV3 sample_algebra) else None)" for a
    by (simp add: get_pool_def registry_simps registry_new_def sample_algebra_def v3_new_def)
  have d: "is_dynamic_fee_address ?r 11"
    using n by (simp add: is_dynamic_fee_address_def registry_simps registry_new_def sample_algebra_def v3_new_def)
  have t: "tracks_needed ?r"
    unfolding tracks_needed_def g
    using d n by (simp add: registry_simps registry_new_def bt_inv_def)
  have e: "read_all (\<lambda>_. Err DecodeFailed) as = (if as = [] then Ok [] else Err DecodeFailed)" for as :: "address list"
    by (cases as) simp_all
  have a: "node_answers sample_fee_rpc (\<lambda>_. Some 224) (\<lambda>_. Some 128) (\<lambda>_. None)"
    unfolding node_answers_def READ_ATTEMPTS_def
    by (rule exI [of _ 1]) (auto simp: truthful_def sample_fee_rpc_def read_once_def e)
  show ?thesis
    using read_fees_pool_by_pool [OF t _ a, of "[11]"] g
    by (auto simp: read_pool_def write_fee_def set_fee_def has_flag_def ALGEBRA_DYNAMIC_FEE_FLAG_def sample_algebra_def v3_new_def)
qed

end
