(* ===== verification/Updater.thy ===== *)
theory Updater
  imports Block_Source Fee_Reader
begin

text \<open>
  \<^verbatim>\<open>src/collector/unified_pool_updater.rs\<close>: the loop that takes batches from a block source, processes them,
  moves the cursor and tells the fee reader; and the contract of a block source under which the loop
  keeps the registry in step with the chain. A read the fee reader starts runs beside the loop and is
  recorded here, not run.
\<close>

section \<open>The updater\<close>

record 'src updater =
  up_source :: 'src
  up_registry :: registry
  up_fee_reader :: "fee_reader option"
  up_sent :: "chain_log list"
  up_reads :: "fee_read list"

text \<open>The cursor a new updater starts from.\<close>

definition init_cursor :: "u64 \<Rightarrow> registry \<Rightarrow> registry" where
  "init_cursor start_block r =
     (let current_block = reg_last_processed_block r
      in if current_block = 0 then set_last_processed_block start_block r
         else if start_block > 0 \<and> start_block > current_block then set_last_processed_block start_block r
         else r)"

definition updater_new :: "'src \<Rightarrow> u64 \<Rightarrow> bool \<Rightarrow> registry \<Rightarrow> 'src updater" where
  "updater_new source start_block refetch_algebra_fee r =
     \<lparr>up_source = source, up_registry = init_cursor start_block r,
      up_fee_reader = (if refetch_algebra_fee then Some fee_reader_new else None), up_sent = [], up_reads = []\<rparr>"

text \<open>What does not change during a run: the processor, the hash map order, the two reconfiguration topics.\<close>

record updater_env =
  ue_processor :: processor
  ue_iteration :: "log_groups \<Rightarrow> log_groups"
  ue_plugin_config :: topic
  ue_plugin :: topic

definition batch_candidates :: "updater_env \<Rightarrow> event_batch \<Rightarrow> fee_reader option \<Rightarrow> registry \<Rightarrow> registry \<times> address list option" where
  "batch_candidates env b reader r =
     (if eb_mode b = PendingMode then (r, None)
      else case reader of
             None \<Rightarrow> (r, None)
           | Some _ \<Rightarrow>
               (case fee_read_candidates (ue_plugin_config env) (ue_plugin env) (eb_events b) (r, []) of
                  (r, candidates) \<Rightarrow> (r, Some (map fst candidates))))"

text \<open>One batch, at wall-clock second \<open>now\<close> and instant \<open>millis\<close>; a panic ends the task.\<close>

definition handle_batch :: "updater_env \<Rightarrow> u64 \<Rightarrow> nat \<Rightarrow> event_batch \<Rightarrow> 'src updater \<Rightarrow> 'src updater res" where
  "handle_batch env now millis b u =
     (case batch_candidates env b (up_fee_reader u) (up_registry u) of
        (r, candidates) \<Rightarrow>
          (case process_batch (ue_processor env) (ue_iteration env) now b r of
             (r, Inl e) \<Rightarrow> Err e
           | (r, Inr sent) \<Rightarrow>
               let u = u\<lparr>up_registry := r, up_sent := up_sent u @ sent\<rparr>
               in case (up_fee_reader u, candidates) of
                    (Some f, Some touched) \<Rightarrow>
                      (case after_batch touched millis r f of
                         (f, None) \<Rightarrow> Ok (u\<lparr>up_fee_reader := Some f\<rparr>)
                       | (f, Some read) \<Rightarrow> Ok (u\<lparr>up_fee_reader := Some f, up_reads := up_reads u @ [read]\<rparr>))
                  | _ \<Rightarrow> Ok u))"

text \<open>The loop over successive turns of the source; \<open>None\<close> is a turn that does not return.\<close>

fun updater_run ::
    "('poll \<Rightarrow> registry \<Rightarrow> 'src \<Rightarrow> ('src \<times> event_batch option) option) \<Rightarrow> updater_env \<Rightarrow>
     ('poll \<times> u64 \<times> nat) list \<Rightarrow> 'src updater \<Rightarrow> 'src updater res option" where
  "updater_run turn env [] u = Some (Ok u)"
| "updater_run turn env ((poll, now, millis) # ps) u =
     (case turn poll (up_registry u) (up_source u) of
        None \<Rightarrow> None
      | Some (s, None) \<Rightarrow> updater_run turn env ps (u\<lparr>up_source := s\<rparr>)
      | Some (s, Some b) \<Rightarrow>
          (case handle_batch env now millis b (u\<lparr>up_source := s\<rparr>) of
             Inl e \<Rightarrow> Some (Err e)
           | Inr u \<Rightarrow> updater_run turn env ps u))"

section \<open>Registries during a run\<close>

definition live :: "registry \<Rightarrow> bool" where
  "live r \<longleftrightarrow> bt_inv (reg_pools r) \<and> reg_pools r \<noteq> []"

text \<open>Which pools there are, whatever their state.\<close>

definition pool_ids :: "registry \<Rightarrow> (address \<times> pool_type \<times> address \<times> address \<times> address) list" where
  "pool_ids r = map (\<lambda>(a, p). (a, pool_identity p)) (reg_pools r)"

lemma bt_insert_same_id:
  assumes "bt_inv m" and "bt_get m a = Some q" and "f p = f q"
  shows "map (\<lambda>(a, p). (a, f p)) (bt_insert a p m) = map (\<lambda>(a, p). (a, f p)) m"
  using assms(1,2)
proof (induction m)
  case (Cons e m)
  obtain k v where e: "e = (k, v)" by fastforce
  have k: "bt_inv m" "\<forall>j \<in> fst ` set m. k < j" using Cons.prems(1) e by (simp_all add: bt_inv_Cons)
  have "bt_get m a = None" if "a < k" by (rule bt_get_below) (use k(2) that in force)
  show ?case
  proof (cases "a = k")
    case True
    then show ?thesis using Cons.prems assms(3) by (simp add: e)
  next
    case False
    then show ?thesis using Cons k \<open>a < k \<Longrightarrow> bt_get m a = None\<close> by (auto simp: e split: if_splits)
  qed
qed simp

lemma pool_ids_apply [simp]: "bt_inv (reg_pools r) \<Longrightarrow> pool_ids (apply_at now l r) = pool_ids r"
  by (auto simp: apply_at_def pool_ids_def get_pool_def pool_log_identity bt_insert_same_id split: option.splits)

lemma live_apply: "live r \<Longrightarrow> live (apply_at now l r)"
proof -
  assume "live r"
  then have "bt_inv (reg_pools r)" "reg_pools r \<noteq> []" by (simp_all add: live_def)
  moreover have "length (pool_ids (apply_at now l r)) = length (pool_ids r)" using \<open>bt_inv (reg_pools r)\<close> by simp
  ultimately show ?thesis by (auto simp: live_def apply_at_inv pool_ids_def)
qed

lemma apply_fold:
  assumes "live r"
  shows "live (fold (apply_at now) ls r)" and "pool_ids (fold (apply_at now) ls r) = pool_ids r"
    and "reg_last_processed_block (fold (apply_at now) ls r) = reg_last_processed_block r"
  using assms by (induction ls arbitrary: r) (simp_all add: live_apply, simp add: live_def)

lemma apply_at_pools: "reg_pools r = reg_pools r' \<Longrightarrow> reg_pools (apply_at now l r) = reg_pools (apply_at now l r')"
  by (auto simp: apply_at_def get_pool_def split: option.splits)

lemma apply_fold_pools: "reg_pools r = reg_pools r' \<Longrightarrow> reg_pools (fold (apply_at now) ls r) = reg_pools (fold (apply_at now) ls r')"
proof (induction ls arbitrary: r r')
  case (Cons l ls)
  show ?case using Cons.IH [OF apply_at_pools [OF Cons.prems]] by simp
qed simp

lemma candidates_frame:
  "reg_pools (fst (fee_read_candidates c p ls (r, cs))) = reg_pools r \<and>
   reg_last_processed_block (fst (fee_read_candidates c p ls (r, cs))) = reg_last_processed_block r"
  by (induction ls arbitrary: r cs) (simp_all add: Let_def add_dynamic_fee_address_def)

lemma batch_candidates_frame:
  "batch_candidates env b f r = (r', cs) \<Longrightarrow>
   reg_pools r' = reg_pools r \<and> reg_last_processed_block r' = reg_last_processed_block r"
  using candidates_frame [of "ue_plugin_config env" "ue_plugin env" "eb_events b" r "[]"]
  by (auto simp: batch_candidates_def split: if_splits option.splits prod.splits)

lemma handle_batch_registry:
  assumes "bt_inv (reg_pools (up_registry u))" and "\<forall>l \<in> set (eb_events b). mined l"
    and "\<And>gs. mset (ue_iteration env gs) = mset gs"
  shows "\<exists>u'. handle_batch env now millis b u = Ok u' \<and> up_source u' = up_source u \<and>
    reg_pools (up_registry u') = reg_pools
      (if eb_mode b = PendingMode then up_registry u else fold (apply_at now) (eb_events b) (up_registry u)) \<and>
    reg_last_processed_block (up_registry u') =
      (case eb_processed_through_block b of None \<Rightarrow> reg_last_processed_block (up_registry u) | Some n \<Rightarrow> n)"
proof -
  obtain r cs where c: "batch_candidates env b (up_fee_reader u) (up_registry u) = (r, cs)" by fastforce
  note f = batch_candidates_frame [OF c]
  have i: "bt_inv (reg_pools r)" using f assms(1) by simp
  obtain r' sent where p: "process_batch (ue_processor env) (ue_iteration env) now b r = (r', Ok sent)"
    using process_batch_registry(2) [OF i assms(2,3), of "ue_processor env" now]
    by (cases "process_batch (ue_processor env) (ue_iteration env) now b r") auto
  have l: "reg_last_processed_block (fold (apply_at now) ls r) = reg_last_processed_block r" for ls
    by (induction ls arbitrary: r) simp_all
  have r': "reg_pools r' = reg_pools (if eb_mode b = PendingMode then up_registry u else fold (apply_at now) (eb_events b) (up_registry u))"
    "reg_last_processed_block r' =
      (case eb_processed_through_block b of None \<Rightarrow> reg_last_processed_block (up_registry u) | Some n \<Rightarrow> n)"
    using process_batch_registry(1) [OF i assms(2,3), of "ue_processor env" now] p f l
      apply_fold_pools [of r "up_registry u" now "eb_events b"]
    by (auto simp: set_last_processed_block_def split: option.splits)
  show ?thesis
    using r' by (auto simp: handle_batch_def c p Let_def split: option.splits prod.splits)
qed

section \<open>The contract of a block source\<close>

text \<open>
  A ready source returns from every turn with an acceptable poll. A confirmed batch holds the events of
  exactly the blocks after the cursor up to the one it is processed through; a pending batch moves
  nothing. Which events a block has depends on the registered pools, not on their state.
\<close>

locale block_source =
  fixes turn :: "'poll \<Rightarrow> registry \<Rightarrow> 'src \<Rightarrow> ('src \<times> event_batch option) option"
    and ready :: "u64 \<Rightarrow> 'src \<Rightarrow> bool"
    and poll_ok :: "'poll \<Rightarrow> bool"
    and block_events :: "registry \<Rightarrow> u64 \<Rightarrow> chain_log list"
  assumes returns: "live r \<Longrightarrow> ready (reg_last_processed_block r) s \<Longrightarrow> poll_ok p \<Longrightarrow> turn p r s \<noteq> None"
    and waits: "live r \<Longrightarrow> ready (reg_last_processed_block r) s \<Longrightarrow> poll_ok p \<Longrightarrow>
      turn p r s = Some (s', None) \<Longrightarrow> ready (reg_last_processed_block r) s'"
    and yields_mined: "live r \<Longrightarrow> ready (reg_last_processed_block r) s \<Longrightarrow> poll_ok p \<Longrightarrow>
      turn p r s = Some (s', Some b) \<Longrightarrow> l \<in> set (eb_events b) \<Longrightarrow> mined l"
    and yields_pending: "live r \<Longrightarrow> ready (reg_last_processed_block r) s \<Longrightarrow> poll_ok p \<Longrightarrow>
      turn p r s = Some (s', Some b) \<Longrightarrow> eb_processed_through_block b = None \<Longrightarrow>
      eb_mode b = PendingMode \<and> ready (reg_last_processed_block r) s'"
    and yields_confirmed: "live r \<Longrightarrow> ready (reg_last_processed_block r) s \<Longrightarrow> poll_ok p \<Longrightarrow>
      turn p r s = Some (s', Some b) \<Longrightarrow> eb_processed_through_block b = Some n \<Longrightarrow>
      eb_mode b \<noteq> PendingMode \<and> reg_last_processed_block r < n \<and> ready n s' \<and>
      eb_events b = logs_between (block_events r) [uint (reg_last_processed_block r) + 1..uint n]"
    and static: "pool_ids r = pool_ids r' \<Longrightarrow> live r \<Longrightarrow> live r' \<Longrightarrow> block_events r = block_events r'"

text \<open>Applying the blocks one by one, block \<open>n\<close> at time \<open>clock n\<close>.\<close>

definition apply_blocks :: "(int \<Rightarrow> u64) \<Rightarrow> (u64 \<Rightarrow> chain_log list) \<Rightarrow> int list \<Rightarrow> registry \<Rightarrow> registry" where
  "apply_blocks clock blocks ns = fold (\<lambda>n. fold (apply_at (clock n)) (blocks (word_of_int n))) ns"

lemma apply_blocks_constant:
  "(\<And>n. n \<in> set ns \<Longrightarrow> clock n = now) \<Longrightarrow> apply_blocks clock blocks ns r = fold (apply_at now) (logs_between blocks ns) r"
  by (induction ns arbitrary: r) (simp_all add: apply_blocks_def)

lemma apply_blocks_append: "apply_blocks clock blocks (ns @ ms) r = apply_blocks clock blocks ms (apply_blocks clock blocks ns r)"
  by (simp add: apply_blocks_def)

lemma apply_blocks_cong:
  "(\<And>n. n \<in> set ns \<Longrightarrow> clock n = clock' n) \<Longrightarrow> reg_pools r = reg_pools r' \<Longrightarrow>
   reg_pools (apply_blocks clock blocks ns r) = reg_pools (apply_blocks clock' blocks ns r')"
proof (induction ns arbitrary: r r')
  case (Cons n ns)
  have "reg_pools (fold (apply_at (clock n)) (blocks (word_of_int n)) r) =
      reg_pools (fold (apply_at (clock' n)) (blocks (word_of_int n)) r')"
    using apply_fold_pools [OF Cons.prems(2), of "clock n"] Cons.prems(1) by simp
  from Cons.IH [OF _ this] Cons.prems(1) show ?case by (simp add: apply_blocks_def)
qed (simp add: apply_blocks_def)

context block_source
begin

lemma turn_cases:
  assumes "live r" and "ready (reg_last_processed_block r) s" and "poll_ok p"
  obtains s' where "turn p r s = Some (s', None)" and "ready (reg_last_processed_block r) s'"
  | s' b where "turn p r s = Some (s', Some b)"
proof (cases "turn p r s")
  case None
  then show ?thesis using returns [OF assms] by simp
next
  case (Some sb)
  show ?thesis
  proof (cases "snd sb")
    case None
    then have t: "turn p r s = Some (fst sb, None)" using Some by (metis prod.collapse)
    show ?thesis by (rule that(1) [OF t waits [OF assms t]])
  next
    case (Some b)
    then have "turn p r s = Some (fst sb, Some b)" using \<open>turn p r s = Some sb\<close> by (metis prod.collapse)
    then show ?thesis by (rule that(2))
  qed
qed

lemma run_applies_blocks:
  assumes "\<And>gs. mset (ue_iteration env gs) = mset gs"
    and "live (up_registry u)" and "ready (reg_last_processed_block (up_registry u)) (up_source u)"
    and "\<forall>q \<in> set ps. poll_ok (fst q)"
  shows "\<exists>u' clock. updater_run turn env ps u = Some (Ok u') \<and>
    reg_last_processed_block (up_registry u) \<le> reg_last_processed_block (up_registry u') \<and>
    reg_pools (up_registry u') = reg_pools (apply_blocks clock (block_events (up_registry u))
      [uint (reg_last_processed_block (up_registry u)) + 1..uint (reg_last_processed_block (up_registry u'))] (up_registry u))"
  using assms(2-4)
proof (induction ps arbitrary: u)
  case Nil
  have "[uint c + 1..uint c] = []" for c :: u64 by simp
  then show ?case by (simp add: apply_blocks_def)
next
  case (Cons q ps)
  obtain p now millis where q: "q = (p, now, millis)" by (cases q) auto
  have pok: "poll_ok p" and rest: "\<forall>q \<in> set ps. poll_ok (fst q)" using Cons.prems(3) q by auto
  let ?r = "up_registry u"
  let ?c = "reg_last_processed_block ?r"
  show ?case
  proof (rule turn_cases [OF Cons.prems(1,2) pok])
    fix s' assume t: "turn p ?r (up_source u) = Some (s', None)" "ready ?c s'"
    show ?thesis using Cons.IH [of "u\<lparr>up_source := s'\<rparr>"] Cons.prems(1) t rest by (simp add: q)
  next
    fix s' b assume t: "turn p ?r (up_source u) = Some (s', Some b)"
    have m: "\<forall>l \<in> set (eb_events b). mined l" using yields_mined [OF Cons.prems(1,2) pok t] by blast
    have i: "bt_inv (reg_pools (up_registry (u\<lparr>up_source := s'\<rparr>)))" using Cons.prems(1) by (simp add: live_def)
    have f: "up_source (u\<lparr>up_source := s'\<rparr>) = s'" "up_registry (u\<lparr>up_source := s'\<rparr>) = ?r" by simp_all
    from handle_batch_registry [OF i m assms(1), of now millis, unfolded f] obtain v where
      v: "handle_batch env now millis b (u\<lparr>up_source := s'\<rparr>) = Ok v" "up_source v = s'"
      "reg_pools (up_registry v) = reg_pools (if eb_mode b = PendingMode then ?r else fold (apply_at now) (eb_events b) ?r)"
      "reg_last_processed_block (up_registry v) = (case eb_processed_through_block b of None \<Rightarrow> ?c | Some n \<Rightarrow> n)" by blast
    have run: "updater_run turn env (q # ps) u = updater_run turn env ps v" by (simp add: q t v(1))
    show ?thesis
    proof (cases "eb_processed_through_block b")
      case None
      note y = yields_pending [OF Cons.prems(1,2) pok t None]
      have e: "reg_pools (up_registry v) = reg_pools ?r" "reg_last_processed_block (up_registry v) = ?c"
        using v(3,4) y None by simp_all
      have lv: "live (up_registry v)" using Cons.prems(1) e by (simp add: live_def)
      have b: "block_events (up_registry v) = block_events ?r"
        by (rule static) (use e lv Cons.prems(1) in \<open>simp_all add: pool_ids_def\<close>)
      obtain u' clock where u': "updater_run turn env ps v = Some (Ok u')" "?c \<le> reg_last_processed_block (up_registry u')"
          "reg_pools (up_registry u') = reg_pools (apply_blocks clock (block_events ?r)
            [uint ?c + 1..uint (reg_last_processed_block (up_registry u'))] (up_registry v))"
        using Cons.IH [OF lv _ rest] y v(2) e(2) b by auto
      have "reg_pools (up_registry u') = reg_pools (apply_blocks clock (block_events ?r)
          [uint ?c + 1..uint (reg_last_processed_block (up_registry u'))] ?r)"
        using u'(3) apply_blocks_cong [OF refl e(1)] by simp
      then show ?thesis using u'(1,2) run by auto
    next
      case (Some n)
      note y = yields_confirmed [OF Cons.prems(1,2) pok t Some]
      have e: "reg_pools (up_registry v) = reg_pools (fold (apply_at now) (eb_events b) ?r)"
        "reg_last_processed_block (up_registry v) = n"
        using v(3,4) y Some by simp_all
      have ids: "pool_ids (up_registry v) = pool_ids ?r"
        using e(1) apply_fold(2) [OF Cons.prems(1), of now "eb_events b"] by (simp add: pool_ids_def)
      have lv: "live (up_registry v)"
        using e(1) apply_fold(1) [OF Cons.prems(1), of now "eb_events b"] by (simp add: live_def)
      have b: "block_events (up_registry v) = block_events ?r" by (rule static [OF ids lv Cons.prems(1)])
      obtain u' clock where u': "updater_run turn env ps v = Some (Ok u')" "n \<le> reg_last_processed_block (up_registry u')"
          "reg_pools (up_registry u') = reg_pools (apply_blocks clock (block_events ?r)
            [uint n + 1..uint (reg_last_processed_block (up_registry u'))] (up_registry v))"
        using Cons.IH [OF lv _ rest] y v(2) e(2) b by auto
      let ?d = "reg_last_processed_block (up_registry u')"
      let ?clock = "\<lambda>k. if k \<le> uint n then now else clock k"
      have le: "uint ?c < uint n" "uint n \<le> uint ?d" using y u'(2) by (simp_all add: word_less_def word_le_def)
      have split: "[uint ?c + 1..uint ?d] = [uint ?c + 1..uint n] @ [uint n + 1..uint ?d]"
        using le by (intro upto_join [symmetric]) simp_all
      have "apply_blocks ?clock (block_events ?r) [uint ?c + 1..uint n] ?r = fold (apply_at now) (eb_events b) ?r"
        using apply_blocks_constant [of "[uint ?c + 1..uint n]" ?clock now "block_events ?r" ?r] y by simp
      then have "reg_pools (apply_blocks ?clock (block_events ?r) [uint ?c + 1..uint ?d] ?r) =
          reg_pools (apply_blocks ?clock (block_events ?r) [uint n + 1..uint ?d] (fold (apply_at now) (eb_events b) ?r))"
        by (simp add: split apply_blocks_append)
      also have "\<dots> = reg_pools (apply_blocks clock (block_events ?r) [uint n + 1..uint ?d] (up_registry v))"
        using e(1) by (intro apply_blocks_cong) auto
      finally have p: "reg_pools (up_registry u') = reg_pools (apply_blocks ?clock (block_events ?r) [uint ?c + 1..uint ?d] ?r)"
        using u'(3) by simp
      have "?c \<le> ?d" using le by (simp add: word_le_def)
      then show ?thesis using u'(1) run p by auto
    qed
  qed
qed

end

end
