(* ===== verification/Polling.thy ===== *)
theory Polling
  imports Updater
begin

text \<open>
  The two polling sources keep the contract of a block source against a node that serves the chain, so
  an updater over either keeps the registry in step with the chain.
\<close>

section \<open>The events of a block\<close>

definition mined_chain :: "(u64 \<Rightarrow> chain_log list) \<Rightarrow> bool" where
  "mined_chain chain \<longleftrightarrow> (\<forall>n. \<forall>l \<in> set (chain n). mined l)"

text \<open>The logs of a block the registry's pools and the topics select, the LB pools' logs dated.\<close>

definition chain_events :: "rpc \<Rightarrow> (u64 \<Rightarrow> chain_log list) \<Rightarrow> topic list \<Rightarrow> registry \<Rightarrow> u64 \<Rightarrow> chain_log list" where
  "chain_events rpc chain topics r n =
     map (stamped (rpc_header rpc) [] (lb_log r)) (filter (watches (get_all_addresses r) topics) (chain n))"

lemma logs_between_events:
  "map (stamped (rpc_header rpc) [] (lb_log r)) (filter (watches (get_all_addresses r) topics) (logs_between chain ns)) =
   logs_between (chain_events rpc chain topics r) ns"
  by (induction ns) (simp_all add: chain_events_def)

lemma stamped_mined: "mined (stamped header known wanted l) = mined l"
  by (simp add: mined_def)

lemma between_mined: "mined_chain chain \<Longrightarrow> l \<in> set (logs_between chain ns) \<Longrightarrow> mined l"
  by (auto simp: mined_chain_def logs_between_def)

lemma events_mined: "mined_chain chain \<Longrightarrow> l \<in> set (logs_between (chain_events rpc chain topics r) ns) \<Longrightarrow> mined l"
  by (auto simp: mined_chain_def logs_between_def chain_events_def stamped_mined)

lemma live_addresses: "live r \<Longrightarrow> get_all_addresses r \<noteq> []"
  by (simp add: live_def get_all_addresses_def)

lemma addresses_ids: "get_all_addresses r = map fst (pool_ids r)"
  by (simp add: get_all_addresses_def pool_ids_def case_prod_beta comp_def)

lemma get_pool_ids: "map_option pool_identity (get_pool r a) = bt_get (pool_ids r) a"
proof -
  have "map_option pool_identity (bt_get m a) = bt_get (map (\<lambda>(a, p). (a, pool_identity p)) m) a" for m
    by (induction m) auto
  then show ?thesis by (simp add: get_pool_def pool_ids_def)
qed

lemma lb_log_ids: "lb_log r l \<longleftrightarrow> (\<exists>i. bt_get (pool_ids r) (log_address l) = Some i \<and> fst i = TypeLB)"
  by (auto simp: lb_log_def pool_identity_def simp flip: get_pool_ids)

lemma chain_events_static: "pool_ids r = pool_ids r' \<Longrightarrow> chain_events rpc chain topics r = chain_events rpc chain topics r'"
  unfolding chain_events_def addresses_ids lb_log_ids [abs_def] by simp

text \<open>Block times the source has seen are the ones the headers give.\<close>

definition known_true :: "header_rpc \<Rightarrow> (u64, u64) btree \<Rightarrow> bool" where
  "known_true header known \<longleftrightarrow> bt_inv known \<and> (\<forall>n t. bt_get known n = Some t \<longrightarrow> fetched_time header n = Some t)"

lemma stamped_known: "known_true header known \<Longrightarrow> stamped header known wanted l = stamped header [] wanted l"
  by (auto simp: stamped_def known_true_def split: option.splits)

lemma bt_filter_get:
  "bt_inv m \<Longrightarrow> bt_inv (filter P m) \<and> (bt_get (filter P m) k = Some v \<longrightarrow> bt_get m k = Some v)"
proof -
  assume i: "bt_inv m"
  have j: "bt_inv (filter P m)"
    using i unfolding bt_inv_def by (induction m) auto
  have "bt_get (filter P m) k = Some v \<longrightarrow> bt_get m k = Some v"
    using bt_get_set [OF i, of k v] bt_get_set [OF j, of k v] by auto
  with j show ?thesis by simp
qed

lemma remember_true:
  assumes "known_true header known" and "fetched_time header n = Some t"
  shows "known_true header (remember_block_time n t known)"
proof -
  have i: "bt_inv (bt_insert n t known)" using assms(1) by (simp add: known_true_def bt_simps)
  have "fetched_time header k = Some v" if "bt_get (bt_insert n t known) k = Some v" for k v
    using that assms by (auto simp: known_true_def bt_simps split: if_splits)
  then show ?thesis using bt_filter_get [OF i] by (auto simp: known_true_def remember_block_time_def)
qed

lemma fetched_events:
  assumes "live r" and "serves rpc chain" and "known_true (rpc_header rpc) known"
  shows "map_option (\<lambda>events. enrich_if_lb_pools_present (rpc_header rpc) r events known)
      (fetch_events_with_retry rpc (get_all_addresses r) topics (Number a) (Number b)) =
    Some (logs_between (chain_events rpc chain topics r) [uint a..uint b])"
proof -
  have b: "bt_inv (reg_pools r)" "bt_inv known" using assms(1,3) by (simp_all add: live_def known_true_def)
  have k: "stamped (rpc_header rpc) known = stamped (rpc_header rpc) []"
    by (intro ext) (rule stamped_known [OF assms(3)])
  show ?thesis
    by (simp add: serves_fetch [OF assms(2) live_addresses [OF assms(1)]] enrich_lb [OF b] k logs_between_events)
qed

lemma known_true_nil: "known_true header []"
  by (simp add: known_true_def bt_inv_def)

section \<open>The latest-block source\<close>

definition latest_ready ::
    "rpc \<Rightarrow> (u64 \<Rightarrow> chain_log list) \<Rightarrow> topic list \<Rightarrow> u64 \<Rightarrow> u64 \<Rightarrow> latest_source \<Rightarrow> bool" where
  "latest_ready rpc chain topics max_blocks cursor s \<longleftrightarrow>
     serves rpc chain \<and> mined_chain chain \<and> ls_topics s = topics \<and> ls_max_blocks_per_batch s = max_blocks \<and>
     0 < max_blocks \<and> known_true (rpc_header rpc) (ls_known_block_times s) \<and>
     cursor \<noteq> - 1 \<and> chained cursor (ls_batches s) \<and> (\<forall>(a, b, single) \<in> set (ls_batches s). b \<noteq> - 1)"

definition latest_poll_ok :: "rpc \<Rightarrow> u64 \<Rightarrow> u64 \<times> u64 \<Rightarrow> bool" where
  "latest_poll_ok rpc max_blocks poll \<longleftrightarrow>
     uint (fst poll) + uint max_blocks < 2 ^ 64 \<and> fetched_time (rpc_header rpc) (fst poll) = Some (snd poll)"

lemma not_max: "uint c + 1 \<le> uint d \<Longrightarrow> uint (c + 1) = uint c + 1" for c d :: u64
  using uint_less [of d] by (subst uint_add_exact) auto

lemma latest_yield_ready:
  assumes "live r" and "latest_ready rpc chain topics max_blocks (reg_last_processed_block r) s"
    and "ls_batches s = (a, b, single) # bs"
  shows "latest_turn rpc poll r s = Some (s\<lparr>ls_batches := bs\<rparr>,
      Some \<lparr>eb_events = logs_between (chain_events rpc chain topics r) [uint (reg_last_processed_block r) + 1..uint b],
        eb_mode = (if single then ConfirmedWithSwaps else ApplyOnly), eb_processed_through_block = Some b\<rparr>) \<and>
    reg_last_processed_block r < b \<and> latest_ready rpc chain topics max_blocks b (s\<lparr>ls_batches := bs\<rparr>)"
proof -
  have k: "serves rpc chain" "known_true (rpc_header rpc) (ls_known_block_times s)" "ls_topics s = topics"
    and c: "uint a = uint (reg_last_processed_block r) + 1" "a \<le> b"
    using assms(2,3) by (auto simp: latest_ready_def)
  obtain events where e: "fetch_events_with_retry rpc (get_all_addresses r) topics (Number a) (Number b) = Some events"
      "enrich_if_lb_pools_present (rpc_header rpc) r events (ls_known_block_times s) =
        logs_between (chain_events rpc chain topics r) [uint a..uint b]"
    using fetched_events [OF assms(1) k(1,2), of topics a b] by auto
  have "reg_last_processed_block r < b" using c by (simp add: word_less_def word_le_def)
  then show ?thesis
    using e k(3) c assms(2,3) by (auto simp: latest_turn_def latest_yield_def latest_ready_def)
qed

lemma latest_wait_ready:
  assumes "latest_ready rpc chain topics max_blocks (reg_last_processed_block r) s"
    and "latest_poll_ok rpc max_blocks poll" and "ls_batches s = []"
  shows "\<exists>s'. latest_turn rpc poll r s = Some (s', None) \<and>
    latest_ready rpc chain topics max_blocks (reg_last_processed_block r) s'"
proof -
  obtain h t where p: "poll = (h, t)" by fastforce
  let ?c = "reg_last_processed_block r"
  let ?k = "remember_block_time h t (ls_known_block_times s)"
  have k: "known_true (rpc_header rpc) ?k"
    by (rule remember_true) (use assms(1,2) p in \<open>auto simp: latest_ready_def latest_poll_ok_def\<close>)
  have c: "?c \<noteq> - 1" using assms(1) by (simp add: latest_ready_def)
  then have "uint ?c < 2 ^ 64 - 1"
    using uint_less [of ?c] uint_max [where 'n = 64] by (simp add: word_eq_uint)
  then have n: "uint (?c + 1) = uint ?c + 1" by (subst uint_add_exact) simp_all
  have m: "0 < max_blocks" "ls_max_blocks_per_batch s = max_blocks" using assms(1) by (simp_all add: latest_ready_def)
  have h: "uint h + uint max_blocks < 2 ^ 64" using assms(2) p by (simp add: latest_poll_ok_def)
  show ?thesis
  proof (cases "h < ?c + 1")
    case True
    then show ?thesis using assms(1,3) k p by (simp add: latest_turn_def latest_poll_def Let_def latest_ready_def)
  next
    case False
    obtain bs where bs: "latest_batches max_blocks h (?c + 1) = Some bs" "chained ?c bs"
        "\<forall>(a, b, single) \<in> set bs. a \<le> b \<and> uint b - uint a < uint max_blocks \<and> single = (a = h \<and> b = h)"
        "blocks_of (map (\<lambda>(a, b, _). (a, b)) bs) = [uint (?c + 1)..uint h]"
      using latest_batches_tile [OF m(1) h n] by blast
    have "b \<noteq> - 1" if "(a, b, single) \<in> set bs" for a b single
    proof
      assume b: "b = - 1"
      have "a \<le> b" using bs(3) that by auto
      then have "uint b \<in> set (blocks_of (map (\<lambda>(a, b, _). (a, b)) bs))" using that by (force simp: word_le_def)
      then have "uint b \<le> uint h" unfolding bs(4) by simp
      then show False using b h m(1) uint_max [where 'n = 64] by (simp add: word_less_def)
    qed
    then show ?thesis
      using False assms(1,3) k p bs(1,2) m(2)
      by (auto simp: latest_turn_def latest_poll_def Let_def latest_ready_def)
  qed
qed

interpretation latest: block_source "latest_turn rpc" "latest_ready rpc chain topics max_blocks"
  "latest_poll_ok rpc max_blocks" "chain_events rpc chain topics" for rpc chain topics max_blocks
proof
  fix r s s' and p :: "u64 \<times> u64"
  assume a: "live r" "latest_ready rpc chain topics max_blocks (reg_last_processed_block r) s" "latest_poll_ok rpc max_blocks p"
  show "latest_turn rpc p r s \<noteq> None"
    using latest_yield_ready [OF a(1,2), where poll = p] latest_wait_ready [OF a(2,3)] by (cases "ls_batches s") auto
  show "latest_ready rpc chain topics max_blocks (reg_last_processed_block r) s'" if "latest_turn rpc p r s = Some (s', None)"
    using that latest_yield_ready [OF a(1,2), where poll = p] latest_wait_ready [OF a(2,3)] by (cases "ls_batches s") auto
  fix b
  assume t: "latest_turn rpc p r s = Some (s', Some b)"
  then obtain x y z bs where l: "ls_batches s = (x, y, z) # bs"
    using latest_wait_ready [OF a(2,3)] by (cases "ls_batches s") auto
  note y = latest_yield_ready [OF a(1,2) l, of p]
  show "mined l" if "l \<in> set (eb_events b)" for l
  proof (rule events_mined)
    show "mined_chain chain" using a(2) by (simp add: latest_ready_def)
    show "l \<in> set (logs_between (chain_events rpc chain topics r) [uint (reg_last_processed_block r) + 1..uint y])"
      using that y t by auto
  qed
  show "eb_mode b = PendingMode \<and> latest_ready rpc chain topics max_blocks (reg_last_processed_block r) s'"
    if "eb_processed_through_block b = None"
    using that y t by auto
  show "eb_mode b \<noteq> PendingMode \<and> reg_last_processed_block r < n \<and> latest_ready rpc chain topics max_blocks n s' \<and>
      eb_events b = logs_between (chain_events rpc chain topics r) [uint (reg_last_processed_block r) + 1..uint n]"
    if "eb_processed_through_block b = Some n" for n
    using that y t by auto
qed (rule chain_events_static)

section \<open>The pending-block source\<close>

definition serves_pending :: "rpc \<Rightarrow> bool" where
  "serves_pending rpc \<longleftrightarrow> (\<forall>as ts. as \<noteq> [] \<longrightarrow>
     (\<exists>ls. answers (fetch_events rpc as ts PendingTag PendingTag) ls \<and> (\<forall>l \<in> set ls. mined l)))"

definition phase_ready :: "u64 \<Rightarrow> u64 \<Rightarrow> pending_phase \<Rightarrow> bool" where
  "phase_ready max_blocks cursor phase =
     (case phase of
        ConfirmedBatches current latest \<Rightarrow>
          uint current = uint cursor + 1 \<and> current \<le> latest \<and> uint latest + uint max_blocks < 2 ^ 64
      | _ \<Rightarrow> True)"

definition pending_ready ::
    "rpc \<Rightarrow> (u64 \<Rightarrow> chain_log list) \<Rightarrow> topic list \<Rightarrow> u64 \<Rightarrow> u64 \<Rightarrow> pending_source \<Rightarrow> bool" where
  "pending_ready rpc chain topics max_blocks cursor s \<longleftrightarrow>
     serves rpc chain \<and> serves_pending rpc \<and> mined_chain chain \<and> ps_topics s = topics \<and>
     ps_max_blocks_per_batch s = max_blocks \<and> 0 < max_blocks \<and> cursor \<noteq> - 1 \<and> phase_ready max_blocks cursor (ps_phase s)"

definition pending_poll_ok :: "u64 \<Rightarrow> u64 \<Rightarrow> bool" where
  "pending_poll_ok max_blocks latest \<longleftrightarrow> uint latest + uint max_blocks < 2 ^ 64"

lemma pending_confirmed_ready:
  assumes "live r" and "pending_ready rpc chain topics max_blocks (reg_last_processed_block r) s"
    and "ps_phase s = ConfirmedBatches a h"
  shows "\<exists>s' b. pending_turn rpc poll r s = Some (s',
      Some \<lparr>eb_events = logs_between (chain_events rpc chain topics r) [uint (reg_last_processed_block r) + 1..uint b],
        eb_mode = ApplyOnly, eb_processed_through_block = Some b\<rparr>) \<and>
    reg_last_processed_block r < b \<and> pending_ready rpc chain topics max_blocks b s'"
proof -
  let ?c = "reg_last_processed_block r"
  have k: "serves rpc chain" "ps_topics s = topics" "ps_max_blocks_per_batch s = max_blocks" "0 < max_blocks"
    and a: "uint a = uint ?c + 1" "a \<le> h" "uint h + uint max_blocks < 2 ^ 64"
    using assms(2,3) by (auto simp: pending_ready_def phase_ready_def)
  define b where "b = min (a + max_blocks - 1) h"
  note l = latest_step [OF a(2) k(4) a(3), folded b_def]
  obtain events where e: "fetch_events_with_retry rpc (get_all_addresses r) topics (Number a) (Number b) = Some events"
      "enrich_if_lb_pools_present (rpc_header rpc) r events [] =
        logs_between (chain_events rpc chain topics r) [uint a..uint b]"
    using fetched_events [OF assms(1) k(1) known_true_nil, of topics a b] by auto
  let ?phase = "if b + 1 > h then FetchPending else ConfirmedBatches (b + 1) h"
  have "phase_ready max_blocks b ?phase" using l(3) a(3) by (simp add: phase_ready_def not_less)
  moreover have "b \<noteq> - 1"
  proof
    assume "b = - 1"
    then have "uint (b + 1) = 0" by simp
    then show False using l(3) uint_ge_0 [of b] by linarith
  qed
  moreover have "?c < b" using a l(1) by (simp add: word_less_def)
  ultimately show ?thesis
    using assms(2,3) e a(1) k by (auto simp: pending_turn_def confirmed_batch_def pending_ready_def Let_def simp flip: b_def)
qed

lemma pending_poll_ready:
  assumes "pending_ready rpc chain topics max_blocks (reg_last_processed_block r) s"
    and "pending_poll_ok max_blocks poll" and "ps_phase s = PollBlockNumber"
  shows "\<exists>s'. pending_turn rpc poll r s = Some (s', None) \<and>
    pending_ready rpc chain topics max_blocks (reg_last_processed_block r) s'"
proof -
  let ?c = "reg_last_processed_block r"
  have "?c \<noteq> - 1" using assms(1) by (simp add: pending_ready_def)
  then have "uint ?c < 2 ^ 64 - 1"
    using uint_less [of ?c] uint_max [where 'n = 64] by (simp add: word_eq_uint)
  then have "uint (?c + 1) = uint ?c + 1" by (subst uint_add_exact) simp_all
  then show ?thesis
    using assms by (auto simp: pending_turn_def poll_block_number_def pending_ready_def pending_poll_ok_def
        phase_ready_def Let_def)
qed

lemma pending_fetch_ready:
  assumes "live r" and "pending_ready rpc chain topics max_blocks (reg_last_processed_block r) s"
    and "ps_phase s = FetchPending"
  shows "\<exists>s' events. pending_turn rpc poll r s = Some (s',
      Some \<lparr>eb_events = events, eb_mode = PendingMode, eb_processed_through_block = None\<rparr>) \<and>
    (\<forall>l \<in> set events. mined l) \<and> pending_ready rpc chain topics max_blocks (reg_last_processed_block r) s'"
proof -
  have b: "bt_inv (reg_pools r)" "bt_inv ([] :: (u64, u64) btree)" using assms(1) by (simp_all add: live_def bt_inv_def)
  have "serves_pending rpc" using assms(2) by (simp add: pending_ready_def)
  then obtain ls where ls: "answers (fetch_events rpc (get_all_addresses r) topics PendingTag PendingTag) ls" "\<forall>l \<in> set ls. mined l"
    using live_addresses [OF assms(1)] unfolding serves_pending_def by blast
  have "fetch_events_with_retry rpc (get_all_addresses r) topics PendingTag PendingTag = Some ls"
    unfolding fetch_events_with_retry_def by (rule retry_answers [OF ls(1)])
  moreover have "\<forall>l \<in> set (enrich_if_lb_pools_present (rpc_header rpc) r ls []). mined l"
    using ls(2) by (simp add: enrich_lb [OF b] stamped_mined)
  ultimately show ?thesis
    using assms live_addresses [OF assms(1)]
    by (auto simp: pending_turn_def pending_batch_def pending_ready_def phase_ready_def Let_def)
qed

lemma pending_turn_ready:
  assumes "live r" and "pending_ready rpc chain topics max_blocks (reg_last_processed_block r) s"
    and "pending_poll_ok max_blocks poll"
  obtains (waits) s' where "pending_turn rpc poll r s = Some (s', None)"
      "pending_ready rpc chain topics max_blocks (reg_last_processed_block r) s'"
  | (confirmed) s' b where "pending_turn rpc poll r s = Some (s',
      Some \<lparr>eb_events = logs_between (chain_events rpc chain topics r) [uint (reg_last_processed_block r) + 1..uint b],
        eb_mode = ApplyOnly, eb_processed_through_block = Some b\<rparr>)"
      "reg_last_processed_block r < b" "pending_ready rpc chain topics max_blocks b s'"
  | (pending) s' events where "pending_turn rpc poll r s = Some (s',
      Some \<lparr>eb_events = events, eb_mode = PendingMode, eb_processed_through_block = None\<rparr>)"
      "\<forall>l \<in> set events. mined l" "pending_ready rpc chain topics max_blocks (reg_last_processed_block r) s'"
proof (cases "ps_phase s")
  case PollBlockNumber
  then show ?thesis using pending_poll_ready [OF assms(2,3)] waits by blast
next
  case (ConfirmedBatches a h)
  then show ?thesis using pending_confirmed_ready [OF assms(1,2)] confirmed by blast
next
  case FetchPending
  then show ?thesis using pending_fetch_ready [OF assms(1,2)] pending by blast
qed

interpretation pending: block_source "pending_turn rpc" "pending_ready rpc chain topics max_blocks"
  "pending_poll_ok max_blocks" "chain_events rpc chain topics" for rpc chain topics max_blocks
proof
  fix r s s' and p :: u64
  assume a: "live r" "pending_ready rpc chain topics max_blocks (reg_last_processed_block r) s" "pending_poll_ok max_blocks p"
  show "pending_turn rpc p r s \<noteq> None" by (rule pending_turn_ready [OF a]) simp_all
  show "pending_ready rpc chain topics max_blocks (reg_last_processed_block r) s'" if "pending_turn rpc p r s = Some (s', None)"
    by (rule pending_turn_ready [OF a]) (use that in simp_all)
  fix b
  assume t: "pending_turn rpc p r s = Some (s', Some b)"
  have c: "mined_chain chain" using a(2) by (simp add: pending_ready_def)
  show "mined l" if "l \<in> set (eb_events b)" for l
    by (rule pending_turn_ready [OF a]) (use that t events_mined [OF c] in auto)
  show "eb_mode b = PendingMode \<and> pending_ready rpc chain topics max_blocks (reg_last_processed_block r) s'"
    if "eb_processed_through_block b = None"
    by (rule pending_turn_ready [OF a]) (use that t in auto)
  show "eb_mode b \<noteq> PendingMode \<and> reg_last_processed_block r < n \<and> pending_ready rpc chain topics max_blocks n s' \<and>
      eb_events b = logs_between (chain_events rpc chain topics r) [uint (reg_last_processed_block r) + 1..uint n]"
    if "eb_processed_through_block b = Some n" for n
    by (rule pending_turn_ready [OF a]) (use that t in auto)
qed (rule chain_events_static)

section \<open>Properties\<close>



text \<open>A chain with one log in block 5, and a node that fails its first attempt at every call.\<close>

definition sample_chain :: "u64 \<Rightarrow> chain_log list" where
  "sample_chain n = (if n = 5 then [sample_log 1 5 0] else [])"

definition sample_rpc :: rpc where
  "sample_rpc =
     \<lparr>rpc_get_logs = (\<lambda>f k. if k = 1 then None else
        Some (Ok (case (lf_from f, lf_to f) of
          (Number a, Number b) \<Rightarrow> filter (watches (lf_addresses f) (lf_topics f)) (logs_between sample_chain [uint a..uint b])
        | _ \<Rightarrow> []))),
      rpc_header = (\<lambda>n k. Ok (Some (1700000000 + n)))\<rparr>"

definition sample_env :: updater_env where
  "sample_env = \<lparr>ue_processor = sample_processor, ue_iteration = rev, ue_plugin_config = 100, ue_plugin = 101\<rparr>"

lemma sample_answers:
  "fetch_events sample_rpc as ts x y 1 = None" "fetch_events sample_rpc as ts x y 2 = Some (Ok v) \<Longrightarrow>
   answers (fetch_events sample_rpc as ts x y) v"
  by (auto simp: fetch_events_def sample_rpc_def answers_def failed_def numeral_2_eq_2 intro!: exI [of _ 1])

lemma sample_serves: "serves sample_rpc sample_chain" "serves_pending sample_rpc" "mined_chain sample_chain"
proof -
  show "serves sample_rpc sample_chain"
    unfolding serves_def by (intro allI impI sample_answers(2)) (simp add: fetch_events_def sample_rpc_def)
  have "answers (fetch_events sample_rpc as ts PendingTag PendingTag) []" for as ts
    by (rule sample_answers(2)) (simp add: fetch_events_def sample_rpc_def)
  then show "serves_pending sample_rpc" unfolding serves_pending_def by fastforce
  show "mined_chain sample_chain" by (simp add: mined_chain_def sample_chain_def mined_def sample_log_def)
qed

lemma sample_registry_live: "live sample_registry"
  using sample_registry_inv by (auto simp: live_def sample_registry_def registry_simps registry_new_def)

lemma sample_registry_cursor: "reg_last_processed_block (init_cursor 3 sample_registry) = 3"
  by (simp add: init_cursor_def sample_registry_def add_topics_def add_pool_def registry_new_def
      set_last_processed_block_def add_dynamic_fee_address_def Let_def)



end
