(* ===== verification/Feed_Rounds.thy ===== *)
theory Feed_Rounds
  imports Websocket Polling
begin

text \<open>
  What the event queue holds, between two drains, of a chain that a single feed follows: the logs received,
  in chain order, and gaps that cover exactly the logs lost in between. The websocket source relies on
  it when it fills the gaps.
\<close>

declare split_paired_All [simp del] split_paired_Ex [simp del]

section \<open>The chain\<close>

text \<open>
  Blocks of mined logs in chain order, no two logs with the same transaction hash and log index. The genesis
  block has none.
\<close>

definition ordered_chain :: "(u64 \<Rightarrow> chain_log list) \<Rightarrow> bool" where
  "ordered_chain chain \<longleftrightarrow> chain 0 = [] \<and>
     (\<forall>n. \<forall>l \<in> set (chain n). mined l \<and> \<not> log_removed l \<and> log_block_number l = Some n \<and> log_transaction_index l \<noteq> None) \<and>
     (\<forall>n. sorted_wrt (\<lambda>l l'. position_key l < position_key l') (chain n)) \<and>
     (\<forall>n m. \<forall>l \<in> set (chain n). \<forall>l' \<in> set (chain m). key_of l = key_of l' \<longrightarrow> l = l')"

definition watched :: "(u64 \<Rightarrow> chain_log list) \<Rightarrow> address list \<Rightarrow> topic list \<Rightarrow> chain_log set" where
  "watched chain as ts = {l. watches as ts l \<and> (\<exists>n. l \<in> set (chain n))}"

lemma chain_log:
  assumes "ordered_chain chain" and "l \<in> set (chain n)"
  shows "mined l" and "\<not> log_removed l" and "position_of l = Some (position_key l)" and "fst (position_key l) = n" and "0 < n"
proof -
  have c: "chain 0 = []" "mined l" "\<not> log_removed l" "log_block_number l = Some n" "log_transaction_index l \<noteq> None"
    using assms by (simp_all add: ordered_chain_def)
  then show "mined l" and "\<not> log_removed l" by simp_all
  show "position_of l = Some (position_key l)" and "fst (position_key l) = n"
    using c by (auto simp: position_of_def position_key_def mined_def)
  show "0 < n" using c(1) assms(2) by (cases "n = 0") (auto simp: word_gt_0)
qed

lemma watched_log:
  assumes "ordered_chain chain" and "l \<in> watched chain as ts"
  shows "mined l" and "\<not> log_removed l" and "position_of l = Some (position_key l)" and "keyed l" and "watches as ts l"
    and "l \<in> set (chain (fst (position_key l)))"
proof -
  obtain n where n: "l \<in> set (chain n)" and w: "watches as ts l" using assms(2) by (auto simp: watched_def)
  note c = chain_log [OF assms(1) n]
  show "mined l" and "\<not> log_removed l" and "position_of l = Some (position_key l)" by (rule c)+
  show "keyed l" using c(1) by (simp add: keyed_def mined_def)
  show "watches as ts l" by (rule w)
  show "l \<in> set (chain (fst (position_key l)))" using c(4) n by simp
qed

lemma sorted_wrt_apart:
  fixes f :: "'a \<Rightarrow> 'b::linorder"
  assumes "sorted_wrt (\<lambda>x y. f x < f y) xs" and "x \<in> set xs" and "y \<in> set xs" and "f x = f y"
  shows "x = y"
proof -
  have "distinct (map f xs)" using assms(1) strict_sorted_iff [of "map f xs"] by (simp add: sorted_wrt_map)
  then show ?thesis using assms(2-4) by (auto simp: distinct_map inj_on_def)
qed

lemma sorted_wrt_unique:
  fixes f :: "'a \<Rightarrow> 'b::linorder"
  assumes "sorted_wrt (\<lambda>x y. f x < f y) xs" and "sorted_wrt (\<lambda>x y. f x < f y) ys" and "set xs = set ys"
  shows "xs = ys"
proof -
  have "sorted_wrt (<) (map f xs)" "sorted_wrt (<) (map f ys)" using assms(1,2) by (simp_all add: sorted_wrt_map)
  moreover have "set (map f xs) = set (map f ys)" using assms(3) by simp
  ultimately have "map f xs = map f ys" by (intro strict_sorted_equal) simp_all
  moreover have "inj_on f (set xs \<union> set ys)"
    using sorted_wrt_apart [OF assms(1)] assms(3) by (auto simp: inj_on_def)
  ultimately show ?thesis by (rule map_inj_on)
qed

lemma watched_apart:
  assumes "ordered_chain chain" and "l \<in> watched chain as ts" and "l' \<in> watched chain as ts"
  shows "position_key l = position_key l' \<Longrightarrow> l = l'" and "key_of l = key_of l' \<Longrightarrow> l = l'"
proof -
  note w = watched_log(6) [OF assms(1,2)] watched_log(6) [OF assms(1,3)]
  show "l = l'" if "position_key l = position_key l'"
  proof (rule sorted_wrt_apart)
    show "sorted_wrt (\<lambda>l l'. position_key l < position_key l') (chain (fst (position_key l)))"
      using assms(1) by (simp add: ordered_chain_def)
    show "l \<in> set (chain (fst (position_key l)))" by (rule w(1))
    show "l' \<in> set (chain (fst (position_key l)))" using w(2) that by simp
  qed (rule that)
  show "key_of l = key_of l' \<Longrightarrow> l = l'" using assms(1) w by (simp add: ordered_chain_def)
qed

text \<open>The watched logs of a range of blocks, in chain order.\<close>

abbreviation watched_between :: "(u64 \<Rightarrow> chain_log list) \<Rightarrow> address list \<Rightarrow> topic list \<Rightarrow> int list \<Rightarrow> chain_log list" where
  "watched_between chain as ts ns \<equiv> filter (watches as ts) (logs_between chain ns)"

lemma watched_between_set:
  assumes "ordered_chain chain" and "\<forall>n \<in> set ns. 0 \<le> n \<and> n < 2 ^ 64"
  shows "l \<in> set (watched_between chain as ts ns) \<longleftrightarrow> l \<in> watched chain as ts \<and> uint (fst (position_key l)) \<in> set ns"
proof -
  have b: "uint (fst (position_key l)) = n" if "n \<in> set ns" "l \<in> set (chain (word_of_int n))" for n
    using chain_log(4) [OF assms(1) that(2)] assms(2) that(1) by (simp add: uint_word_of_int)
  have "(\<exists>n \<in> set ns. l \<in> set (chain (word_of_int n))) \<longleftrightarrow> (\<exists>m. l \<in> set (chain m)) \<and> uint (fst (position_key l)) \<in> set ns"
    (is "?L = ?R")
  proof
    assume ?L
    then obtain n where "n \<in> set ns" "l \<in> set (chain (word_of_int n))" by blast
    then show ?R using b by blast
  next
    assume ?R
    then obtain m where m: "l \<in> set (chain m)" "uint (fst (position_key l)) \<in> set ns" by blast
    then have "word_of_int (uint (fst (position_key l))) = m" using chain_log(4) [OF assms(1) m(1)] by simp
    then show ?L using m by (intro bexI [of _ "uint (fst (position_key l))"]) simp_all
  qed
  then show ?thesis by (simp add: watched_def logs_between_def conj_commute conj_left_commute)
qed

lemma watched_between_sorted:
  assumes "ordered_chain chain" and "sorted_wrt (<) ns" and "\<forall>n \<in> set ns. 0 \<le> n \<and> n < 2 ^ 64"
  shows "sorted_wrt (\<lambda>l l'. position_key l < position_key l') (watched_between chain as ts ns)"
proof (rule sorted_wrt_filter)
  show "sorted_wrt (\<lambda>l l'. position_key l < position_key l') (logs_between chain ns)"
    using assms(2,3)
  proof (induction ns)
    case (Cons n ns)
    have "position_key l < position_key l'" if "l \<in> set (chain (word_of_int n))" "l' \<in> set (logs_between chain ns)" for l l'
    proof -
      from that(2) obtain m where m: "m \<in> set ns" "l' \<in> set (chain (word_of_int m))" by (auto simp: logs_between_def)
      have "fst (position_key l) = word_of_int n" "fst (position_key l') = word_of_int m"
        using chain_log(4) [OF assms(1)] that(1) m(2) by blast+
      moreover have "(word_of_int n :: u64) < word_of_int m"
        using Cons.prems m(1) by (simp add: word_less_def uint_word_of_int)
      ultimately show ?thesis by (cases "position_key l"; cases "position_key l'") simp
    qed
    then show ?case
      using Cons assms(1) by (auto simp: sorted_wrt_append ordered_chain_def)
  qed simp
qed

section \<open>Histories that follow the chain\<close>

text \<open>
  The feed meets the watched logs one after the other, received or lost, from wherever it starts; a loss is
  announced before the next log is received; headers carry the times the node gives.
\<close>

definition next_log :: "chain_log set \<Rightarrow> log_position option \<Rightarrow> chain_log \<Rightarrow> bool" where
  "next_log W p l \<longleftrightarrow> l \<in> W \<and> beyond p (position_key l) \<and>
     (p = None \<or> (\<forall>e \<in> W. beyond p (position_key e) \<longrightarrow> position_key l \<le> position_key e))"

fun follows :: "header_rpc \<Rightarrow> chain_log set \<Rightarrow> log_position option \<Rightarrow> bool \<Rightarrow> feed_history list \<Rightarrow> bool" where
  "follows header W p missing [] = True"
| "follows header W p missing (Lost l # h) = (next_log W p l \<and> follows header W (Some (position_key l)) True h)"
| "follows header W p missing (Received (LogReceived l) # h) =
     (next_log W p l \<and> \<not> missing \<and> follows header W (Some (position_key l)) False h)"
| "follows header W p missing (Received Subscribed # h) = follows header W p False h"
| "follows header W p missing (Received LogsLagged # h) = follows header W p False h"
| "follows header W p missing (Received (HeaderReceived n t) # h) =
     (fetched_time header n = Some t \<and> follows header W p missing h)"
| "follows header W p missing (Received HeadersLagged # h) = follows header W p missing h"

text \<open>Where a history leaves the feed.\<close>

fun history_end :: "log_position option \<Rightarrow> bool \<Rightarrow> feed_history list \<Rightarrow> log_position option \<times> bool" where
  "history_end p missing [] = (p, missing)"
| "history_end p missing (Lost l # h) = history_end (Some (position_key l)) True h"
| "history_end p missing (Received (LogReceived l) # h) = history_end (Some (position_key l)) False h"
| "history_end p missing (Received Subscribed # h) = history_end p False h"
| "history_end p missing (Received LogsLagged # h) = history_end p False h"
| "history_end p missing (Received (HeaderReceived n t) # h) = history_end p missing h"
| "history_end p missing (Received HeadersLagged # h) = history_end p missing h"

lemma follows_append:
  "follows header W p missing (h @ h') \<longleftrightarrow> follows header W p missing h \<and>
     (case history_end p missing h of (p, missing) \<Rightarrow> follows header W p missing h')"
  by (induction header W p missing h rule: follows.induct) auto

section \<open>The queue between two drains\<close>

definition inside :: "gap \<Rightarrow> log_position \<Rightarrow> bool" where
  "inside g p \<longleftrightarrow> beyond (gap_after g) p \<and> p < gap_before g"

lemma covers_inside: "covers gs p \<longleftrightarrow> (\<exists>g \<in> set gs. inside g p)"
  by (simp add: covers_def inside_def)

definition apart :: "gap \<Rightarrow> gap \<Rightarrow> bool" where
  "apart g g' \<longleftrightarrow> (\<forall>p. \<not> (inside g p \<and> inside g' p))"

text \<open>
  The gaps of a queue of logs received after position \<open>a\<close>: each ends at one of them, none holds one of them
  or anything up to \<open>a\<close>, and they do not overlap. What lies after \<open>a\<close> and not after the last log received
  is among the logs or in a gap.
\<close>

definition gaps_fit :: "log_position option \<Rightarrow> chain_log list \<Rightarrow> gap list \<Rightarrow> bool" where
  "gaps_fit a ls gs \<longleftrightarrow> sorted_wrt apart gs \<and>
     (\<forall>g \<in> set gs. gap_before g \<in> position_key ` set ls \<and> (\<forall>p. inside g p \<longrightarrow> beyond a p \<and> p \<notin> position_key ` set ls))"

definition logs_fit :: "chain_log set \<Rightarrow> log_position option \<Rightarrow> log_position option \<Rightarrow> chain_log list \<Rightarrow> gap list \<Rightarrow> bool" where
  "logs_fit W a b ls gs \<longleftrightarrow> set ls \<subseteq> W \<and> sorted_wrt (\<lambda>l l'. position_key l < position_key l') ls \<and>
     (\<forall>l \<in> set ls. beyond a (position_key l) \<and> \<not> beyond b (position_key l)) \<and>
     (\<forall>e \<in> W. beyond a (position_key e) \<and> \<not> beyond b (position_key e) \<longrightarrow> e \<in> set ls \<or> covers gs (position_key e))"

definition unseen :: "chain_log set \<Rightarrow> log_position option \<Rightarrow> gap list \<Rightarrow> event_key list \<Rightarrow> bool" where
  "unseen W b gs ks \<longleftrightarrow> (\<forall>e \<in> W. key_of e \<in> set ks \<longrightarrow> \<not> beyond b (position_key e) \<and> \<not> covers gs (position_key e))"

definition queue_ok :: "header_rpc \<Rightarrow> event_queue \<Rightarrow> event_key list \<Rightarrow> bool" where
  "queue_ok header q ks \<longleftrightarrow> queue_inv q ks \<and> q_open q \<and> known_true header (q_block_times q)"

text \<open>The feed at position \<open>p\<close> of the chain, having received up to \<open>b\<close>.\<close>

definition feed_at :: "log_position option \<Rightarrow> bool \<Rightarrow> feed_progress \<Rightarrow> bool" where
  "feed_at p missing f \<longleftrightarrow> (\<forall>x. beyond p x \<longrightarrow> beyond (fp_last_forwarded f) x) \<and>
     (p \<noteq> None \<and> p = fp_last_forwarded f \<or> missing \<or> fp_gap_open f)"

definition pending_round ::
    "header_rpc \<Rightarrow> chain_log set \<Rightarrow> log_position option \<Rightarrow> log_position option \<Rightarrow> bool \<Rightarrow> event_key list \<Rightarrow>
     feed_progress \<Rightarrow> event_queue \<Rightarrow> bool" where
  "pending_round header W a p missing ks f q \<longleftrightarrow> queue_ok header q ks \<and> feed_at p missing f \<and>
     gaps_fit a (q_channel q) (q_gaps q) \<and> logs_fit W a (fp_last_forwarded f) (q_channel q) (q_gaps q) \<and>
     unseen W (fp_last_forwarded f) (q_gaps q) ks \<and>
     (\<forall>x. beyond (fp_last_forwarded f) x \<longrightarrow> beyond a x)"

lemma beyond_Some [simp]: "beyond (Some x) y \<longleftrightarrow> x < y" "beyond None y"
  by (simp_all add: beyond_def)

section \<open>One event\<close>

lemma record_time_ok:
  assumes "queue_ok header q ks" and "fetched_time header n = Some t"
  shows "queue_ok header (record_block_time n t q) ks" and "q_channel (record_block_time n t q) = q_channel q"
proof -
  have k: "known_true header (bt_insert n t (q_block_times q))"
    using assms by (auto simp: queue_ok_def known_true_def bt_simps)
  have d: "bt_inv m \<Longrightarrow> bt_inv (dropWhile P m) \<and> (bt_get (dropWhile P m) j = Some v \<longrightarrow> bt_get m j = Some v)" for m :: "(u64, u64) btree" and P j v
  proof (induction m)
    case (Cons e m)
    obtain i w where e: "e = (i, w)" by fastforce
    have i: "bt_inv m" "\<forall>k \<in> fst ` set m. i < k" using Cons.prems e by (simp_all add: bt_inv_Cons)
    have "bt_get m i = None" by (rule bt_get_below) (use i(2) in force)
    then show ?case using Cons.IH [OF i(1)] Cons.prems by (auto simp: e split: if_splits)
  qed simp
  have "known_true header (dropWhile P (bt_insert n t (q_block_times q)))" for P
    using k d unfolding known_true_def by blast
  then have "queue_ok header (q\<lparr>q_block_times := dropWhile P (bt_insert n t (q_block_times q))\<rparr>) ks" for P
    using assms(1) by (simp add: queue_ok_def queue_inv_def)
  then show "queue_ok header (record_block_time n t q) ks"
    using assms(1) by (simp add: record_block_time_def Let_def split: option.split)
  show "q_channel (record_block_time n t q) = q_channel q"
    by (simp add: record_block_time_def Let_def split: option.split)
qed

lemma record_event_times: "q_block_times (fst (record_event l q)) = q_block_times q" "q_gaps (fst (record_event l q)) = q_gaps q"
  by (auto simp: record_event_def prune_oldest_def Let_def split: option.splits list.splits)

lemma send_fresh:
  assumes "queue_ok header q ks" and "keyed l" and "key_of l \<notin> set ks"
  shows "queue_ok header (fst (send l q)) (ks @ [key_of l])" and "q_channel (fst (send l q)) = q_channel q @ [l]"
proof -
  have w: "key_of l \<notin> set (window (q_max_events q) ks)"
    using assms(3) by (auto simp: window_def dest: in_set_dropD)
  obtain q' where q': "record_event l q = (q', Ok True)" "queue_inv q' (ks @ [key_of l])"
    "q_channel q' = q_channel q" "q_open q' = q_open q"
    using record_fresh [OF _ assms(2) w] assms(1) unfolding queue_ok_def by blast
  have "q_block_times q' = q_block_times q" using record_event_times(1) [of l q] q'(1) by simp
  then show "queue_ok header (fst (send l q)) (ks @ [key_of l])" and "q_channel (fst (send l q)) = q_channel q @ [l]"
    using q' assms(1) by (simp_all add: send_def queue_ok_def queue_inv_def)
qed

lemma note_gap_ok: "queue_ok header (note_gap g q) ks = queue_ok header q ks"
  by (simp add: queue_ok_def note_gap_def queue_inv_def)

lemma beyond_less: "\<not> beyond b y \<Longrightarrow> beyond b x \<Longrightarrow> y < x" for x y :: "'a::linorder"
  by (cases b) auto

lemma beyond_trans: "beyond b x \<Longrightarrow> x < y \<Longrightarrow> beyond b y" for x y :: "'a::linorder"
  by (cases b) auto

text \<open>A log at \<open>x\<close> received after \<open>b\<close>; with the gap open, everything between is noted as a gap.\<close>

definition closing :: "bool \<Rightarrow> log_position option \<Rightarrow> log_position \<Rightarrow> gap list" where
  "closing gap_open b x = (if gap_open then [\<lparr>gap_after = b, gap_before = x\<rparr>] else [])"

lemma inside_closing: "g \<in> set (closing gap_open b x) \<Longrightarrow> inside g y \<longleftrightarrow> beyond b y \<and> y < x"
  by (auto simp: closing_def inside_def split: if_splits)

lemma inside_old:
  assumes "gaps_fit a ls gs" and "\<forall>l \<in> set ls. \<not> beyond b (position_key l)" and "g \<in> set gs" and "inside g y"
  shows "\<not> beyond b y"
proof -
  obtain l where "l \<in> set ls" "gap_before g = position_key l" using assms(1,3) by (auto simp: gaps_fit_def)
  then have "y < position_key l" "\<not> beyond b (position_key l)" using assms(2,4) by (auto simp: inside_def)
  then show ?thesis using beyond_trans by blast
qed

lemma gaps_fit_received:
  assumes "gaps_fit a ls gs" and "\<forall>l \<in> set ls. \<not> beyond b (position_key l)"
    and "\<And>x. beyond b x \<Longrightarrow> beyond a x" and "beyond b (position_key l)"
  shows "gaps_fit a (ls @ [l]) (gs @ closing gap_open b (position_key l))"
proof -
  note old = inside_old [OF assms(1,2)]
  have s: "sorted_wrt apart (gs @ closing gap_open b (position_key l))"
    using assms(1) old inside_closing
    by (auto simp: gaps_fit_def sorted_wrt_append apart_def closing_def inside_def)
  have o: "gap_before g \<in> position_key ` set ls \<and> (\<forall>p. inside g p \<longrightarrow> beyond a p \<and> p \<notin> position_key ` set ls)" if "g \<in> set gs" for g
    using assms(1) that unfolding gaps_fit_def by blast
  have i: "p \<notin> position_key ` set (ls @ [l])" if "g \<in> set gs" "inside g p" for g p
    using old [OF that] assms(4) o [OF that(1)] that(2) by auto
  have n: "gap_before g = position_key l" if "g \<in> set (closing gap_open b (position_key l))" for g
    using that by (auto simp: closing_def split: if_splits)
  have m: "beyond a p \<and> p \<notin> position_key ` set (ls @ [l])" if "g \<in> set (closing gap_open b (position_key l))" "inside g p" for g p
    using that(2) assms(2,3) unfolding inside_closing [OF that(1)] by auto
  have "gap_before g \<in> position_key ` set (ls @ [l]) \<and> (\<forall>p. inside g p \<longrightarrow> beyond a p \<and> p \<notin> position_key ` set (ls @ [l]))"
    if g: "g \<in> set (gs @ closing gap_open b (position_key l))" for g
  proof (cases "g \<in> set gs")
    case True
    then show ?thesis using o [OF True] i [OF True] by auto
  next
    case False
    then have "g \<in> set (closing gap_open b (position_key l))" using g by simp
    then show ?thesis using n m by auto
  qed
  then show ?thesis unfolding gaps_fit_def using s by blast
qed

lemma logs_fit_received:
  assumes f: "logs_fit (watched chain as ts) a b ls gs" and c: "ordered_chain chain" and l: "l \<in> watched chain as ts"
    and b: "beyond b (position_key l)" "\<And>x. beyond b x \<Longrightarrow> beyond a x"
    and n: "gap_open \<or> (\<forall>e \<in> watched chain as ts. beyond b (position_key e) \<longrightarrow> position_key l \<le> position_key e)"
  shows "logs_fit (watched chain as ts) a (Some (position_key l)) (ls @ [l]) (gs @ closing gap_open b (position_key l))"
proof -
  let ?W = "watched chain as ts"
  have o: "set ls \<subseteq> ?W" "sorted_wrt (\<lambda>l l'. position_key l < position_key l') ls"
    "\<And>l. l \<in> set ls \<Longrightarrow> beyond a (position_key l) \<and> \<not> beyond b (position_key l)"
    "\<And>e. e \<in> ?W \<Longrightarrow> beyond a (position_key e) \<Longrightarrow> \<not> beyond b (position_key e) \<Longrightarrow> e \<in> set ls \<or> covers gs (position_key e)"
    using f unfolding logs_fit_def by blast+
  have s: "position_key k < position_key l" if "k \<in> set ls" for k using o(3) [OF that] beyond_less [OF _ b(1)] by blast
  have v: "e \<in> set (ls @ [l]) \<or> covers (gs @ closing gap_open b (position_key l)) (position_key e)"
    if e: "e \<in> ?W" "beyond a (position_key e)" "position_key e \<le> position_key l" for e
  proof (cases "beyond b (position_key e)")
    case False
    then show ?thesis using o(4) [OF e(1,2)] by (auto simp: covers_inside)
  next
    case True
    show ?thesis
    proof (cases "position_key e = position_key l")
      case True
      then show ?thesis using watched_apart(1) [OF c e(1) l] by simp
    next
      case False
      then have "position_key e < position_key l" using e(3) by simp
      moreover have gap_open using n e(1) True calculation by (auto simp: not_le [symmetric])
      ultimately show ?thesis using True by (simp add: covers_inside closing_def inside_def)
    qed
  qed
  show ?thesis
    unfolding logs_fit_def using o(1-3) l s b v by (auto simp: sorted_wrt_append not_less intro: less_imp_le)
qed

lemma unseen_received:
  assumes u: "unseen (watched chain as ts) b gs ks" and c: "ordered_chain chain" and l: "l \<in> watched chain as ts"
    and g: "gaps_fit a (ls @ [l]) (gs @ closing gap_open b (position_key l))" and b: "beyond b (position_key l)"
  shows "unseen (watched chain as ts) (Some (position_key l)) (gs @ closing gap_open b (position_key l)) (ks @ [key_of l])"
proof -
  have "\<not> position_key l < position_key e \<and> \<not> covers (gs @ closing gap_open b (position_key l)) (position_key e)"
    if e: "e \<in> watched chain as ts" "key_of e \<in> set (ks @ [key_of l])" for e
  proof (cases "key_of e = key_of l")
    case True
    then have "e = l" by (rule watched_apart(2) [OF c e(1) l])
    then show ?thesis using g by (auto simp: gaps_fit_def covers_inside)
  next
    case False
    then have "\<not> beyond b (position_key e)" "\<not> covers gs (position_key e)" using u e by (simp_all add: unseen_def)
    then show ?thesis using beyond_less [OF _ b, of "position_key e"]
      by (auto simp: covers_inside inside_closing dest: less_imp_not_less)
  qed
  then show ?thesis by (simp add: unseen_def)
qed

lemma received_step:
  assumes r: "pending_round header (watched chain as ts) a p False ks f q" and c: "ordered_chain chain"
    and n: "next_log (watched chain as ts) p l"
  obtains f' q' where "feed_step (LogReceived l) (f, q) = (f', q')" and "q_channel q' = q_channel q @ [l]"
    and "pending_round header (watched chain as ts) a (Some (position_key l)) False (ks @ [key_of l]) f' q'"
proof -
  let ?W = "watched chain as ts" and ?b = "fp_last_forwarded f" and ?x = "position_key l"
  have l: "l \<in> ?W" "beyond p ?x" using n by (simp_all add: next_log_def)
  note w = watched_log [OF c l(1)]
  have q: "queue_ok header q ks" and fa: "feed_at p False f" and gf: "gaps_fit a (q_channel q) (q_gaps q)"
    and lf: "logs_fit ?W a ?b (q_channel q) (q_gaps q)" and us: "unseen ?W ?b (q_gaps q) ks"
    and ba: "\<And>x. beyond ?b x \<Longrightarrow> beyond a x"
    using r unfolding pending_round_def by blast+
  have b: "beyond ?b ?x" using fa l(2) unfolding feed_at_def by blast
  have no: "\<forall>l \<in> set (q_channel q). \<not> beyond ?b (position_key l)" using lf unfolding logs_fit_def by blast
  have lp: "later_position ?b ?x = ?x"
    using b by (cases ?b) (simp_all add: later_position_def max_absorb2)
  let ?gs = "closing (fp_gap_open f) ?b ?x"
  let ?q = "q\<lparr>q_gaps := q_gaps q @ ?gs\<rparr>"
  let ?f = "f\<lparr>fp_gap_open := False, fp_last_forwarded := Some ?x\<rparr>"
  have s: "feed_step (LogReceived l) (f, q) = (?f, fst (send l ?q))"
    using w(2,3) lp by (simp add: forwarding_def closing_def note_gap_def)
  have q': "queue_ok header ?q ks" using q by (simp add: queue_ok_def queue_inv_def)
  have k: "key_of l \<notin> set ks" using us l(1) b by (auto simp: unseen_def)
  note sf = send_fresh [OF q' w(4) k]
  have no_gap: "fp_gap_open f \<or> (\<forall>e \<in> ?W. beyond ?b (position_key e) \<longrightarrow> ?x \<le> position_key e)"
    using fa n unfolding feed_at_def next_log_def by auto
  note g = gaps_fit_received [OF gf no ba b, of "fp_gap_open f"]
  have "pending_round header ?W a (Some ?x) False (ks @ [key_of l]) ?f (fst (send l ?q))"
    unfolding pending_round_def
    using sf g logs_fit_received [OF lf c l(1) b ba no_gap] unseen_received [OF us c l(1) g b] beyond_trans [OF ba [OF b]]
    by (simp add: feed_at_def)
  moreover have "q_channel (fst (send l ?q)) = q_channel q @ [l]" using sf(2) by simp
  ultimately show ?thesis using that [OF s] by blast
qed

section \<open>A history\<close>

lemma lost_step:
  "pending_round header W a p missing ks f q \<Longrightarrow> next_log W p l \<Longrightarrow>
   pending_round header W a (Some (position_key l)) True ks f q"
  using beyond_trans [of p "position_key l"] by (auto simp: pending_round_def feed_at_def next_log_def)

lemma reopened_step:
  "pending_round header W a p missing ks f q \<Longrightarrow> pending_round header W a p False ks (f\<lparr>fp_gap_open := True\<rparr>) q"
  "pending_round header W a p missing ks f q \<Longrightarrow> pending_round header W a p False ks (f\<lparr>fp_subscribed_before := x, fp_gap_open := True\<rparr>) q"
  by (simp_all add: pending_round_def feed_at_def)

lemma header_step:
  "pending_round header W a p missing ks f q \<Longrightarrow> fetched_time header n = Some t \<Longrightarrow>
   pending_round header W a p missing ks f (record_block_time n t q)"
  using record_time_ok [of header q ks n t] by (simp add: pending_round_def)

lemma feed_round:
  assumes "ordered_chain chain" and "pending_round header (watched chain as ts) a p missing ks f q"
    and "follows header (watched chain as ts) p missing h" and "history_end p missing h = (p', missing')"
  shows "\<exists>f' q' new. feed_run h (f, q) = (f', q') \<and> q_channel q' = q_channel q @ new \<and>
    pending_round header (watched chain as ts) a p' missing' (ks @ map key_of new) f' q'"
  using assms(2-)
proof (induction p missing h arbitrary: f q ks rule: history_end.induct)
  case (2 p missing l h)
  have "next_log (watched chain as ts) p l" "follows header (watched chain as ts) (Some (position_key l)) True h"
    using 2(3) by simp_all
  then show ?case using 2(1) [OF lost_step [OF 2(2)]] 2(4) by simp
next
  case (3 p missing l h)
  have n: "next_log (watched chain as ts) p l" "\<not> missing" "follows header (watched chain as ts) (Some (position_key l)) False h"
    using 3(3) by simp_all
  have r: "pending_round header (watched chain as ts) a p False ks f q" using 3(2) n(2) by simp
  obtain f1 q1 where s: "feed_step (LogReceived l) (f, q) = (f1, q1)"
    and ch: "q_channel q1 = q_channel q @ [l]"
    and p: "pending_round header (watched chain as ts) a (Some (position_key l)) False (ks @ [key_of l]) f1 q1"
    by (rule received_step [OF r assms(1) n(1)])
  have "feed_run (Received (LogReceived l) # h) (f, q) = feed_run h (f1, q1)" by (simp only: feed_run.simps s)
  moreover have "history_end (Some (position_key l)) False h = (p', missing')" using 3(4) by simp
  from 3(1) [OF p n(3) this] obtain f' q' new where "feed_run h (f1, q1) = (f', q')" "q_channel q' = q_channel q1 @ new"
    "pending_round header (watched chain as ts) a p' missing' ((ks @ [key_of l]) @ map key_of new) f' q'" by blast
  ultimately show ?case using ch by (intro exI [of _ f'] exI [of _ q'] exI [of _ "l # new"]) simp
next
  case (4 p missing h)
  then show ?case using 4(1) [OF reopened_step(2) [OF 4(2), of True]] by (simp add: subscribed_def)
next
  case (5 p missing h)
  then show ?case using 5(1) [OF reopened_step(1) [OF 5(2)]] by (simp add: lagged_def)
next
  case (6 p missing n t h)
  have t: "fetched_time header n = Some t" and h: "follows header (watched chain as ts) p missing h" using 6(3) by simp_all
  have "queue_ok header q ks" using 6(2) by (simp add: pending_round_def)
  from record_time_ok(2) [OF this t] show ?case using 6(1) [OF header_step [OF 6(2) t] h] 6(4) by simp
qed auto

text \<open>Draining and taking the gaps starts the next round where this one ends, whatever was claimed meanwhile.\<close>

lemma next_round:
  assumes "pending_round header W a p missing ks f q" and "queue_ok header q' ks'"
    and "q_channel q' = []" and "q_gaps q' = []"
    and "\<And>e. e \<in> W \<Longrightarrow> key_of e \<in> set ks' \<Longrightarrow> \<not> beyond (fp_last_forwarded f) (position_key e)"
  shows "pending_round header W (fp_last_forwarded f) p missing ks' f q'"
  using assms by (simp add: pending_round_def gaps_fit_def logs_fit_def unseen_def covers_inside)

text \<open>A fresh feed and queue.\<close>

lemma first_round:
  assumes "0 < max_events"
  shows "pending_round header W None None True [] feed_new (queue_new buffer max_events chain_id)"
  using queue_inv_new [OF assms] known_true_nil
  by (simp add: pending_round_def queue_ok_def feed_at_def gaps_fit_def logs_fit_def unseen_def feed_new_def)
     (simp add: queue_new_def)

text \<open>Gaps noted earlier only stay in front of the ones a feed notes.\<close>

lemma record_event_gaps: "record_event l (q\<lparr>q_gaps := gs\<rparr>) = map_prod (\<lambda>q. q\<lparr>q_gaps := gs\<rparr>) id (record_event l q)"
  by (simp add: record_event_def prune_oldest_def Let_def split: option.split list.split)

lemma send_gaps_update: "fst (send l (q\<lparr>q_gaps := gs\<rparr>)) = (fst (send l q))\<lparr>q_gaps := gs\<rparr>"
proof -
  obtain q1 a where r: "record_event l q = (q1, a)" by fastforce
  then have "record_event l (q\<lparr>q_gaps := gs\<rparr>) = (q1\<lparr>q_gaps := gs\<rparr>, a)" by (simp add: record_event_gaps)
  with r show ?thesis
    by (cases a; cases "q_open q1") (auto simp: send_def split: bool.split)
qed

lemma feed_step_prefix:
  assumes "feed_step e (f, q) = (f', q')"
  shows "feed_step e (f, q\<lparr>q_gaps := gs @ q_gaps q\<rparr>) = (f', q'\<lparr>q_gaps := gs @ q_gaps q'\<rparr>)"
proof (cases e)
  case (LogReceived l)
  obtain f1 og where w: "forwarding l f = (f1, og)" by fastforce
  show ?thesis
  proof (cases og)
    case None
    then show ?thesis using assms LogReceived w send_gaps_update by auto
  next
    case (Some g)
    have "note_gap g (q\<lparr>q_gaps := gs @ q_gaps q\<rparr>) = (note_gap g q)\<lparr>q_gaps := gs @ q_gaps (note_gap g q)\<rparr>"
      by (simp add: note_gap_def)
    then show ?thesis using assms LogReceived w Some send_gaps_update by auto
  qed
next
  case (HeaderReceived n t)
  then show ?thesis using assms by (auto simp: record_block_time_def Let_def split: option.split)
qed (use assms in \<open>auto simp: subscribed_def lagged_def\<close>)

lemma feed_run_prefix:
  "feed_run h (f, q) = (f', q') \<Longrightarrow>
   feed_run h (f, q\<lparr>q_gaps := gs @ q_gaps q\<rparr>) = (f', q'\<lparr>q_gaps := gs @ q_gaps q'\<rparr>)"
proof (induction h arbitrary: f q)
  case (Cons x h)
  show ?case
  proof (cases x)
    case (Received e)
    obtain f1 q1 where s: "feed_step e (f, q) = (f1, q1)" by fastforce
    then have "feed_run h (f1, q1) = (f', q')" using Cons.prems Received by simp
    from Cons.IH [OF this] feed_step_prefix [OF s, of gs] show ?thesis using Received by simp
  next
    case (Lost l)
    then show ?thesis using Cons by simp
  qed
qed simp

lemma feed_run_progress: "fst (feed_run h (f, q)) = fst (feed_run h (f, q'))"
proof (induction h arbitrary: f q q')
  case (Cons x h)
  show ?case
  proof (cases x)
    case (Received e)
    have "fst (feed_step e (f, q)) = fst (feed_step e (f, q'))" by (cases e) (auto simp: Let_def split: prod.split)
    then show ?thesis using Cons.IH Received by (metis feed_run.simps(2) prod.collapse)
  next
    case (Lost l)
    then show ?thesis using Cons.IH by simp
  qed
qed simp

end
