(* ===== verification/Gap_Fill.thy ===== *)
theory Gap_Fill
  imports Feed_Rounds
begin

text \<open>
  What \<^verbatim>\<open>fetch_gap\<close> brings back from a node that serves the chain: exactly the watched logs inside the gap that
  bootstrap has not applied, each claimed; and that it returns, once the node's head has passed the gap.
\<close>

section \<open>Waiting for the head\<close>

lemma get_block_number_answers:
  assumes "answers read n"
  shows "get_block_number_with_retry read = Some n"
proof -
  let ?r = "\<lambda>k. case map_option (map_sum id Some) (read k) of
      None \<Rightarrow> None
    | Some (Inl e) \<Rightarrow> Some (Inl e)
    | Some (Inr None) \<Rightarrow> None
    | Some (Inr (Some v)) \<Rightarrow> Some (Inr v)"
  have "?r k = read k" for k
  proof (cases "read k")
    case (Some a)
    then show ?thesis by (cases a) simp_all
  qed simp
  then have "?r = read" by (intro ext)
  then have "map_option fst (retry ?r 1 50) = Some n" using retry_answers [OF assms] by (simp only:)
  then show ?thesis by (simp add: get_block_number_with_retry_def rpc_with_retry_def)
qed

definition head_passes :: "(nat \<Rightarrow> u64 attempts) \<Rightarrow> u64 \<Rightarrow> bool" where
  "head_passes heads block \<longleftrightarrow> (\<exists>k. (\<forall>i \<le> k. \<exists>n. answers (heads i) n) \<and> (\<exists>n. answers (heads k) n \<and> block < n))"

lemma wait_from:
  "\<forall>i \<le> k. \<exists>n. answers (heads (j + i)) n \<Longrightarrow> \<exists>n. answers (heads (j + k)) n \<and> block < n \<Longrightarrow>
   wait_until_rpc_passes heads j block = Some ()"
proof (induction k arbitrary: j)
  case 0
  then show ?case using get_block_number_answers by (subst wait_until_rpc_passes.simps) force
next
  case (Suc k)
  obtain n where n: "answers (heads j) n" using Suc.prems(1) by fastforce
  have "\<forall>i \<le> k. \<exists>n. answers (heads (j + 1 + i)) n"
  proof (intro allI impI)
    fix i assume "i \<le> k"
    then have "\<exists>n. answers (heads (j + Suc i)) n" using Suc.prems(1) Suc_le_mono by blast
    then show "\<exists>n. answers (heads (j + 1 + i)) n" by simp
  qed
  then have "wait_until_rpc_passes heads (j + 1) block = Some ()"
    using Suc.prems(2) by (intro Suc.IH) simp_all
  then show ?case
    using get_block_number_answers [OF n] by (subst wait_until_rpc_passes.simps) simp
qed

lemma head_waited: "head_passes heads block \<Longrightarrow> wait_until_rpc_passes heads 0 block = Some ()"
  using wait_from [of _ heads 0 block] by (auto simp: head_passes_def)

section \<open>Claiming the missed logs\<close>

lemma in_gap_inside: "in_gap floor g p \<longleftrightarrow> inside g p \<and> floor \<le> p"
  by (auto simp: in_gap_def inside_def beyond_def split: option.splits)

lemma claim_fresh:
  assumes "queue_ok header q ks" and "keyed l" and "key_of l \<notin> set ks"
  shows "\<exists>q'. claim l q = (q', Ok True) \<and> queue_ok header q' (ks @ [key_of l]) \<and> q_channel q' = q_channel q \<and> q_gaps q' = q_gaps q"
proof -
  have w: "key_of l \<notin> set (window (q_max_events q) ks)"
    using assms(3) by (auto simp: window_def dest: in_set_dropD)
  obtain q' where q': "record_event l q = (q', Ok True)" "queue_inv q' (ks @ [key_of l])"
    "q_channel q' = q_channel q" "q_open q' = q_open q"
    using record_fresh [OF _ assms(2) w] assms(1) unfolding queue_ok_def by blast
  then show ?thesis
    using record_event_times [of l q] assms(1) by (simp add: claim_def queue_ok_def)
qed

lemma take_missed_all:
  assumes "queue_ok header q ks" and "\<forall>l \<in> set ls. keyed l \<and> \<not> log_removed l \<and> position_of l = Some (position_key l)"
    and "distinct (map key_of ls)" and "\<forall>l \<in> set ls. in_gap floor g (position_key l) \<longrightarrow> key_of l \<notin> set ks"
  defines "new \<equiv> filter (\<lambda>l. in_gap floor g (position_key l)) ls"
  shows "\<exists>q'. fold (take_missed floor g) ls (q, ms) = (q', ms @ new) \<and> queue_ok header q' (ks @ map key_of new) \<and>
    q_channel q' = q_channel q \<and> q_gaps q' = q_gaps q"
  using assms(1-4) unfolding new_def
proof (induction ls arbitrary: q ks ms)
  case (Cons l ls)
  have l: "keyed l" "\<not> log_removed l" "position_of l = Some (position_key l)" using Cons.prems(2) by simp_all
  have rest: "\<forall>l \<in> set ls. keyed l \<and> \<not> log_removed l \<and> position_of l = Some (position_key l)" "distinct (map key_of ls)"
    using Cons.prems(2,3) by simp_all
  show ?case
  proof (cases "in_gap floor g (position_key l)")
    case True
    then have k: "key_of l \<notin> set ks" using Cons.prems(4) by simp
    obtain q1 where c: "claim l q = (q1, Ok True)" "queue_ok header q1 (ks @ [key_of l])"
      "q_channel q1 = q_channel q" "q_gaps q1 = q_gaps q"
      using claim_fresh [OF Cons.prems(1) l(1) k] by blast
    have "\<forall>l' \<in> set ls. in_gap floor g (position_key l') \<longrightarrow> key_of l' \<notin> set (ks @ [key_of l])"
    proof (intro ballI impI)
      fix l' assume l': "l' \<in> set ls" "in_gap floor g (position_key l')"
      have "key_of l \<notin> key_of ` set ls" using Cons.prems(3) by simp
      then have "key_of l' \<noteq> key_of l" using l'(1) by (metis imageI)
      then show "key_of l' \<notin> set (ks @ [key_of l])" using Cons.prems(4) l' by simp
    qed
    from Cons.IH [OF c(2) rest this, of "ms @ [l]"] show ?thesis
      using True l c by (simp add: take_missed_def)
  next
    case False
    have "\<forall>l' \<in> set ls. in_gap floor g (position_key l') \<longrightarrow> key_of l' \<notin> set ks" using Cons.prems(4) by simp
    from Cons.IH [OF Cons.prems(1) rest this, of ms] show ?thesis
      using False l by (simp add: take_missed_def)
  qed
qed simp

section \<open>The fetch\<close>

lemma fetch_ranges_all:
  assumes "serves rpc chain" and "live r"
  shows "fetch_ranges rpc r s g ranges acc =
    Some (fold (take_missed (ws_fill_floor s) g) (watched_between chain (get_all_addresses r) (ws_topics s) (blocks_of ranges)) acc)"
  using assms
proof (induction ranges arbitrary: acc)
  case (Cons ab ranges)
  obtain a b where ab: "ab = (a, b)" by (cases ab)
  show ?case using Cons.prems by (simp add: ab Cons.IH serves_fetch live_addresses del: split_paired_all)
qed simp

lemma from_one: "uint (saturating_add (saturating_sub n 1) 1) = max (uint n) 1" for n :: u64
  using uint_less [of n] by (auto simp: uint_saturating_add uint_saturating_sub max_def min_def)

lemma fst_mono: "p \<le> q \<Longrightarrow> fst p \<le> fst q" for p q :: log_position
  by (cases p; cases q) (auto simp: less_imp_le)

lemma gap_blocks:
  assumes "in_gap floor g p" and "0 < fst p"
  shows "uint (fst p) \<in> set [max (uint (gap_from floor g)) 1..uint (fst (gap_before g))]"
proof -
  have "fst floor \<le> fst p" "fst p \<le> fst (gap_before g)"
    using assms(1) fst_mono [of floor p] fst_mono [of p "gap_before g"] by (simp_all add: in_gap_def less_imp_le)
  moreover have "fst a \<le> fst p" if "gap_after g = Some a" for a
    using assms(1) that fst_mono [of a p] by (simp add: in_gap_def less_imp_le)
  ultimately have "gap_from floor g \<le> fst p"
    by (cases "gap_after g") (auto simp: gap_from_def)
  then show ?thesis
    using assms(2) \<open>fst p \<le> fst (gap_before g)\<close> by (simp add: word_le_def word_less_def)
qed

lemma position_distinct: "sorted_wrt (\<lambda>l l'. position_key l < position_key l') ls \<Longrightarrow> distinct ls"
  using strict_sorted_iff [of "map position_key ls"] by (simp add: sorted_wrt_map distinct_map)

lemma fetch_gap_exact:
  fixes src :: ws_source
  assumes s: "serves rpc chain" and live: "live r" and c: "ordered_chain chain"
    and h: "head_passes heads (fst (gap_before g))" and q: "queue_ok header q ks"
  defines "W \<equiv> watched chain (get_all_addresses r) (ws_topics src)"
  assumes fresh: "\<forall>e \<in> W. in_gap (ws_fill_floor src) g (position_key e) \<longrightarrow> key_of e \<notin> set ks"
  shows "\<exists>q' ms. fetch_gap rpc heads r src g q = Some (q', ms) \<and>
    set ms = {e \<in> W. in_gap (ws_fill_floor src) g (position_key e)} \<and>
    sorted_wrt (\<lambda>l l'. position_key l < position_key l') ms \<and>
    queue_ok header q' (ks @ map key_of ms) \<and> q_channel q' = q_channel q \<and> q_gaps q' = q_gaps q"
proof (cases "gap_empty (ws_fill_floor src) g")
  case True
  then have "\<not> in_gap (ws_fill_floor src) g p" for p
    by (auto simp: gap_empty_def in_gap_def split: option.splits)
  then show ?thesis using True q by (simp add: fetch_gap_def)
next
  case False
  let ?floor = "ws_fill_floor src" and ?from = "gap_from (ws_fill_floor src) g" and ?to = "fst (gap_before g)"
  let ?ns = "blocks_of (catchup_batches (saturating_sub ?from 1) (ws_max_blocks_per_batch src) ?to)"
  let ?ls = "watched_between chain (get_all_addresses r) (ws_topics src) ?ns"
  have ns: "?ns = [max (uint ?from) 1..uint ?to]"
    unfolding catchup_batches_def catchup_loop_tiles from_one ..
  have b: "\<forall>n \<in> set ?ns. 0 \<le> n \<and> n < 2 ^ 64" unfolding ns using uint_less [of ?to] by auto
  have sorted: "sorted_wrt (\<lambda>l l'. position_key l < position_key l') ?ls"
    by (rule watched_between_sorted [OF c _ b]) (simp add: ns)
  note m = watched_between_set [OF c b]
  have ls: "\<forall>l \<in> set ?ls. keyed l \<and> \<not> log_removed l \<and> position_of l = Some (position_key l)"
    using m watched_log [OF c] by blast
  have "distinct ?ls" using sorted by (rule position_distinct)
  then have d: "distinct (map key_of ?ls)"
    using m watched_apart(2) [OF c] by (auto simp: distinct_map inj_on_def)
  have i: "e \<in> set ?ls" if "e \<in> W" "in_gap ?floor g (position_key e)" for e
  proof -
    have "0 < fst (position_key e)" using chain_log(5) [OF c watched_log(6) [OF c]] that(1) by (simp add: W_def)
    from gap_blocks [OF that(2) this] that(1) show ?thesis unfolding m unfolding ns W_def by blast
  qed
  have f: "\<forall>l \<in> set ?ls. in_gap ?floor g (position_key l) \<longrightarrow> key_of l \<notin> set ks"
    using fresh m by (simp add: W_def)
  from take_missed_all [OF q ls d f, of "[]"] obtain q' where
    "fold (take_missed ?floor g) ?ls (q, []) = (q', filter (\<lambda>l. in_gap ?floor g (position_key l)) ?ls)"
    "queue_ok header q' (ks @ map key_of (filter (\<lambda>l. in_gap ?floor g (position_key l)) ?ls))"
    "q_channel q' = q_channel q" "q_gaps q' = q_gaps q" by auto
  moreover have "set (filter (\<lambda>l. in_gap ?floor g (position_key l)) ?ls) = {e \<in> W. in_gap ?floor g (position_key e)}"
  proof -
    have "set ?ls \<subseteq> W" using m unfolding W_def by blast
    then show ?thesis using i unfolding set_filter by blast
  qed
  ultimately show ?thesis
    using False sorted_wrt_filter [OF sorted]
    by (simp add: fetch_gap_def Let_def head_waited [OF h] fetch_ranges_all [OF s live])
qed

section \<open>Several gaps\<close>

text \<open>No log inside one of the gaps has been claimed.\<close>

definition unclaimed :: "chain_log set \<Rightarrow> gap list \<Rightarrow> event_key list \<Rightarrow> bool" where
  "unclaimed W gs ks \<longleftrightarrow> sorted_wrt apart gs \<and> (\<forall>e \<in> W. covers gs (position_key e) \<longrightarrow> key_of e \<notin> set ks)"

lemma still_unclaimed:
  assumes "unclaimed (watched chain as ts) (g # gs) ks" and c: "ordered_chain chain"
    and ms: "set ms = {e \<in> watched chain as ts. in_gap floor g (position_key e)}"
  shows "unclaimed (watched chain as ts) gs (ks @ map key_of ms)"
    and "\<forall>e \<in> watched chain as ts. in_gap floor g (position_key e) \<longrightarrow> key_of e \<notin> set ks"
proof -
  have a: "\<forall>g' \<in> set gs. apart g g'" "sorted_wrt apart gs" using assms(1) by (simp_all add: unclaimed_def)
  have k: "key_of e \<notin> set ks" if "e \<in> watched chain as ts" "covers (g # gs) (position_key e)" for e
    using assms(1) that by (simp add: unclaimed_def)
  have "key_of e \<notin> set (ks @ map key_of ms)" if e: "e \<in> watched chain as ts" "covers gs (position_key e)" for e
  proof -
    have "\<not> inside g (position_key e)" using a(1) e(2) by (auto simp: covers_inside apart_def)
    then have "e \<notin> set ms" by (simp add: ms in_gap_inside)
    then have "key_of e \<notin> key_of ` set ms" using watched_apart(2) [OF c e(1)] by (auto simp: ms)
    then show ?thesis using k [OF e(1)] e(2) by (simp add: covers_inside)
  qed
  then show "unclaimed (watched chain as ts) gs (ks @ map key_of ms)" using a(2) by (simp add: unclaimed_def)
  show "\<forall>e \<in> watched chain as ts. in_gap floor g (position_key e) \<longrightarrow> key_of e \<notin> set ks"
    using k by (simp add: in_gap_inside covers_inside)
qed

lemma missed_apart:
  assumes "unclaimed W (g # gs) ks" and "set ms = {e \<in> W. in_gap floor g (position_key e)}"
    and "set ms' = {e \<in> W. floor \<le> position_key e \<and> covers gs (position_key e)}"
  shows "set ms \<inter> set ms' = {}" and "set (ms @ ms') = {e \<in> W. floor \<le> position_key e \<and> covers (g # gs) (position_key e)}"
  using assms by (auto simp: unclaimed_def apart_def in_gap_inside covers_inside)

text \<open>A turn's fills add to the settler exactly what the gaps hold.\<close>

definition refilled :: "ws_source \<Rightarrow> chain_log list \<Rightarrow> ws_source \<Rightarrow> bool" where
  "refilled src ms src' \<longleftrightarrow>
     (\<exists>st n. src' = src\<lparr>ws_settler := st, ws_apply_only_through := n\<rparr> \<and> settler_inv st \<and>
       mset (held_logs st) = mset (held_logs (ws_settler src)) + mset ms \<and>
       bs_released_through st = bs_released_through (ws_settler src))"

lemma refilled_trans: "refilled src ms src' \<Longrightarrow> refilled src' ms' src'' \<Longrightarrow> refilled src (ms @ ms') src''"
  unfolding refilled_def by (elim exE conjE) (auto simp: add.assoc)

lemma fill_gaps_all:
  fixes src :: ws_source
  assumes s: "serves rpc chain" and live: "live r" and c: "ordered_chain chain"
  defines "W \<equiv> watched chain (get_all_addresses r) (ws_topics src)"
  assumes "\<forall>g \<in> set gs. head_passes (heads g) (fst (gap_before g))" and "queue_ok header q ks"
    and "ws_fill_reconnect_gaps src" and "unclaimed W gs ks" and "settler_inv (ws_settler src)"
  shows "\<exists>src' q' ms. fill_gaps rpc heads filled_at r gs (src, q) = Some (src', q') \<and>
    refilled src ms src' \<and> set ms = {e \<in> W. ws_fill_floor src \<le> position_key e \<and> covers gs (position_key e)} \<and> distinct ms \<and>
    queue_ok header q' (ks @ map key_of ms) \<and> q_channel q' = q_channel q \<and> q_gaps q' = q_gaps q"
  using assms(5-) unfolding W_def
proof (induction gs arbitrary: src q ks)
  case Nil
  have "refilled src [] src"
    unfolding refilled_def using Nil(5) by (intro exI [of _ "ws_settler src"] exI [of _ "ws_apply_only_through src"]) simp
  with Nil show ?case by (intro exI [of _ src] exI [of _ q] exI [of _ "[]"]) (simp add: covers_inside)
next
  case (Cons g gs)
  let ?W = "watched chain (get_all_addresses r) (ws_topics src)" and ?floor = "ws_fill_floor src"
  have fresh: "\<forall>e \<in> ?W. in_gap ?floor g (position_key e) \<longrightarrow> key_of e \<notin> set ks"
    using Cons.prems(4) by (simp add: unclaimed_def covers_inside in_gap_inside)
  have "head_passes (heads g) (fst (gap_before g))" using Cons.prems(1) by simp
  from fetch_gap_exact [OF s live c this Cons.prems(2) fresh] obtain q1 ms
    where f: "fetch_gap rpc (heads g) r src g q = Some (q1, ms)"
    "set ms = {e \<in> ?W. in_gap ?floor g (position_key e)}" "sorted_wrt (\<lambda>l l'. position_key l < position_key l') ms"
    "queue_ok header q1 (ks @ map key_of ms)" "q_channel q1 = q_channel q" "q_gaps q1 = q_gaps q"
    by blast
  have nr: "filter (\<lambda>l. \<not> log_removed l) ms = ms" using f(2) watched_log(2) [OF c] by (auto simp: filter_id_conv)
  let ?st = "settler_add ms (filled_at g) (ws_settler src)"
  let ?src = "src\<lparr>ws_settler := ?st, ws_apply_only_through := max (ws_apply_only_through src) (fst (gap_before g))\<rparr>"
  note st = add_inv [OF Cons.prems(5), of ms "filled_at g", unfolded nr]
  have run: "fill_gaps rpc heads filled_at r (g # gs) (src, q) = fill_gaps rpc heads filled_at r gs (?src, q1)"
    using Cons.prems(3) f(1) by (simp add: fill_gap_def)
  have rf: "refilled src ms ?src" unfolding refilled_def using st by blast
  have fr: "ws_topics ?src = ws_topics src" "ws_fill_floor ?src = ?floor" "ws_settler ?src = ?st"
    "ws_fill_reconnect_gaps ?src = ws_fill_reconnect_gaps src" by simp_all
  note u = still_unclaimed(1) [OF Cons.prems(4) c f(2)]
  have hp: "\<forall>g \<in> set gs. head_passes (heads g) (fst (gap_before g))" using Cons.prems(1) by simp
  from Cons.IH [OF hp f(4), of ?src, unfolded fr, OF Cons.prems(3) u] st obtain src' q' ms'
    where ih: "fill_gaps rpc heads filled_at r gs (?src, q1) = Some (src', q')" "refilled ?src ms' src'"
      "set ms' = {e \<in> ?W. ?floor \<le> position_key e \<and> covers gs (position_key e)}" "distinct ms'"
      "queue_ok header q' ((ks @ map key_of ms) @ map key_of ms')" "q_channel q' = q_channel q1" "q_gaps q' = q_gaps q1"
    by blast
  note a = missed_apart [OF Cons.prems(4) f(2) ih(3)]
  have d: "distinct (ms @ ms')" using a(1) ih(4) position_distinct [OF f(3)] by simp
  show ?case
    unfolding run using ih(1,5-7) a(2) d f(5,6) refilled_trans [OF rf ih(2)]
    by (intro exI [of _ src'] exI [of _ q'] exI [of _ "ms @ ms'"]) simp
qed

text \<open>Bootstrap adds what the gaps that end at a drained log hold, and notes the others again.\<close>

lemma bootstrap_gaps_all:
  fixes src :: ws_source
  assumes s: "serves rpc chain" and live: "live r" and c: "ordered_chain chain"
  defines "W \<equiv> watched chain (get_all_addresses r) (ws_topics src)"
  assumes "\<forall>g \<in> set gs. head_passes (heads g) (fst (gap_before g))" and "queue_ok header q ks"
    and "unclaimed W gs ks"
  shows "\<exists>q' ms. bootstrap_gaps rpc heads r src drained gs (q, events, filled) =
      Some (q', events @ ms, filled \<or> filter (\<lambda>g. gap_before g \<in> drained) gs \<noteq> []) \<and>
    set ms = {e \<in> W. ws_fill_floor src \<le> position_key e \<and> covers (filter (\<lambda>g. gap_before g \<in> drained) gs) (position_key e)} \<and>
    distinct ms \<and> queue_ok header q' (ks @ map key_of ms) \<and> q_channel q' = q_channel q \<and>
    q_gaps q' = q_gaps q @ filter (\<lambda>g. gap_before g \<notin> drained) gs"
  using assms(5-) unfolding W_def
proof (induction gs arbitrary: q ks events filled)
  case Nil
  then show ?case by (intro exI [of _ q] exI [of _ "[]"]) (simp add: covers_inside)
next
  case (Cons g gs)
  let ?W = "watched chain (get_all_addresses r) (ws_topics src)" and ?floor = "ws_fill_floor src"
  let ?in = "filter (\<lambda>g. gap_before g \<in> drained)" and ?out = "filter (\<lambda>g. gap_before g \<notin> drained)"
  have hp: "\<forall>g \<in> set gs. head_passes (heads g) (fst (gap_before g))" using Cons.prems(1) by simp
  show ?case
  proof (cases "gap_before g \<in> drained")
    case True
    have fresh: "\<forall>e \<in> ?W. in_gap ?floor g (position_key e) \<longrightarrow> key_of e \<notin> set ks"
      using Cons.prems(3) by (simp add: unclaimed_def covers_inside in_gap_inside)
    have "head_passes (heads g) (fst (gap_before g))" using Cons.prems(1) by simp
    from fetch_gap_exact [OF s live c this Cons.prems(2) fresh] obtain q1 ms
      where f: "fetch_gap rpc (heads g) r src g q = Some (q1, ms)"
      "set ms = {e \<in> ?W. in_gap ?floor g (position_key e)}" "sorted_wrt (\<lambda>l l'. position_key l < position_key l') ms"
      "queue_ok header q1 (ks @ map key_of ms)" "q_channel q1 = q_channel q" "q_gaps q1 = q_gaps q"
      by blast
    from Cons.IH [OF hp f(4) still_unclaimed(1) [OF Cons.prems(3) c f(2)], of "events @ ms" True] obtain q' ms'
      where ih: "bootstrap_gaps rpc heads r src drained gs (q1, events @ ms, True) = Some (q', (events @ ms) @ ms', True)"
        "set ms' = {e \<in> ?W. ?floor \<le> position_key e \<and> covers (?in gs) (position_key e)}" "distinct ms'"
        "queue_ok header q' ((ks @ map key_of ms) @ map key_of ms')" "q_channel q' = q_channel q1" "q_gaps q' = q_gaps q1 @ ?out gs"
      by auto
    have "unclaimed ?W (g # ?in gs) ks"
      using Cons.prems(3) by (auto simp: unclaimed_def covers_inside sorted_wrt_filter)
    note a = missed_apart [OF this f(2) ih(2)]
    have "distinct (ms @ ms')" using a(1) ih(3) position_distinct [OF f(3)] by simp
    then show ?thesis
      using True f ih a(2) by (intro exI [of _ q'] exI [of _ "ms @ ms'"]) simp
  next
    case False
    have u: "unclaimed ?W gs ks" using Cons.prems(3) by (simp add: unclaimed_def covers_inside)
    have q: "queue_ok header (note_gap g q) ks" using Cons.prems(2) by (simp add: note_gap_ok)
    from Cons.IH [OF hp q u, of events filled] show ?thesis
      using False by (simp add: note_gap_def)
  qed
qed

end
