(* ===== verification/Websocket_Step.thy ===== *)
theory Websocket_Step
  imports Gap_Fill Updater
begin

text \<open>
  The websocket source keeps the registry in step with the chain: whatever its feed loses, the logs it hands on
  are, in order and once each, those of the chain after the registry's cursor.
\<close>

section \<open>What has been applied\<close>

text \<open>\<open>r'\<close> has the pools of \<open>r\<close> after the logs, each at some time of the wall clock.\<close>

definition applied :: "registry \<Rightarrow> chain_log list \<Rightarrow> registry \<Rightarrow> bool" where
  "applied r ls r' \<longleftrightarrow> (\<exists>tls. map snd tls = ls \<and> reg_pools r' = reg_pools (fold (\<lambda>(t, l). apply_at t l) tls r))"

lemma timed_pools:
  "reg_pools r = reg_pools r' \<Longrightarrow>
   reg_pools (fold (\<lambda>(t, l). apply_at t l) tls r) = reg_pools (fold (\<lambda>(t, l). apply_at t l) tls r')"
proof (induction tls arbitrary: r r')
  case (Cons tl tls)
  obtain t l where tl: "tl = (t, l)" by fastforce
  show ?case using Cons.IH [OF apply_at_pools [OF Cons.prems, of t l]] by (simp add: tl)
qed simp

lemma applied_trans:
  assumes "applied r ls r'" and "applied r' ls' r''"
  shows "applied r (ls @ ls') r''"
proof -
  obtain tls where t: "map snd tls = ls" "reg_pools r' = reg_pools (fold (\<lambda>(t, l). apply_at t l) tls r)"
    using assms(1) by (auto simp: applied_def)
  obtain tls' where t': "map snd tls' = ls'" "reg_pools r'' = reg_pools (fold (\<lambda>(t, l). apply_at t l) tls' r')"
    using assms(2) by (auto simp: applied_def)
  have "reg_pools r'' = reg_pools (fold (\<lambda>(t, l). apply_at t l) (tls @ tls') r)"
    using t'(2) timed_pools [OF t(2), of tls'] by simp
  then show ?thesis unfolding applied_def using t(1) t'(1) by (intro exI [of _ "tls @ tls'"]) simp
qed

lemma applied_clock: "reg_pools r' = reg_pools (fold (\<lambda>l. apply_at (clock l) l) ls r) \<Longrightarrow> applied r ls r'"
  unfolding applied_def
  by (intro exI [of _ "map (\<lambda>l. (clock l, l)) ls"]) (simp add: fold_map comp_def case_prod_beta)

lemma applied_pools: "reg_pools r' = reg_pools r \<Longrightarrow> applied r [] r'"
  by (simp add: applied_def)

lemma applied_live:
  assumes "applied r ls r'" and "live r"
  shows "live r'" and "pool_ids r' = pool_ids r"
proof -
  obtain tls where t: "reg_pools r' = reg_pools (fold (\<lambda>(t, l). apply_at t l) tls r)" using assms(1) by (auto simp: applied_def)
  have "live (fold (\<lambda>(t, l). apply_at t l) tls r) \<and> pool_ids (fold (\<lambda>(t, l). apply_at t l) tls r) = pool_ids r"
    using assms(2)
  proof (induction tls arbitrary: r)
    case (Cons tl tls)
    obtain t l where tl: "tl = (t, l)" by fastforce
    have "pool_ids (apply_at t l r) = pool_ids r" using Cons.prems by (simp add: live_def)
    then show ?case using Cons.IH [OF live_apply [OF Cons.prems, of t l]] by (simp add: tl)
  qed simp
  then show "live r'" and "pool_ids r' = pool_ids r" using t by (simp_all add: live_def pool_ids_def)
qed

text \<open>The date a log gets does not depend on the pools' state.\<close>

abbreviation dated :: "rpc \<Rightarrow> registry \<Rightarrow> chain_log \<Rightarrow> chain_log" where
  "dated rpc r \<equiv> stamped (rpc_header rpc) [] (lb_log r)"

lemma same_ids:
  assumes "pool_ids r' = pool_ids r"
  shows "dated rpc r' = dated rpc r" and "get_all_addresses r' = get_all_addresses r"
  using assms unfolding lb_log_ids [abs_def] addresses_ids by simp_all

lemma dated_position [simp]: "position_key (stamped header known wanted l) = position_key l"
  by (simp add: position_key_def)

lemma enrich_dated:
  assumes "live r" and "known_true (rpc_header rpc) known"
  shows "enrich_if_lb_pools_present (rpc_header rpc) r ls known = map (dated rpc r) ls"
proof -
  have "bt_inv (reg_pools r)" "bt_inv known" using assms by (simp_all add: live_def known_true_def)
  moreover have "stamped (rpc_header rpc) known (lb_log r) = dated rpc r"
    by (intro ext) (simp add: stamped_known [OF assms(2)])
  ultimately show ?thesis by (simp add: enrich_lb)
qed

section \<open>The catch-up over RPC\<close>

text \<open>A node that answers every call at once, if only with an error.\<close>

definition patient :: "rpc \<Rightarrow> bool" where
  "patient rpc \<longleftrightarrow> (\<forall>f k. rpc_get_logs rpc f k \<noteq> None)"

lemma fetch_until_from:
  assumes "\<forall>j. read j \<noteq> None" and "read (k + n) = Some (Inr v)" and "\<forall>i < n. failed (read (k + i))"
  shows "fetch_until_ok read k = Some v"
  using assms(2-)
proof (induction n arbitrary: k)
  case 0
  then show ?case by (subst fetch_until_ok.simps) simp
next
  case (Suc n)
  have f: "failed (read k)" using Suc.prems(2) [rule_format, of 0] by simp
  obtain a where a: "read k = Some a" using assms(1) [rule_format, of k] by blast
  then obtain e where "read k = Some (Inl e)" using f by (cases a) (simp_all add: failed_def)
  moreover have "fetch_until_ok read (k + 1) = Some v" using Suc.prems by (intro Suc.IH) auto
  ultimately show ?case by (subst fetch_until_ok.simps) simp
qed

lemma fetch_until_events:
  assumes "patient rpc" and "serves rpc chain" and "live r"
  shows "fetch_until_ok (fetch_events rpc (get_all_addresses r) topics (Number a) (Number b)) 1 =
    Some (watched_between chain (get_all_addresses r) topics [uint a..uint b])"
proof -
  have "answers (fetch_events rpc (get_all_addresses r) topics (Number a) (Number b))
      (watched_between chain (get_all_addresses r) topics [uint a..uint b])"
    using assms(2) live_addresses [OF assms(3)] by (simp add: serves_def)
  then obtain n where "fetch_events rpc (get_all_addresses r) topics (Number a) (Number b) (1 + n) =
      Some (Inr (watched_between chain (get_all_addresses r) topics [uint a..uint b]))"
    "\<forall>i < n. failed (fetch_events rpc (get_all_addresses r) topics (Number a) (Number b) (1 + i))"
    by (auto simp: answers_def)
  moreover have "\<forall>j. fetch_events rpc (get_all_addresses r) topics (Number a) (Number b) j \<noteq> None"
    using assms(1) by (simp add: patient_def fetch_events_def)
  ultimately show ?thesis by (intro fetch_until_from)
qed

lemma apply_until_all:
  assumes "\<forall>l \<in> set ls. position_of l = Some (position_key l)"
  shows "apply_until clock p ls r = (fold (\<lambda>l. apply_at (clock l) l) (takeWhile (\<lambda>l. position_key l < p) ls) r,
    \<exists>l \<in> set ls. \<not> position_key l < p)"
  using assms by (induction ls arbitrary: r) (auto simp: is_at_or_after_def not_less)

lemma catch_up_all:
  assumes "patient rpc" and "serves rpc chain" and c: "ordered_chain chain" and "live r"
    and "\<And>n. known_true (rpc_header rpc) (wb_times w n)" and "\<forall>n \<in> set (blocks_of bs). 0 \<le> n \<and> n < 2 ^ 64"
  shows "\<exists>r'. catch_up rpc w src p bs r = Some r' \<and> reg_last_processed_block r' = reg_last_processed_block r \<and>
    applied r (map (dated rpc r) (takeWhile (\<lambda>l. position_key l < p)
      (watched_between chain (get_all_addresses r) (ws_topics src) (blocks_of bs)))) r'"
  using assms(4,6)
proof (induction bs arbitrary: r)
  case Nil
  then show ?case by (simp add: applied_def)
next
  case (Cons ab bs)
  obtain a b where ab: "ab = (a, b)" by fastforce
  let ?W = "watched_between chain (get_all_addresses r) (ws_topics src)"
  let ?ls = "map (dated rpc r) (?W [uint a..uint b])"
  have m: "\<forall>n \<in> set [uint a..uint b]. 0 \<le> n \<and> n < 2 ^ 64" "\<forall>n \<in> set (blocks_of bs). 0 \<le> n \<and> n < 2 ^ 64"
    using Cons.prems(2) by (simp_all add: ab)
  have p: "\<forall>l \<in> set ?ls. position_of l = Some (position_key l)"
    using watched_between_set [OF c m(1), of _ "get_all_addresses r" "ws_topics src"] watched_log(3) [OF c] by fastforce
  let ?r = "fold (\<lambda>l. apply_at (wb_clock w l) l) (takeWhile (\<lambda>l. position_key l < p) ?ls) r"
  have a: "applied r (takeWhile (\<lambda>l. position_key l < p) ?ls) ?r" by (rule applied_clock) simp
  have cu: "reg_last_processed_block (fold (\<lambda>l. apply_at (clock l) l) ls r) = reg_last_processed_block r" for clock ls r
    by (induction ls arbitrary: r) simp_all
  note u = apply_until_all [OF p, of "wb_clock w" p r]
  note fe = fetch_until_events [OF assms(1,2) Cons.prems(1), of "ws_topics src" a b]
  have run: "catch_up rpc w src p (ab # bs) r =
      (if \<exists>l \<in> set ?ls. \<not> position_key l < p then Some ?r else catch_up rpc w src p bs ?r)"
    by (cases "\<exists>l \<in> set ?ls. \<not> position_key l < p")
       (simp_all only: ab catch_up.simps fe option.case enrich_dated [OF Cons.prems(1) assms(5)] u prod.case bool.case if_True if_False)
  have sp: "?W (blocks_of (ab # bs)) = ?W [uint a..uint b] @ ?W (blocks_of bs)" by (simp add: ab)
  show ?case
  proof (cases "\<exists>l \<in> set ?ls. \<not> position_key l < p")
    case True
    then have "takeWhile (\<lambda>l. position_key l < p) (?W (blocks_of (ab # bs))) = takeWhile (\<lambda>l. position_key l < p) (?W [uint a..uint b])"
      unfolding sp by (auto simp: takeWhile_append1)
    then have "map (dated rpc r) (takeWhile (\<lambda>l. position_key l < p) (?W (blocks_of (ab # bs)))) = takeWhile (\<lambda>l. position_key l < p) ?ls"
      by (simp add: takeWhile_map comp_def)
    then show ?thesis using a True by (simp add: run cu)
  next
    case False
    then have tw: "takeWhile (\<lambda>l. position_key l < p) (?W (blocks_of (ab # bs))) = ?W [uint a..uint b] @ takeWhile (\<lambda>l. position_key l < p) (?W (blocks_of bs))"
      unfolding sp by (intro takeWhile_append2) auto
    have e: "takeWhile (\<lambda>l. position_key l < p) ?ls = ?ls" using False by (simp add: takeWhile_eq_all_conv)
    note al = applied_live [OF a Cons.prems(1)]
    note ids = same_ids [OF al(2)]
    from Cons.IH [OF al(1) m(2), unfolded ids] obtain r' where
      r': "catch_up rpc w src p bs ?r = Some r'" "reg_last_processed_block r' = reg_last_processed_block ?r"
        "applied ?r (map (dated rpc r) (takeWhile (\<lambda>l. position_key l < p) (?W (blocks_of bs)))) r'" by blast
    have "applied r (?ls @ map (dated rpc r) (takeWhile (\<lambda>l. position_key l < p) (?W (blocks_of bs)))) r'"
      using applied_trans [OF a r'(3)] unfolding e .
    then show ?thesis
      unfolding run tw map_append using False r'(1,2) cu by auto
  qed
qed

section \<open>The gaps found at the start\<close>

lemma drained_positions: "ordered_chain chain \<Longrightarrow> set ls \<subseteq> watched chain as ts \<Longrightarrow>
    set (List.map_filter position_of ls) = position_key ` set ls"
  by (induction ls) (auto simp: watched_log)

lemma sort_positions:
  assumes "ordered_chain chain" and "set ls \<subseteq> watched chain as ts" and "distinct ls"
  shows "sorted_wrt (\<lambda>l l'. position_key l < position_key l') (sort_key position_key ls)"
proof -
  have "inj_on position_key (set ls)" unfolding inj_on_def using watched_apart(1) [OF assms(1)] assms(2) by blast
  then have "distinct (map position_key (sort_key position_key ls))" using assms(3) by (simp add: distinct_map)
  moreover have "sorted (map position_key (sort_key position_key ls))" by simp
  ultimately show ?thesis
    using strict_sorted_iff [of "map position_key (sort_key position_key ls)"] by (simp add: sorted_wrt_map)
qed

text \<open>
  Two rounds in one queue: the logs of the first were drained, its gaps are still there, and the feed went on.
\<close>

lemma two_rounds:
  assumes c: "ordered_chain chain" and r0: "pending_round header (watched chain as ts) a p0 m0 ks0 f0 q0"
    and h: "follows header (watched chain as ts) p0 m0 h" "history_end p0 m0 h = (p1, m1)"
  shows "\<exists>f1 q1 new. feed_run h (f0, q0\<lparr>q_channel := []\<rparr>) = (f1, q1\<lparr>q_gaps := q_gaps q0 @ q_gaps q1\<rparr>) \<and>
    pending_round header (watched chain as ts) (fp_last_forwarded f0) p1 m1 (ks0 @ map key_of new) f1 q1 \<and>
    q_channel q1 = new \<and> unclaimed (watched chain as ts) (q_gaps q0 @ q_gaps q1) (ks0 @ map key_of new)"
proof -
  let ?W = "watched chain as ts" and ?b = "fp_last_forwarded f0"
  have q: "queue_ok header q0 ks0" and gf: "gaps_fit a (q_channel q0) (q_gaps q0)"
    and lf: "logs_fit ?W a ?b (q_channel q0) (q_gaps q0)" and us: "unseen ?W ?b (q_gaps q0) ks0"
    using r0 unfolding pending_round_def by blast+
  let ?q = "q0\<lparr>q_channel := [], q_gaps := []\<rparr>"
  have "queue_ok header ?q ks0" using q by (simp add: queue_ok_def queue_inv_def)
  from next_round [OF r0 this] have "pending_round header ?W ?b p0 m0 ks0 f0 ?q" using us by (simp add: unseen_def)
  from feed_round [OF c this h] obtain f1 q1 new where
    fr: "feed_run h (f0, ?q) = (f1, q1)" "q_channel q1 = new"
    and r1: "pending_round header ?W ?b p1 m1 (ks0 @ map key_of new) f1 q1" by auto
  have run: "feed_run h (f0, q0\<lparr>q_channel := []\<rparr>) = (f1, q1\<lparr>q_gaps := q_gaps q0 @ q_gaps q1\<rparr>)"
    using feed_run_prefix [OF fr(1), of "q_gaps q0"] by simp
  have g1: "gaps_fit ?b new (q_gaps q1)" and l1: "logs_fit ?W ?b (fp_last_forwarded f1) new (q_gaps q1)"
    and u1: "unseen ?W (fp_last_forwarded f1) (q_gaps q1) (ks0 @ map key_of new)"
    using r1 fr(2) unfolding pending_round_def by blast+
  have no: "\<forall>l \<in> set (q_channel q0). \<not> beyond ?b (position_key l)" using lf by (auto simp: logs_fit_def)
  have old: "\<not> beyond ?b x" if "g \<in> set (q_gaps q0)" "inside g x" for g x by (rule inside_old [OF gf no that])
  have new: "beyond ?b x" if "g \<in> set (q_gaps q1)" "inside g x" for g x using g1 that unfolding gaps_fit_def by blast
  have "apart g g'" if "g \<in> set (q_gaps q0)" "g' \<in> set (q_gaps q1)" for g g'
    using old new that unfolding apart_def by blast
  then have s: "sorted_wrt apart (q_gaps q0 @ q_gaps q1)"
    using gf g1 by (simp add: gaps_fit_def sorted_wrt_append)
  have k: "key_of e \<notin> set (ks0 @ map key_of new)" if e: "e \<in> ?W" "covers (q_gaps q0 @ q_gaps q1) (position_key e)" for e
  proof (cases "covers (q_gaps q1) (position_key e)")
    case True
    then show ?thesis using u1 e(1) by (auto simp: unseen_def)
  next
    case False
    then have cv: "covers (q_gaps q0) (position_key e)" using e(2) by (auto simp: covers_inside)
    then have "\<not> beyond ?b (position_key e)" unfolding covers_inside using old by blast
    then have "e \<notin> set new" using l1 by (auto simp: logs_fit_def)
    moreover have "set new \<subseteq> ?W" using l1 by (simp add: logs_fit_def)
    ultimately have "key_of e \<notin> key_of ` set new" using watched_apart(2) [OF c e(1)] by blast
    then show ?thesis using us e(1) cv by (auto simp: unseen_def)
  qed
  have "unclaimed ?W (q_gaps q0 @ q_gaps q1) (ks0 @ map key_of new)" using s k by (simp add: unclaimed_def)
  with run r1 fr(2) show ?thesis by blast
qed

lemma fill_bootstrap_ok:
  fixes src :: ws_source
  assumes s: "serves rpc chain" and live: "live r" and c: "ordered_chain chain"
    and heads: "\<And>g n. chain n \<noteq> [] \<Longrightarrow> head_passes (heads g) n" and fill: "ws_fill_reconnect_gaps src"
  defines "W \<equiv> watched chain (get_all_addresses r) (ws_topics src)"
  assumes r0: "pending_round header W a p0 m0 ks0 f0 q0"
    and h: "follows header W p0 m0 h" "history_end p0 m0 h = (p1, m1)"
  shows "\<exists>f1 q events ks. fst (feed_run h (f0, q0\<lparr>q_channel := []\<rparr>)) = f1 \<and>
    fill_bootstrap_gaps rpc heads r src (q_channel q0) (snd (feed_run h (f0, q0\<lparr>q_channel := []\<rparr>))) = Some (q, events) \<and>
    sorted_wrt (\<lambda>l l'. position_key l < position_key l') events \<and>
    set events = set (q_channel q0) \<union> {e \<in> W. ws_fill_floor src \<le> position_key e \<and> covers (q_gaps q0) (position_key e)} \<and>
    pending_round header W (fp_last_forwarded f0) p1 m1 ks f1 q"
proof -
  let ?b = "fp_last_forwarded f0" and ?C = "q_channel q0" and ?pos = "\<lambda>l l'. position_key l < position_key l'"
  obtain f1 q1 new where run: "feed_run h (f0, q0\<lparr>q_channel := []\<rparr>) = (f1, q1\<lparr>q_gaps := q_gaps q0 @ q_gaps q1\<rparr>)"
    and r1: "pending_round header W ?b p1 m1 (ks0 @ map key_of new) f1 q1" and new: "q_channel q1 = new"
    and un: "unclaimed W (q_gaps q0 @ q_gaps q1) (ks0 @ map key_of new)"
    using two_rounds [OF c r0 [unfolded W_def] h [unfolded W_def]] unfolding W_def by blast
  have gf: "gaps_fit a ?C (q_gaps q0)" and lf: "logs_fit W a ?b ?C (q_gaps q0)" using r0 unfolding pending_round_def by blast+
  have q1: "queue_ok header q1 (ks0 @ map key_of new)" and g1: "gaps_fit ?b new (q_gaps q1)"
    and l1: "logs_fit W ?b (fp_last_forwarded f1) new (q_gaps q1)"
    using r1 new unfolding pending_round_def by blast+
  have CW: "set ?C \<subseteq> W" and Cs: "sorted_wrt ?pos ?C" and Cb: "\<And>l. l \<in> set ?C \<Longrightarrow> \<not> beyond ?b (position_key l)"
    using lf by (auto simp: logs_fit_def)
  have newb: "\<And>l. l \<in> set new \<Longrightarrow> beyond ?b (position_key l)" and newW: "set new \<subseteq> W" using l1 by (auto simp: logs_fit_def)
  define drained where "drained = set (List.map_filter position_of ?C)"
  have dr: "drained = position_key ` set ?C"
    unfolding drained_def by (rule drained_positions [OF c CW [unfolded W_def]])
  have i0: "gap_before g \<in> drained" if "g \<in> set (q_gaps q0)" for g using gf that by (simp add: gaps_fit_def dr)
  have i1: "gap_before g \<notin> drained" if "g \<in> set (q_gaps q1)" for g
  proof -
    have "gap_before g \<in> position_key ` set new" using g1 that by (simp add: gaps_fit_def)
    then have "beyond ?b (gap_before g)" using newb by auto
    then show ?thesis using Cb by (auto simp: dr)
  qed
  have split: "filter (\<lambda>g. gap_before g \<in> drained) (q_gaps q0 @ q_gaps q1) = q_gaps q0"
    "filter (\<lambda>g. gap_before g \<notin> drained) (q_gaps q0 @ q_gaps q1) = q_gaps q1"
    using i0 i1 by (auto simp: filter_empty_conv filter_id_conv)
  have hp: "head_passes (heads g) (fst (gap_before g))" if "g \<in> set (q_gaps q0 @ q_gaps q1)" for g
  proof -
    have "gap_before g \<in> position_key ` set ?C \<union> position_key ` set new"
      using that gf g1 by (auto simp: gaps_fit_def)
    then have "gap_before g \<in> position_key ` W" using CW newW by blast
    then obtain l where "l \<in> W" "gap_before g = position_key l" by blast
    moreover from this have "l \<in> set (chain (fst (position_key l)))" using watched_log(6) [OF c] unfolding W_def by blast
    then have "chain (fst (position_key l)) \<noteq> []" by auto
    ultimately show ?thesis using heads by simp
  qed
  let ?q2 = "q1\<lparr>q_gaps := []\<rparr>"
  have q2: "queue_ok header ?q2 (ks0 @ map key_of new)" using q1 by (simp add: queue_ok_def queue_inv_def)
  have "\<forall>g \<in> set (q_gaps q0 @ q_gaps q1). head_passes (heads g) (fst (gap_before g))" using hp by blast
  from bootstrap_gaps_all [OF s live c this q2 un [unfolded W_def], of drained ?C False, folded W_def, unfolded split]
  obtain q3 ms where b: "bootstrap_gaps rpc heads r src drained (q_gaps q0 @ q_gaps q1) (?q2, ?C, False) =
      Some (q3, ?C @ ms, q_gaps q0 \<noteq> [])"
    "set ms = {e \<in> W. ws_fill_floor src \<le> position_key e \<and> covers (q_gaps q0) (position_key e)}" "distinct ms"
    "queue_ok header q3 ((ks0 @ map key_of new) @ map key_of ms)" "q_channel q3 = new" "q_gaps q3 = q_gaps q1"
    using new by auto
  have mb: "\<not> beyond ?b (position_key e)" if "e \<in> set ms" for e
    using that b(2) inside_old [OF gf, of ?b] Cb unfolding covers_inside by blast
  have d: "distinct (?C @ ms)"
    using position_distinct [OF Cs] b(2,3) gf by (auto simp: covers_inside gaps_fit_def)
  let ?events = "if q_gaps q0 \<noteq> [] then sort_key position_key (?C @ ms) else ?C @ ms"
  have ms0: "ms = []" if "q_gaps q0 = []" using b(2) that by (simp add: covers_inside)
  have so: "sorted_wrt ?pos ?events"
    using Cs ms0 sort_positions [OF c _ d] CW b(2) by (auto simp: W_def)
  have se: "set ?events = set ?C \<union> set ms" by simp
  have pr: "pending_round header W ?b p1 m1 ((ks0 @ map key_of new) @ map key_of ms) f1 q3"
  proof -
    have "\<not> beyond (fp_last_forwarded f1) (position_key e) \<and> \<not> covers (q_gaps q1) (position_key e)"
      if e: "e \<in> W" "key_of e \<in> set ((ks0 @ map key_of new) @ map key_of ms)" for e
    proof (cases "key_of e \<in> key_of ` set ms")
      case True
      then have "e \<in> set ms" using watched_apart(2) [OF c] e(1) b(2) unfolding W_def by blast
      then have "\<not> beyond ?b (position_key e)" by (rule mb)
      then show ?thesis using r1 g1 unfolding pending_round_def covers_inside gaps_fit_def by blast
    next
      case False
      then show ?thesis using r1 e by (auto simp: pending_round_def unseen_def)
    qed
    then have "unseen W (fp_last_forwarded f1) (q_gaps q1) ((ks0 @ map key_of new) @ map key_of ms)"
      unfolding unseen_def by blast
    then show ?thesis using r1 b(4-6) new unfolding pending_round_def by simp
  qed
  have "fill_bootstrap_gaps rpc heads r src ?C (q1\<lparr>q_gaps := q_gaps q0 @ q_gaps q1\<rparr>) = Some
      (if q_gaps q0 @ q_gaps q1 = [] then (?q2, ?C) else (q3, ?events))"
    using b(1) fill by (auto simp: fill_bootstrap_gaps_def take_gaps_def drained_def)
  moreover have "?q2 = q3 \<and> ?C = ?events" if "q_gaps q0 @ q_gaps q1 = []"
    using that b(1) ms0 by simp
  ultimately have "fill_bootstrap_gaps rpc heads r src ?C (q1\<lparr>q_gaps := q_gaps q0 @ q_gaps q1\<rparr>) = Some (q3, ?events)"
    by (simp split: if_splits)
  then show ?thesis unfolding run fst_conv snd_conv using so se pr b(2) by blast
qed

section \<open>Bootstrap\<close>

text \<open>The chain's watched logs after the cursor, and those of them that are before the floor or not after \<open>b\<close>.\<close>

definition after_cursor :: "(u64 \<Rightarrow> chain_log list) \<Rightarrow> address list \<Rightarrow> topic list \<Rightarrow> u64 \<Rightarrow> chain_log list" where
  "after_cursor chain as ts c = watched_between chain as ts [uint c + 1..2 ^ 64 - 1]"

definition reached :: "log_position \<Rightarrow> log_position option \<Rightarrow> chain_log \<Rightarrow> bool" where
  "reached floor b l \<longleftrightarrow> position_key l < floor \<or> \<not> beyond b (position_key l)"

lemma upto_range: "0 \<le> a \<Longrightarrow> b < 2 ^ 64 \<Longrightarrow> \<forall>n \<in> set [a..b]. 0 \<le> n \<and> n < 2 ^ 64" for a b :: int
  by auto

lemma after_cursor_range: "\<forall>n \<in> set [uint c + 1..2 ^ 64 - 1]. 0 \<le> n \<and> n < 2 ^ 64" for c :: u64
  by (rule upto_range) simp_all

lemma after_cursor_set:
  assumes "ordered_chain chain"
  shows "e \<in> set (after_cursor chain as ts c) \<longleftrightarrow> e \<in> watched chain as ts \<and> c < fst (position_key e)"
proof -
  have "uint (fst (position_key e)) \<in> set [uint c + 1..2 ^ 64 - 1] \<longleftrightarrow> c < fst (position_key e)"
    using uint_less [of "fst (position_key e)"] by (auto simp: word_less_def)
  then show ?thesis unfolding after_cursor_def watched_between_set [OF assms after_cursor_range] by simp
qed

lemma after_cursor_sorted:
  "ordered_chain chain \<Longrightarrow> sorted_wrt (\<lambda>l l'. position_key l < position_key l') (filter P (after_cursor chain as ts c))"
  unfolding after_cursor_def by (intro sorted_wrt_filter watched_between_sorted after_cursor_range) simp_all

lemma fold_min_le: "x \<in> insert p (set ps) \<Longrightarrow> fold min ps p \<le> x" for x :: "'a::linorder"
proof (induction ps arbitrary: p x)
  case (Cons q ps)
  have "fold min ps (min q p) \<le> min q p" by (rule Cons.IH) simp
  then have "fold min ps (min q p) \<le> q" "fold min ps (min q p) \<le> p" by simp_all
  then show ?case using Cons.IH [of x "min q p"] Cons.prems by auto
qed simp

lemma first_position_le:
  assumes "l \<in> set ls" and "position_of l = Some p"
  shows "first_position latest ls \<le> p"
proof -
  have "p \<in> set (List.map_filter position_of ls)" using assms by (auto simp: set_map_filter)
  then obtain x xs where x: "List.map_filter position_of ls = x # xs" "p \<in> set (x # xs)"
    by (cases "List.map_filter position_of ls") auto
  then show ?thesis using fold_min_le [of p x xs] by (simp add: first_position_def)
qed

lemma takeWhile_sorted:
  fixes f :: "'a \<Rightarrow> 'b::linorder"
  shows "sorted_wrt (\<lambda>x y. f x < f y) xs \<Longrightarrow> takeWhile (\<lambda>x. f x < p) xs = filter (\<lambda>x. f x < p) xs"
proof (induction xs)
  case (Cons a xs)
  have "\<not> f x < p" if "x \<in> set xs" "\<not> f a < p" for x using Cons.prems that by fastforce
  then show ?case using Cons by (auto simp: filter_False)
qed simp

text \<open>Everything before the floor over RPC, and what was queued with its gaps, make up the chain.\<close>

lemma bootstrap_logs:
  assumes c: "ordered_chain chain" and cu: "cursor < fst floor"
    and lf: "logs_fit (watched chain as ts) None b ls gs" and fl: "\<forall>l \<in> set ls. floor \<le> position_key l"
    and gf: "gaps_fit None ls gs"
    and ev: "sorted_wrt (\<lambda>l l'. position_key l < position_key l') events"
    "set events = set ls \<union> {e \<in> watched chain as ts. floor \<le> position_key e \<and> covers gs (position_key e)}"
  shows "takeWhile (\<lambda>l. position_key l < floor) (watched_between chain as ts [uint cursor + 1..uint (fst floor)]) @ events =
    filter (reached floor b) (after_cursor chain as ts cursor)"
proof (rule sorted_wrt_unique)
  let ?W = "watched chain as ts" and ?pos = "\<lambda>l l'. position_key l < position_key l'"
  let ?B = "watched_between chain as ts [uint cursor + 1..uint (fst floor)]"
  have rg: "\<forall>n \<in> set [uint cursor + 1..uint (fst floor)]. 0 \<le> n \<and> n < 2 ^ 64"
    using uint_less [of "fst floor"] by (intro upto_range) simp_all
  have sB: "sorted_wrt ?pos ?B" by (rule watched_between_sorted [OF c _ rg]) simp
  have A: "takeWhile (\<lambda>l. position_key l < floor) ?B = filter (\<lambda>l. position_key l < floor) ?B"
    by (rule takeWhile_sorted [OF sB])
  have "uint (fst (position_key e)) \<in> set [uint cursor + 1..uint (fst floor)] \<longleftrightarrow> cursor < fst (position_key e) \<and> fst (position_key e) \<le> fst floor" for e
    by (auto simp: word_less_def word_le_def)
  then have m: "e \<in> set ?B \<longleftrightarrow> e \<in> ?W \<and> cursor < fst (position_key e) \<and> fst (position_key e) \<le> fst floor" for e
    using watched_between_set [OF c rg, of e as ts] by simp
  have "fst (position_key e) \<le> fst floor" if "position_key e < floor" for e
    using that by (intro fst_mono less_imp_le)
  then have setA: "set (filter (\<lambda>l. position_key l < floor) ?B) = {e \<in> ?W. cursor < fst (position_key e) \<and> position_key e < floor}"
    unfolding set_filter [of "\<lambda>l. position_key l < floor"] using m by blast
  have nb: "\<not> beyond b (position_key e)" if "covers gs (position_key e)" for e
  proof -
    have "\<forall>l \<in> set ls. \<not> beyond b (position_key l)" using lf by (simp add: logs_fit_def)
    from inside_old [OF gf this] show ?thesis using that unfolding covers_inside by blast
  qed
  have setE: "set events = {e \<in> ?W. floor \<le> position_key e \<and> \<not> beyond b (position_key e)}"
    using lf fl nb unfolding ev(2) logs_fit_def by (auto simp: beyond_Some)
  have cf: "cursor < fst (position_key e)" if "floor \<le> position_key e" for e
    using fst_mono [OF that] cu by simp
  have "\<forall>x \<in> set (filter (\<lambda>l. position_key l < floor) ?B). \<forall>y \<in> set events. ?pos x y"
    unfolding setE by auto
  then show "sorted_wrt ?pos (takeWhile (\<lambda>l. position_key l < floor) ?B @ events)"
    unfolding A sorted_wrt_append using sorted_wrt_filter [OF sB] ev(1) by blast
  show "sorted_wrt ?pos (filter (reached floor b) (after_cursor chain as ts cursor))"
    by (rule after_cursor_sorted [OF c])
  have r: "set (filter (reached floor b) (after_cursor chain as ts cursor)) = {e \<in> ?W. cursor < fst (position_key e) \<and> reached floor b e}"
    using after_cursor_set [OF c] by auto
  show "set (takeWhile (\<lambda>l. position_key l < floor) ?B @ events) = set (filter (reached floor b) (after_cursor chain as ts cursor))"
    unfolding A set_append setA setE r reached_def using cf by (auto simp: not_less)
qed

lemma catchup_blocks: "cursor < fb \<Longrightarrow> blocks_of (catchup_batches cursor n fb) = [uint cursor + 1..uint fb]"
proof -
  assume "cursor < fb"
  then have "uint cursor + 1 < 2 ^ 64" using uint_less [of fb] by (simp add: word_less_def)
  then show ?thesis unfolding catchup_batches_def catchup_loop_tiles by (simp add: uint_saturating_add)
qed

text \<open>What a bootstrap is given: the node's head, true block times, a head that passes every block with logs.\<close>

definition boot_ok :: "rpc \<Rightarrow> (u64 \<Rightarrow> chain_log list) \<Rightarrow> ws_boot \<Rightarrow> u64 \<Rightarrow> bool" where
  "boot_ok rpc chain w latest_block \<longleftrightarrow> wb_latest w = Ok latest_block \<and>
     (\<forall>n. known_true (rpc_header rpc) (wb_times w n)) \<and>
     (\<forall>g n. chain n \<noteq> [] \<longrightarrow> head_passes (wb_heads w g) n)"

lemma bootstrap_ok:
  fixes src :: ws_source
  assumes node: "patient rpc" "serves rpc chain" and c: "ordered_chain chain" and live: "live r"
    and w: "boot_ok rpc chain w latest" and fill: "ws_fill_reconnect_gaps src"
  defines "W \<equiv> watched chain (get_all_addresses r) (ws_topics src)"
  assumes r0: "pending_round (rpc_header rpc) W None p0 m0 ks0 f0 q0"
    and h: "follows (rpc_header rpc) W p0 m0 h" "history_end p0 m0 h = (p1, m1)"
    and cu: "reg_last_processed_block r < fst (first_position latest (q_channel q0))"
  defines "floor \<equiv> first_position latest (q_channel q0)"
  shows "\<exists>r' q' ks block. bootstrap rpc (w\<lparr>wb_arrivals := \<lambda>q. snd (feed_run h (f0, q))\<rparr>) r (src, q0) =
      Some (Ok (r', src\<lparr>ws_fill_floor := floor, ws_settler := settler_new (ws_block_settle src) block\<rparr>, q')) \<and>
    applied r (map (dated rpc r) (filter (reached floor (fp_last_forwarded f0))
      (after_cursor chain (get_all_addresses r) (ws_topics src) (reg_last_processed_block r)))) r' \<and>
    pending_round (rpc_header rpc) W (fp_last_forwarded f0) p1 m1 ks (fst (feed_run h (f0, q0))) q'"
proof -
  let ?w = "w\<lparr>wb_arrivals := \<lambda>q. snd (feed_run h (f0, q))\<rparr>" and ?b = "fp_last_forwarded f0"
  let ?src = "src\<lparr>ws_fill_floor := floor\<rparr>" and ?cursor = "reg_last_processed_block r"
  let ?bs = "catchup_batches ?cursor (ws_max_blocks_per_batch src) (fst floor)"
  let ?A = "takeWhile (\<lambda>l. position_key l < floor)
      (watched_between chain (get_all_addresses r) (ws_topics src) [uint ?cursor + 1..uint (fst floor)])"
  have wl: "wb_latest ?w = Ok latest" "\<And>n. known_true (rpc_header rpc) (wb_times ?w n)"
    "\<And>g n. chain n \<noteq> [] \<Longrightarrow> head_passes (wb_heads ?w g) n" using w by (simp_all add: boot_ok_def)
  have lf: "logs_fit W None ?b (q_channel q0) (q_gaps q0)" and gf: "gaps_fit None (q_channel q0) (q_gaps q0)"
    using r0 unfolding pending_round_def by blast+
  have bl: "blocks_of ?bs = [uint ?cursor + 1..uint (fst floor)]" by (rule catchup_blocks) (use cu in \<open>simp add: floor_def\<close>)
  have "\<forall>n \<in> set (blocks_of ?bs). 0 \<le> n \<and> n < 2 ^ 64"
    unfolding bl using uint_less [of "fst floor"] by (intro upto_range) simp_all
  from catch_up_all [OF node c live wl(2) this, of ?src floor, unfolded bl] obtain r1 where
    r1: "catch_up rpc ?w ?src floor ?bs r = Some r1" "applied r (map (dated rpc r) ?A) r1" by auto
  note l1 = applied_live [OF r1(2) live]
  note ids = same_ids [OF l1(2)]
  have r0': "pending_round (rpc_header rpc) (watched chain (get_all_addresses r1) (ws_topics ?src)) None p0 m0 ks0 f0 q0"
    and h': "follows (rpc_header rpc) (watched chain (get_all_addresses r1) (ws_topics ?src)) p0 m0 h"
    using r0 h(1) by (simp_all add: W_def ids)
  have fill': "ws_fill_reconnect_gaps ?src" using fill by simp
  from fill_bootstrap_ok [where heads = "wb_heads ?w", OF node(2) l1(1) c wl(3) fill' r0' h' h(2)] obtain q2 events ks where
    fb: "fill_bootstrap_gaps rpc (wb_heads ?w) r1 ?src (q_channel q0) (snd (feed_run h (f0, q0\<lparr>q_channel := []\<rparr>))) = Some (q2, events)"
    and ev: "sorted_wrt (\<lambda>l l'. position_key l < position_key l') events"
      "set events = set (q_channel q0) \<union> {e \<in> W. floor \<le> position_key e \<and> covers (q_gaps q0) (position_key e)}"
    and p2: "pending_round (rpc_header rpc) W ?b p1 m1 ks (fst (feed_run h (f0, q0\<lparr>q_channel := []\<rparr>))) q2"
    by (auto simp: W_def ids)
  have "floor \<le> position_key l" if "l \<in> set (q_channel q0)" for l
  proof -
    have "l \<in> W" using lf that by (auto simp: logs_fit_def)
    from first_position_le [OF that watched_log(3) [OF c this [unfolded W_def]]] show ?thesis by (simp add: floor_def)
  qed
  then have fl: "\<forall>l \<in> set (q_channel q0). floor \<le> position_key l" by blast
  have cf: "?cursor < fst floor" using cu by (simp add: floor_def)
  note logs = bootstrap_logs [OF c cf lf [unfolded W_def] fl gf ev [unfolded W_def]]
  have kt: "known_true (rpc_header rpc) (q_block_times q2)" using p2 by (simp add: pending_round_def queue_ok_def)
  have en: "enrich_if_lb_pools_present (rpc_header rpc) r1 events (known_block_times q2) = map (dated rpc r) events"
    using enrich_dated [OF l1(1) kt] ids by (simp add: known_block_times_def)
  let ?r2 = "fold (\<lambda>l. apply_at (wb_clock ?w l) l) (map (dated rpc r) events) r1"
  let ?block = "case max_block (map (dated rpc r) events) of None \<Rightarrow> fst floor | Some n \<Rightarrow> n"
  have a2: "applied r (map (dated rpc r) (?A @ events)) (set_last_processed_block ?block ?r2)"
    unfolding map_append by (rule applied_trans [OF r1(2)], rule applied_clock) (simp add: set_last_processed_block_def)
  have "bootstrap rpc ?w r (src, q0) = Some (Ok (set_last_processed_block ?block ?r2,
      src\<lparr>ws_fill_floor := floor, ws_settler := settler_new (ws_block_settle src) ?block\<rparr>, q2))"
    using r1(1) fb en wl(1) unfolding floor_def by (simp add: bootstrap_def get_all_available_events_def Let_def)
  moreover have "fst (feed_run h (f0, q0\<lparr>q_channel := []\<rparr>)) = fst (feed_run h (f0, q0))" by (rule feed_run_progress)
  ultimately show ?thesis using a2 p2 unfolding logs by auto
qed

end
