(* ===== verification/Websocket_Run.thy ===== *)
theory Websocket_Run
  imports Websocket_Step
begin

text \<open>
  The turns of the websocket source after bootstrap, and the updater over it: at every moment the logs applied
  and the logs the settler still holds are together the chain's, in order, up to the last one received.
\<close>

section \<open>What the settler holds, in the order it will be handed on\<close>

definition settled_view :: "block_settler \<Rightarrow> chain_log list" where
  "settled_view st = concat (map (\<lambda>(_, logs, _). sort_key in_block_key logs) (bs_pending st))"

lemma settled_view_mset: "mset (settled_view st) = mset (held_logs st)"
proof -
  have "mset (concat (map (\<lambda>(_, logs, _). sort_key in_block_key logs) m)) = mset (concat (map (\<lambda>(_, logs, _). logs) m))"
    for m :: "(u64 \<times> chain_log list \<times> nat) list"
    by (induction m) auto
  then show ?thesis by (simp add: settled_view_def held_logs_def)
qed

lemma settled_view_set: "set (settled_view st) = set (held_logs st)"
  using settled_view_mset [of st] by (rule mset_eq_setD)

lemma filed_position:
  assumes "ordered_chain chain" and "l \<in> watched chain as ts" and "filed b logs" and "l \<in> set logs"
  shows "position_key l = (b, in_block_key l)"
  using watched_log(3) [OF assms(1,2)] assms(3,4)
  by (auto simp: position_of_def in_block_key_def filed_def split: option.splits)

lemma settled_view_sorted:
  assumes c: "ordered_chain chain" and "settler_inv st" and "set (held_logs st) \<subseteq> watched chain as ts"
    and "distinct (held_logs st)"
  shows "sorted_wrt (\<lambda>l l'. position_key l < position_key l') (settled_view st)"
proof -
  have "sorted_wrt (\<lambda>l l'. position_key l < position_key l') (concat (map (\<lambda>(_, logs, _). sort_key in_block_key logs) m))"
    if "bt_inv m" "\<forall>(b, logs, _) \<in> set m. filed b logs" "set (concat (map (\<lambda>(_, logs, _). logs) m)) \<subseteq> watched chain as ts"
      "distinct (concat (map (\<lambda>(_, logs, _). logs) m))" for m :: "(u64 \<times> chain_log list \<times> nat) list"
    using that
  proof (induction m)
    case (Cons e m)
    obtain b logs t where e: "e = (b, logs, t)" by (cases e) auto
    have f: "filed b logs" and W: "set logs \<subseteq> watched chain as ts" and d: "distinct logs"
      using Cons.prems by (simp_all add: e)
    have p: "position_key l = (b, in_block_key l)" if "l \<in> set logs" for l
      using filed_position [OF c _ f that] W that by blast
    have i: "inj_on in_block_key (set logs)"
      unfolding inj_on_def using p W watched_apart(1) [OF c] by (metis subsetD)
    then have "distinct (map in_block_key (sort_key in_block_key logs))" using d by (simp add: distinct_map)
    then have "sorted_wrt (<) (map in_block_key (sort_key in_block_key logs))"
      using strict_sorted_iff [of "map in_block_key (sort_key in_block_key logs)"] by simp
    then have "sorted_wrt (\<lambda>l l'. in_block_key l < in_block_key l') (sort_key in_block_key logs)" by (simp add: sorted_wrt_map)
    then have s: "sorted_wrt (\<lambda>l l'. position_key l < position_key l') (sort_key in_block_key logs)"
      by (rule sorted_wrt_mono_rel [rotated]) (use p in simp)
    have x: "position_key l < position_key l'" if "l \<in> set logs" "l' \<in> set (concat (map (\<lambda>(_, logs, _). sort_key in_block_key logs) m))" for l l'
    proof -
      from that(2) obtain b' logs' t' where b': "(b', logs', t') \<in> set m" "l' \<in> set logs'" by auto
      have "b < b'" using Cons.prems(1) b'(1) by (force simp: e bt_inv_Cons)
      moreover have "l' \<in> watched chain as ts" "filed b' logs'" using Cons.prems(2,3) b' by (force simp: e)+
      ultimately show ?thesis using p [OF that(1)] filed_position [OF c _ _ b'(2)] by simp
    qed
    have "bt_inv m" using Cons.prems(1) by (simp add: e bt_inv_Cons)
    then have "sorted_wrt (\<lambda>l l'. position_key l < position_key l') (concat (map (\<lambda>(_, logs, _). sort_key in_block_key logs) m))"
      using Cons.prems by (intro Cons.IH) (simp_all add: e)
    then show ?case using s x by (simp add: e sorted_wrt_append)
  qed simp
  then show ?thesis using assms(2-4) by (simp add: settler_inv_def settled_view_def held_logs_def)
qed

lemma take_ready_view:
  "take_ready now st = (st', Some b) \<Longrightarrow> settled_view st = st_logs b @ settled_view st'"
  "take_ready now st = (st', None) \<Longrightarrow> st' = st"
  by (auto simp: take_ready_def settled_view_def Let_def split: list.splits prod.splits if_splits)

section \<open>The invariant of the turns\<close>

definition in_step ::
    "(u64 \<Rightarrow> chain_log list) \<Rightarrow> address list \<Rightarrow> u64 \<Rightarrow> chain_log list \<Rightarrow> log_position option \<Rightarrow> ws_source \<Rightarrow> bool" where
  "in_step chain as cursor handed b src \<longleftrightarrow> ws_fill_reconnect_gaps src \<and> cursor < fst (ws_fill_floor src) \<and>
     settler_inv (ws_settler src) \<and>
     handed @ settled_view (ws_settler src) = filter (reached (ws_fill_floor src) b) (after_cursor chain as (ws_topics src) cursor)"

text \<open>New logs join: those beyond \<open>a\<close> and not beyond \<open>b\<close>, from the floor on.\<close>

lemma in_step_joined:
  assumes c: "ordered_chain chain" and i: "in_step chain as cursor handed a src"
    and ba: "\<And>x. beyond b x \<Longrightarrow> beyond a x" and rf: "refilled src new src'" and d: "distinct new"
    and new: "set new = {e \<in> watched chain as (ws_topics src). ws_fill_floor src \<le> position_key e \<and>
      beyond a (position_key e) \<and> \<not> beyond b (position_key e)}"
  shows "in_step chain as cursor handed b src'"
proof -
  let ?W = "watched chain as (ws_topics src)" and ?floor = "ws_fill_floor src" and ?st = "ws_settler src"
  let ?all = "after_cursor chain as (ws_topics src) cursor" and ?pos = "\<lambda>l l'. position_key l < position_key l'"
  obtain st' n where src': "src' = src\<lparr>ws_settler := st', ws_apply_only_through := n\<rparr>" and inv': "settler_inv st'"
    and m: "mset (held_logs st') = mset (held_logs ?st) + mset new"
    using rf unfolding refilled_def by blast
  have f: "ws_fill_reconnect_gaps src" "cursor < fst ?floor" "handed @ settled_view ?st = filter (reached ?floor a) ?all"
    using i unfolding in_step_def by blast+
  have so: "sorted_wrt ?pos (handed @ settled_view ?st)" unfolding f(3) by (rule after_cursor_sorted [OF c])
  have mem: "e \<in> set handed \<union> set (held_logs ?st) \<longleftrightarrow> e \<in> ?W \<and> cursor < fst (position_key e) \<and> reached ?floor a e" for e
    using arg_cong [OF f(3), of set] after_cursor_set [OF c, of e as "ws_topics src" cursor]
    by (auto simp: settled_view_set set_eq_iff)
  have set': "set (held_logs st') = set (held_logs ?st) \<union> set new" using mset_eq_setD [OF m [folded mset_append]] by simp
  have no: "e \<notin> set new" if "reached ?floor a e" for e using that by (auto simp: new reached_def)
  have "distinct (settled_view ?st)" using position_distinct [OF so] by simp
  then have "distinct (held_logs ?st)" using settled_view_mset [of ?st] by (metis mset_eq_imp_distinct_iff)
  then have "distinct (held_logs ?st @ new)" using d mem no by auto
  then have d': "distinct (held_logs st')" using m by (metis mset_append mset_eq_imp_distinct_iff)
  have W': "set (held_logs st') \<subseteq> ?W" unfolding set' using mem new by blast
  note sv = settled_view_sorted [OF c inv' W' d']
  have x: "?pos h e" if h: "h \<in> set handed" "e \<in> set (held_logs st')" for h e
  proof (cases "e \<in> set new")
    case True
    have "reached ?floor a h" using mem h(1) by blast
    then show ?thesis using True beyond_less [of a "position_key h" "position_key e"] by (auto simp: new reached_def)
  next
    case False
    then show ?thesis using so h set' by (auto simp: sorted_wrt_append settled_view_set)
  qed
  have "sorted_wrt ?pos (handed @ settled_view st')"
    using so sv x by (simp add: sorted_wrt_append settled_view_set)
  moreover have "set (handed @ settled_view st') = set (filter (reached ?floor b) ?all)"
  proof -
    have fl: "cursor < fst (position_key e)" if "?floor \<le> position_key e" for e using fst_mono [OF that] f(2) by simp
    have nw: "e \<in> set new \<longleftrightarrow> e \<in> ?W \<and> cursor < fst (position_key e) \<and> ?floor \<le> position_key e \<and>
        beyond a (position_key e) \<and> \<not> beyond b (position_key e)" for e
      using fl by (auto simp: new)
    have r: "reached ?floor b e \<longleftrightarrow> reached ?floor a e \<or>
        ?floor \<le> position_key e \<and> beyond a (position_key e) \<and> \<not> beyond b (position_key e)" for e
      using ba [of "position_key e"] by (auto simp: reached_def not_less)
    have "e \<in> set (handed @ settled_view st') \<longleftrightarrow> e \<in> set (filter (reached ?floor b) ?all)" for e
      using mem [of e] nw [of e] r [of e] after_cursor_set [OF c, of e as "ws_topics src" cursor]
      by (auto simp: settled_view_set set')
    then show ?thesis by blast
  qed
  ultimately have "handed @ settled_view st' = filter (reached ?floor b) ?all"
    by (intro sorted_wrt_unique [OF _ after_cursor_sorted [OF c]])
  then show ?thesis using f(1,2) inv' by (simp add: in_step_def src')
qed

section \<open>One turn\<close>

definition turn_heads :: "(u64 \<Rightarrow> chain_log list) \<Rightarrow> ws_poll \<Rightarrow> bool" where
  "turn_heads chain p \<longleftrightarrow> (\<forall>g n. chain n \<noteq> [] \<longrightarrow> head_passes (wp_heads p g) n)"

lemma round_gaps:
  assumes c: "ordered_chain chain" and r: "pending_round header (watched chain as ts) a p m ks f q"
  shows "unclaimed (watched chain as ts) (q_gaps q) ks"
    and "g \<in> set (q_gaps q) \<Longrightarrow> chain (fst (gap_before g)) \<noteq> []"
proof -
  have gf: "gaps_fit a (q_channel q) (q_gaps q)" and lf: "logs_fit (watched chain as ts) a (fp_last_forwarded f) (q_channel q) (q_gaps q)"
    and us: "unseen (watched chain as ts) (fp_last_forwarded f) (q_gaps q) ks"
    using r unfolding pending_round_def by blast+
  show "unclaimed (watched chain as ts) (q_gaps q) ks" using gf us by (auto simp: unclaimed_def gaps_fit_def unseen_def)
  assume "g \<in> set (q_gaps q)"
  then obtain l where "l \<in> watched chain as ts" "gap_before g = position_key l"
    using gf lf unfolding gaps_fit_def logs_fit_def by blast
  then show "chain (fst (gap_before g)) \<noteq> []" using watched_log(6) [OF c] by fastforce
qed

lemma refilled_first:
  assumes "settler_inv (ws_settler src)" and "\<forall>l \<in> set ls. \<not> log_removed l"
  shows "refilled src ls (src\<lparr>ws_settler := settler_add ls now (ws_settler src)\<rparr>)"
proof -
  have "filter (\<lambda>l. \<not> log_removed l) ls = ls" using assms(2) by (simp add: filter_id_conv)
  then show ?thesis
    unfolding refilled_def using add_inv [OF assms(1), of ls now]
    by (intro exI [of _ "settler_add ls now (ws_settler src)"] exI [of _ "ws_apply_only_through src"]) simp
qed

lemma turn_fills:
  fixes src :: ws_source
  assumes s: "serves rpc chain" and live: "live r" and c: "ordered_chain chain" and hd: "turn_heads chain poll"
    and i: "in_step chain (get_all_addresses r) cursor handed a src"
  defines "W \<equiv> watched chain (get_all_addresses r) (ws_topics src)"
  assumes r: "pending_round header W a p m ks f q"
  shows "\<exists>src' q' ks'. ws_fill rpc (wp_heads poll) (wp_filled_at poll) r (ws_drain now (src, q)) = Some (src', q') \<and>
    in_step chain (get_all_addresses r) cursor handed (fp_last_forwarded f) src' \<and>
    pending_round header W (fp_last_forwarded f) p m ks' f q' \<and> ws_topics src' = ws_topics src \<and> ws_fill_floor src' = ws_fill_floor src"
proof -
  let ?b = "fp_last_forwarded f" and ?floor = "ws_fill_floor src"
  let ?C = "filter (\<lambda>l. case position_of l of None \<Rightarrow> True | Some p \<Rightarrow> p \<ge> ?floor) (q_channel q)"
  have gf: "gaps_fit a (q_channel q) (q_gaps q)" and lf: "logs_fit W a ?b (q_channel q) (q_gaps q)"
    and qo: "queue_ok header q ks" and us: "unseen W ?b (q_gaps q) ks" and ba: "\<And>x. beyond ?b x \<Longrightarrow> beyond a x"
    using r unfolding pending_round_def by blast+
  have CW: "set (q_channel q) \<subseteq> W" using lf by (simp add: logs_fit_def)
  have setC: "set ?C = {l \<in> set (q_channel q). ?floor \<le> position_key l}"
    using CW watched_log(3) [OF c] by (auto simp: W_def)
  have nr: "\<forall>l \<in> set ?C. \<not> log_removed l" using CW watched_log(2) [OF c] by (auto simp: W_def)
  have dC: "distinct ?C" using lf position_distinct by (auto simp: logs_fit_def)
  have st: "settler_inv (ws_settler src)" "ws_fill_reconnect_gaps src" using i by (simp_all add: in_step_def)
  let ?src = "src\<lparr>ws_settler := settler_add ?C now (ws_settler src)\<rparr>" and ?q = "q\<lparr>q_channel := [], q_gaps := []\<rparr>"
  note rf1 = refilled_first [OF st(1) nr, of now]
  have "settler_add [] now (ws_settler src) = ws_settler src" by (simp add: settler_add_def)
  then have dr: "ws_drain now (src, q) = (?src, q\<lparr>q_channel := []\<rparr>)"
    by (auto simp: ws_drain_def get_all_available_events_def Let_def)
  have q1: "queue_ok header ?q ks" using qo by (simp add: queue_ok_def queue_inv_def)
  have hp: "\<forall>g \<in> set (q_gaps q). head_passes (wp_heads poll g) (fst (gap_before g))"
    using hd round_gaps(2) [OF c r [unfolded W_def]] by (auto simp: turn_heads_def)
  have fr: "ws_topics ?src = ws_topics src" "ws_fill_floor ?src = ?floor" "ws_fill_reconnect_gaps ?src = ws_fill_reconnect_gaps src"
    by simp_all
  have st1: "settler_inv (ws_settler ?src)" using add_inv [OF st(1)] by simp
  from fill_gaps_all [where src = ?src, unfolded fr, OF s live c hp q1 st(2) round_gaps(1) [OF c r [unfolded W_def]] st1, folded W_def, of "wp_filled_at poll"]
  obtain src' q' ms where fl: "fill_gaps rpc (wp_heads poll) (wp_filled_at poll) r (q_gaps q) (?src, ?q) = Some (src', q')"
    and rf2: "refilled ?src ms src'" and ms: "set ms = {e \<in> W. ?floor \<le> position_key e \<and> covers (q_gaps q) (position_key e)}"
    and dm: "distinct ms" and q': "queue_ok header q' (ks @ map key_of ms)" "q_channel q' = []" "q_gaps q' = []"
    by auto
  have nb: "\<not> beyond ?b (position_key e) \<and> beyond a (position_key e) \<and> position_key e \<notin> position_key ` set (q_channel q)"
    if "covers (q_gaps q) (position_key e)" for e
  proof -
    have "\<forall>l \<in> set (q_channel q). \<not> beyond ?b (position_key l)" using lf by (simp add: logs_fit_def)
    from inside_old [OF gf this] show ?thesis using that gf unfolding covers_inside gaps_fit_def by blast
  qed
  have d: "distinct (?C @ ms)" using dC dm nb unfolding distinct_append ms setC by blast
  have new: "set (?C @ ms) = {e \<in> W. ?floor \<le> position_key e \<and> beyond a (position_key e) \<and> \<not> beyond ?b (position_key e)}"
    unfolding set_append setC ms using lf CW nb unfolding logs_fit_def by blast
  have "in_step chain (get_all_addresses r) cursor handed ?b src'"
    by (rule in_step_joined [OF c i ba refilled_trans [OF rf1 rf2] d new [unfolded W_def]])
  moreover have "pending_round header W ?b p m (ks @ map key_of ms) f q'"
  proof (rule next_round [OF r q'])
    fix e assume e: "e \<in> W" "key_of e \<in> set (ks @ map key_of ms)"
    show "\<not> beyond ?b (position_key e)"
    proof (cases "key_of e \<in> key_of ` set ms")
      case True
      then have "e \<in> set ms" using watched_apart(2) [OF c] e(1) unfolding ms W_def by blast
      then show ?thesis using nb ms by blast
    next
      case False
      then show ?thesis using us e by (auto simp: unseen_def)
    qed
  qed
  moreover have "ws_topics src' = ws_topics src \<and> ws_fill_floor src' = ?floor" using rf2 by (auto simp: refilled_def)
  moreover have "ws_fill rpc (wp_heads poll) (wp_filled_at poll) r (ws_drain now (src, q)) = Some (src', q')"
    unfolding dr using fl by (simp add: ws_fill_def take_gaps_def)
  ultimately show ?thesis by blast
qed

lemma turn_ok:
  fixes src :: ws_source
  assumes s: "serves rpc chain" and live: "live r" and c: "ordered_chain chain" and hd: "turn_heads chain poll"
    and i: "in_step chain (get_all_addresses r) cursor handed a src"
    and r: "pending_round (rpc_header rpc) (watched chain (get_all_addresses r) (ws_topics src)) a p m ks f q"
  shows "\<exists>src' q' ks' ob. ws_turn rpc poll r (src, q) = Some ((src', q'), ob) \<and>
    ws_topics src' = ws_topics src \<and> ws_fill_floor src' = ws_fill_floor src \<and>
    pending_round (rpc_header rpc) (watched chain (get_all_addresses r) (ws_topics src)) (fp_last_forwarded f) p m ks' f q' \<and>
    (case ob of
       None \<Rightarrow> in_step chain (get_all_addresses r) cursor handed (fp_last_forwarded f) src'
     | Some b \<Rightarrow> \<exists>ls. eb_events b = map (dated rpc r) ls \<and> eb_mode b \<noteq> PendingMode \<and>
         in_step chain (get_all_addresses r) cursor (handed @ ls) (fp_last_forwarded f) src')"
proof -
  obtain src' q' ks' where fl: "ws_fill rpc (wp_heads poll) (wp_filled_at poll) r (ws_drain (wp_drained_at poll) (src, q)) = Some (src', q')"
    and i': "in_step chain (get_all_addresses r) cursor handed (fp_last_forwarded f) src'"
    and r': "pending_round (rpc_header rpc) (watched chain (get_all_addresses r) (ws_topics src)) (fp_last_forwarded f) p m ks' f q'"
    and t: "ws_topics src' = ws_topics src" "ws_fill_floor src' = ws_fill_floor src"
    using turn_fills [OF s live c hd i r] by blast
  obtain st ob where tr: "take_ready (wp_taken_at poll) (ws_settler src') = (st, ob)" by fastforce
  have inv: "settler_inv st" using take_ready_inv [OF _ tr] i' by (simp add: in_step_def)
  let ?src = "src'\<lparr>ws_settler := st\<rparr>"
  have run: "ws_turn rpc poll r (src, q) = Some ((?src, q'),
      map_option (settled_batch rpc (known_block_times q') r (ws_apply_only_through src')) ob)"
    by (simp add: ws_turn_def fl ws_take_def tr)
  show ?thesis
  proof (cases ob)
    case None
    have "in_step chain (get_all_addresses r) cursor handed (fp_last_forwarded f) ?src"
      using i' take_ready_view(2) [OF tr [unfolded None]] by simp
    then show ?thesis unfolding run using None t r' by auto
  next
    case (Some b)
    have "known_true (rpc_header rpc) (known_block_times q')"
      using r' by (simp add: pending_round_def queue_ok_def known_block_times_def)
    then have "eb_events (settled_batch rpc (known_block_times q') r (ws_apply_only_through src') b) = map (dated rpc r) (st_logs b)"
      by (simp add: settled_batch_def enrich_dated [OF live])
    moreover have "in_step chain (get_all_addresses r) cursor (handed @ st_logs b) (fp_last_forwarded f) ?src"
      using i' inv take_ready_view(1) [OF tr [unfolded Some]] by (simp add: in_step_def)
    moreover have "eb_mode (settled_batch rpc (known_block_times q') r (ws_apply_only_through src') b) \<noteq> PendingMode"
      by (simp add: settled_batch_def)
    ultimately show ?thesis unfolding run using Some t r' by auto
  qed
qed

section \<open>The updater over the websocket source\<close>

text \<open>
  A turn with what its feed met since the one before, and the start of the updater (\<^verbatim>\<open>start\<close> of
  \<^verbatim>\<open>src/collector/unified_pool_updater.rs\<close>), whose bootstrap runs while the feed meets \<open>h\<close>.
\<close>

definition fed_turn ::
    "rpc \<Rightarrow> feed_history list \<times> ws_poll \<Rightarrow> registry \<Rightarrow> ws_source \<times> feed_progress \<times> event_queue \<Rightarrow>
     ((ws_source \<times> feed_progress \<times> event_queue) \<times> event_batch option) option" where
  "fed_turn rpc = (\<lambda>(h, poll) r (src, f, q).
     (case feed_run h (f, q) of
        (f, q) \<Rightarrow>
          (case ws_turn rpc poll r (src, q) of
             None \<Rightarrow> None
           | Some ((src, q), batch) \<Rightarrow> Some ((src, f, q), batch))))"

definition fed_start ::
    "rpc \<Rightarrow> ws_boot \<Rightarrow> feed_history list \<Rightarrow> updater_env \<Rightarrow> ((feed_history list \<times> ws_poll) \<times> u64 \<times> nat) list \<Rightarrow>
     (ws_source \<times> feed_progress \<times> event_queue) updater \<Rightarrow> (ws_source \<times> feed_progress \<times> event_queue) updater res option" where
  "fed_start rpc w h env ps u =
     (case up_source u of
        (src, f, q) \<Rightarrow>
          (case bootstrap rpc (w\<lparr>wb_arrivals := \<lambda>q. snd (feed_run h (f, q))\<rparr>) (up_registry u) (src, q) of
             None \<Rightarrow> None
           | Some (Inl e) \<Rightarrow> Some (Err e)
           | Some (Inr (r, src, q')) \<Rightarrow>
               updater_run (fed_turn rpc) env ps (u\<lparr>up_registry := r, up_source := (src, fst (feed_run h (f, q)), q')\<rparr>)))"

lemma in_step_mined:
  assumes "ordered_chain chain" and "in_step chain as cursor handed b src" and "l \<in> set handed"
  shows "mined l"
proof -
  have "l \<in> set (filter (reached (ws_fill_floor src) b) (after_cursor chain as (ws_topics src) cursor))"
    using assms(2,3) by (metis in_step_def in_set_conv_decomp Un_iff set_append)
  then show ?thesis using after_cursor_set [OF assms(1)] watched_log(1) [OF assms(1)] by auto
qed

lemma run_in_step:
  assumes s: "serves rpc chain" and c: "ordered_chain chain" and it: "\<And>gs. mset (ue_iteration env gs) = mset gs"
    and live: "live r"
  defines "as \<equiv> get_all_addresses r"
  assumes "applied r (map (dated rpc r) handed) (up_registry u)"
    and "up_source u = (src, f, q)" and "ws_topics src = ts" and "ws_fill_floor src = floor" and "in_step chain as cursor handed a src"
    and "pending_round (rpc_header rpc) (watched chain as ts) a p m ks f q"
    and "follows (rpc_header rpc) (watched chain as ts) p m (concat (map (fst \<circ> fst) ps))"
    and "\<forall>x \<in> set ps. turn_heads chain (snd (fst x))"
  shows "\<exists>u' handed' src' f' q'. updater_run (fed_turn rpc) env ps u = Some (Ok u') \<and> up_source u' = (src', f', q') \<and>
    applied r (map (dated rpc r) handed') (up_registry u') \<and> ws_topics src' = ts \<and> ws_fill_floor src' = floor \<and>
    in_step chain as cursor handed' (if ps = [] then a else fp_last_forwarded f') src'"
  using assms(6-)
proof (induction ps arbitrary: u handed src f q a p m ks)
  case Nil
  then show ?case by auto
next
  case (Cons x ps)
  obtain h poll now millis where x: "x = ((h, poll), now, millis)" by (cases x) auto
  obtain p' m' where e: "history_end p m h = (p', m')" by fastforce
  have fo: "follows (rpc_header rpc) (watched chain as ts) p m h"
    "follows (rpc_header rpc) (watched chain as ts) p' m' (concat (map (fst \<circ> fst) ps))"
    using Cons.prems(7) e by (simp_all add: x follows_append comp_def)
  have hd: "turn_heads chain poll" "\<forall>x \<in> set ps. turn_heads chain (snd (fst x))" using Cons.prems(8) by (simp_all add: x)
  from feed_round [OF c Cons.prems(6) fo(1) e] obtain f1 q1 new where fr: "feed_run h (f, q) = (f1, q1)"
    and r1: "pending_round (rpc_header rpc) (watched chain as ts) a p' m' (ks @ map key_of new) f1 q1" by blast
  note al = applied_live [OF Cons.prems(1) live]
  note ids = same_ids [OF al(2)]
  have i: "in_step chain (get_all_addresses (up_registry u)) cursor handed a src"
    and r1': "pending_round (rpc_header rpc) (watched chain (get_all_addresses (up_registry u)) (ws_topics src)) a p' m' (ks @ map key_of new) f1 q1"
    using Cons.prems(3,5) r1 by (simp_all add: ids as_def)
  obtain src2 q2 ks2 ob where t: "ws_turn rpc poll (up_registry u) (src, q1) = Some ((src2, q2), ob)" "ws_topics src2 = ws_topics src" "ws_fill_floor src2 = ws_fill_floor src"
    and r2: "pending_round (rpc_header rpc) (watched chain (get_all_addresses (up_registry u)) (ws_topics src)) (fp_last_forwarded f1) p' m' ks2 f1 q2"
    and ob: "case ob of
       None \<Rightarrow> in_step chain (get_all_addresses (up_registry u)) cursor handed (fp_last_forwarded f1) src2
     | Some b \<Rightarrow> \<exists>ls. eb_events b = map (dated rpc (up_registry u)) ls \<and> eb_mode b \<noteq> PendingMode \<and>
         in_step chain (get_all_addresses (up_registry u)) cursor (handed @ ls) (fp_last_forwarded f1) src2"
    using turn_ok [OF s al(1) c hd(1) i r1'] by blast
  have r2': "pending_round (rpc_header rpc) (watched chain as ts) (fp_last_forwarded f1) p' m' ks2 f1 q2" and t2: "ws_topics src2 = ts" "ws_fill_floor src2 = floor"
    using r2 t(2,3) Cons.prems(3,4) by (simp_all add: ids as_def)
  have ft: "fed_turn rpc (h, poll) (up_registry u) (src, f, q) = Some ((src2, f1, q2), ob)"
    by (simp add: fed_turn_def fr t(1))
  show ?case
  proof (cases ob)
    case None
    let ?u = "u\<lparr>up_source := (src2, f1, q2)\<rparr>"
    have i2: "in_step chain as cursor handed (fp_last_forwarded f1) src2" using ob None by (simp add: ids as_def)
    have run: "updater_run (fed_turn rpc) env (x # ps) u = updater_run (fed_turn rpc) env ps ?u"
      using ft Cons.prems(2) None by (simp add: x)
    have "applied r (map (dated rpc r) handed) (up_registry ?u)" using Cons.prems(1) by simp
    from Cons.IH [OF this _ t2 i2 r2' fo(2) hd(2)] show ?thesis unfolding run by (cases "ps = []") auto
  next
    case (Some b)
    then obtain ls where b: "eb_events b = map (dated rpc r) ls" "eb_mode b \<noteq> PendingMode"
      "in_step chain as cursor (handed @ ls) (fp_last_forwarded f1) src2"
      using ob by (auto simp: ids as_def)
    let ?u = "u\<lparr>up_source := (src2, f1, q2)\<rparr>"
    have mi: "\<forall>l \<in> set (eb_events b). mined l" using in_step_mined [OF c b(3)] by (auto simp: b(1) stamped_mined)
    have "bt_inv (reg_pools (up_registry ?u))" using al(1) by (simp add: live_def)
    from handle_batch_registry [OF this mi it, of now millis] obtain v where
      v: "handle_batch env now millis b ?u = Ok v" "up_source v = (src2, f1, q2)"
        "reg_pools (up_registry v) = reg_pools (fold (apply_at now) (eb_events b) (up_registry u))"
      using b(2) by auto
    have "applied (up_registry u) (map (dated rpc r) ls) (up_registry v)"
      by (rule applied_clock [of _ "\<lambda>_. now"]) (simp add: v(3) b(1))
    from applied_trans [OF Cons.prems(1) this] have ap: "applied r (map (dated rpc r) (handed @ ls)) (up_registry v)" by simp
    have run: "updater_run (fed_turn rpc) env (x # ps) u = updater_run (fed_turn rpc) env ps v"
      using ft Cons.prems(2) Some v(1) by (simp add: x)
    from Cons.IH [OF ap v(2) t2 b(3) r2' fo(2) hd(2)] show ?thesis unfolding run using v(2) by (cases "ps = []") auto
  qed
qed

section \<open>Where the start goes wrong\<close>

text \<open>
  With nothing queued and the node's head still at the cursor, the floor is the first position of the cursor's
  own block, whose logs the registry already has: the first gap, filled from the floor on, brings them back.
\<close>

lemma head_block_fetched_again:
  fixes src :: ws_source
  assumes "serves rpc chain" and "live r" and "ordered_chain chain" and "queue_ok header q []"
    and "head_passes heads (fst before)" and "cursor < fst before"
    and "l \<in> set (chain cursor)" and "watches (get_all_addresses r) (ws_topics src) l"
  shows "\<exists>q' missed. fetch_gap rpc heads r (src\<lparr>ws_fill_floor := first_position cursor []\<rparr>)
      \<lparr>gap_after = None, gap_before = before\<rparr> q = Some (q', missed) \<and> l \<in> set missed"
proof -
  let ?src = "src\<lparr>ws_fill_floor := first_position cursor []\<rparr>" and ?g = "\<lparr>gap_after = None, gap_before = before\<rparr>"
  have h: "head_passes heads (fst (gap_before ?g))" using assms(5) by simp
  have f: "\<forall>e \<in> watched chain (get_all_addresses r) (ws_topics ?src). in_gap (ws_fill_floor ?src) ?g (position_key e) \<longrightarrow> key_of e \<notin> set []"
    by simp
  obtain b t i where p: "position_key l = (b, t, i)" by (cases "position_key l")
  have "b = cursor" using chain_log(4) [OF assms(3,7)] by (simp add: p)
  moreover have "position_key l < before" using assms(6) p calculation by (cases before) simp
  ultimately have "in_gap (ws_fill_floor ?src) ?g (position_key l)"
    by (simp add: in_gap_def first_position_def p)
  moreover have "l \<in> watched chain (get_all_addresses r) (ws_topics ?src)" using assms(7,8) by (auto simp: watched_def)
  ultimately show ?thesis
    using fetch_gap_exact [OF assms(1-3) h assms(4) f] by blast
qed

text \<open>
  A queued log is applied whatever its block: one of a block the cursor has passed a second time, with the
  cursor moved back to it, and one a reorganisation retracted.
\<close>

lemma queued_log_applied_again:
  assumes "wb_latest w = Ok latest" and "q_channel q = [l]" and "position_of l = Some p"
    and "fst p \<le> reg_last_processed_block r" and "reg_last_processed_block r \<noteq> - 1"
    and "q_gaps (wb_arrivals w (q\<lparr>q_channel := []\<rparr>)) = []" and "get_addresses_by_type r TypeLB = []"
  shows "\<exists>src' q'. bootstrap rpc w r (src, q) =
    Some (Ok (set_last_processed_block (fst p) (apply_at (wb_clock w l) l r), src', q'))"
proof -
  have "uint (reg_last_processed_block r) + 1 < 2 ^ 64"
    using assms(5) uint_less [of "reg_last_processed_block r"] uint_max [where 'n = 64] by (simp add: word_eq_uint)
  then have "\<not> saturating_add (reg_last_processed_block r) 1 \<le> fst p"
    using assms(4) by (simp add: word_le_def uint_saturating_add)
  then have n: "catchup_batches (reg_last_processed_block r) k (fst p) = []" for k
    by (simp add: catchup_batches_def catchup_loop.simps)
  have b: "log_block_number l = Some (fst p)" using assms(3) by (auto simp: position_of_def split: option.splits)
  show ?thesis
    using assms n b
    by (simp add: bootstrap_def get_all_available_events_def first_position_def fill_bootstrap_gaps_def take_gaps_def
        enrich_if_lb_pools_present_def max_block_def Let_def)
qed

section \<open>Properties\<close>


text \<open>
  A chain with a log in each of the blocks 4 to 7, and a node that fails every first attempt. The feed receives
  the log of block 5, overflows on the one of block 6 and receives the one of block 7.
\<close>

definition short_chain :: "u64 \<Rightarrow> chain_log list" where
  "short_chain n = (if n \<in> {4, 5, 6, 7} then [sample_log (ucast n) n 0] else [])"

definition eager_rpc :: rpc where
  "eager_rpc =
     \<lparr>rpc_get_logs = (\<lambda>f k. if k = 1 then Some (Err ChannelClosed) else
        Some (Ok (case (lf_from f, lf_to f) of
          (Number a, Number b) \<Rightarrow> filter (watches (lf_addresses f) (lf_topics f)) (logs_between short_chain [uint a..uint b])
        | _ \<Rightarrow> []))),
      rpc_header = (\<lambda>n k. Ok (Some (1700000000 + n)))\<rparr>"

definition passing_heads :: "gap \<Rightarrow> nat \<Rightarrow> u64 attempts" where
  "passing_heads g k n = Some (Ok 9)"

definition eager_boot :: ws_boot where
  "eager_boot = \<lparr>wb_latest = Ok 9, wb_clock = (\<lambda>_. 1700000009), wb_times = (\<lambda>_. []), wb_heads = passing_heads,
     wb_arrivals = (\<lambda>q. q)\<rparr>"

definition eager_poll :: ws_poll where
  "eager_poll = \<lparr>wp_drained_at = 100, wp_heads = passing_heads, wp_filled_at = (\<lambda>_. 101), wp_taken_at = 120\<rparr>"

lemma short_chain_log: "l \<in> set (short_chain n) \<longleftrightarrow> n \<in> {4, 5, 6, 7} \<and> l = sample_log (ucast n) n 0"
  by (auto simp: short_chain_def)

lemma short_chain_ordered: "ordered_chain short_chain"
  by (auto simp: ordered_chain_def short_chain_log mined_def sample_log_def key_of_def short_chain_def split: if_splits)

lemma short_chain_served: "serves eager_rpc short_chain" "patient eager_rpc"
proof -
  show "serves eager_rpc short_chain"
    unfolding serves_def answers_def
    by (intro allI impI exI [of _ 1]) (simp add: fetch_events_def eager_rpc_def failed_def)
  show "patient eager_rpc" by (simp add: patient_def eager_rpc_def)
qed

lemma short_chain_heads: "short_chain n \<noteq> [] \<Longrightarrow> head_passes (passing_heads g) n"
  by (auto simp: head_passes_def answers_def passing_heads_def short_chain_def split: if_splits intro!: exI [of _ 0])


end
