(* ===== verification/Fetch_Base.thy ===== *)
theory Fetch_Base
  imports BTree_Map
begin

text \<open>
  What the fetchers share: reading contracts through multicalls. A multicall that tolerates failures answers
  every call with a value or \<open>None\<close>; one that does not either fails as a whole or answers every call, so its
  answer is a function of the call. Long lists of calls go out in chunks. The lemmas say what the
  chunked reads bring together when every answer is the chain's.
\<close>

section \<open>Answers\<close>

type_synonym token_lookup = "address \<Rightarrow> (address \<times> u8) res"

type_synonym ('k, 'v) multicall = "'k list \<Rightarrow> ('k \<Rightarrow> 'v) res"

definition call_ok :: "string \<Rightarrow> 'a option \<Rightarrow> 'a res" where
  "call_ok name answer = (case answer of None \<Rightarrow> Err (CallFailed name) | Some x \<Rightarrow> Ok x)"

definition unwrap_or :: "'a option \<Rightarrow> 'a \<Rightarrow> 'a" where
  "unwrap_or x d = (case x of None \<Rightarrow> d | Some v \<Rightarrow> v)"

lemma call_ok_Ok [simp]: "call_ok name a = Ok x \<longleftrightarrow> a = Some x"
  by (cases a) (simp_all add: call_ok_def)

text \<open>\<^verbatim>\<open>try_join_all\<close>: all the values, or an error.\<close>

fun try_join_all :: "'a res list \<Rightarrow> 'a list res" where
  "try_join_all [] = Ok []"
| "try_join_all (x # xs) = and_then x (\<lambda>v. and_then (try_join_all xs) (\<lambda>vs. Ok (v # vs)))"

lemma try_join_all_Ok: "try_join_all xs = Ok vs \<longleftrightarrow> xs = map Ok vs"
  by (induction xs arbitrary: vs) (auto simp: and_then_Ok_iff)

section \<open>Chunks\<close>

text \<open>\<^verbatim>\<open>chunks(n)\<close> for a positive size.\<close>

fun chunks :: "nat \<Rightarrow> 'a list \<Rightarrow> 'a list list" where
  "chunks n [] = []"
| "chunks n (x # xs) = (x # take (n - 1) xs) # chunks n (drop (n - 1) xs)"

lemma chunks_concat [simp]: "concat (chunks n xs) = xs"
  by (induction n xs rule: chunks.induct) simp_all

lemma chunks_subset: "c \<in> set (chunks n xs) \<Longrightarrow> set c \<subseteq> set xs"
  using chunks_concat [of n xs] by (metis UN_upper set_concat)

lemma chunks_size: "0 < n \<Longrightarrow> c \<in> set (chunks n xs) \<Longrightarrow> c \<noteq> [] \<and> length c \<le> n"
  by (induction n xs rule: chunks.induct) auto

text \<open>Chunk after chunk: the values read, in order; or each value put into a map.\<close>

fun gather :: "('k, 'v) multicall \<Rightarrow> 'k list list \<Rightarrow> 'v list res" where
  "gather call [] = Ok []"
| "gather call (c # cs) = and_then (call c) (\<lambda>answer. and_then (gather call cs) (\<lambda>vs. Ok (map answer c @ vs)))"

fun read_each :: "('k, 'v) multicall \<Rightarrow> ('k \<Rightarrow> 'v \<Rightarrow> 'm \<Rightarrow> 'm) \<Rightarrow> 'k list list \<Rightarrow> 'm \<Rightarrow> 'm res" where
  "read_each call put [] m = Ok m"
| "read_each call put (c # cs) m =
     and_then (call c) (\<lambda>answer. read_each call put cs (fold (\<lambda>k. put k (answer k)) c m))"

text \<open>A multicall is honest when what it answers is what the contract holds.\<close>

definition honest :: "('k, 'v) multicall \<Rightarrow> ('k \<Rightarrow> 'v) \<Rightarrow> bool" where
  "honest call f \<longleftrightarrow> (\<forall>ks answer. call ks = Ok answer \<longrightarrow> (\<forall>k \<in> set ks. answer k = f k))"

lemma gather_honest: "honest call f \<Longrightarrow> gather call cs = Ok vs \<Longrightarrow> vs = map f (concat cs)"
  by (induction cs arbitrary: vs) (auto simp: honest_def)

lemma read_each_honest:
  assumes "honest call f"
  shows "read_each call put cs m = Ok m' \<Longrightarrow> m' = fold (\<lambda>k. put k (f k)) (concat cs) m"
proof (induction cs arbitrary: m)
  case (Cons c cs)
  then obtain answer where a: "call c = Ok answer"
    "read_each call put cs (fold (\<lambda>k. put k (answer k)) c m) = Ok m'" by auto
  have "fold (\<lambda>k. put k (answer k)) c m = fold (\<lambda>k. put k (f k)) c m"
    using assms a(1) by (intro fold_cong) (auto simp: honest_def)
  then show ?case using Cons.IH [of "fold (\<lambda>k. put k (f k)) c m"] a(2) by simp
qed simp

text \<open>A node that always answers.\<close>

lemma gather_answers: "(\<And>ks. call ks = Ok f) \<Longrightarrow> gather call cs = Ok (map f (concat cs))"
  by (induction cs) simp_all

lemma read_each_answers:
  "(\<And>ks. ks \<in> set cs \<Longrightarrow> call ks = Ok f) \<Longrightarrow> read_each call put cs m = Ok (fold (\<lambda>k. put k (f k)) (concat cs) m)"
  by (induction cs arbitrary: m) simp_all

section \<open>Maps filled key by key\<close>

definition put_if :: "('v \<Rightarrow> 'w option) \<Rightarrow> 'k::linorder \<Rightarrow> 'v \<Rightarrow> ('k, 'w) btree \<Rightarrow> ('k, 'w) btree" where
  "put_if keep k v m = (case keep v of None \<Rightarrow> m | Some w \<Rightarrow> bt_insert k w m)"

lemma put_all:
  "bt_inv m \<Longrightarrow> bt_inv (fold (\<lambda>k. put_if keep k (f k)) ks m) \<and>
     bt_get (fold (\<lambda>k. put_if keep k (f k)) ks m) j =
       (if j \<in> set ks \<and> keep (f j) \<noteq> None then keep (f j) else bt_get m j)"
proof (induction ks arbitrary: m)
  case (Cons k ks)
  then show ?case by (cases "keep (f k)") (auto simp: put_if_def bt_simps)
qed simp

section \<open>Bitmaps\<close>

text \<open>The positions of the set bits of a 256-bit word, ascending.\<close>

definition bit_positions :: "u256 \<Rightarrow> nat list" where
  "bit_positions w = filter (\<lambda>b. w AND push_bit b 1 \<noteq> 0) [0..<256]"

lemma and_push_bit_one: "w AND push_bit b 1 \<noteq> 0 \<longleftrightarrow> bit w b" for w :: "'n::len word"
proof -
  have "w AND push_bit b 1 = (if bit w b then push_bit b 1 else 0)"
    by (rule bit_word_eqI) (auto simp: bit_simps)
  moreover have "bit w b \<Longrightarrow> push_bit b (1 :: 'n word) \<noteq> 0"
    using bit_imp_le_length [of w b] by (auto simp: bit_eq_iff bit_simps)
  ultimately show ?thesis by auto
qed

lemma and_power_of_two: "w AND 2 ^ b \<noteq> 0 \<longleftrightarrow> bit w b" for w :: "'n::len word"
  using and_push_bit_one [of w b] by simp

lemma bit_positions_set: "b \<in> set (bit_positions w) \<longleftrightarrow> bit w b"
  using bit_imp_le_length [of w b] by (auto simp: bit_positions_def and_power_of_two)

lemma bit_positions_256: "b \<in> set (bit_positions w) \<Longrightarrow> b < 256"
  by (simp add: bit_positions_def)

end
