(* ===== verification/V2_Fetch.thy ===== *)
theory V2_Fetch
  imports V2_Quotes V2_Factories Fetch_Base
begin

text \<open>
  \<^verbatim>\<open>src/v2/fetcher.rs\<close>: a V2 pool read from its contracts, and above all its fee: back-solved from the pair's
  own quotes, read in one of three conventions, or looked up. The node is a parameter: what it answers to
  each call of the fetch. In a multicall that tolerates failures every call has an answer or \<open>None\<close>; an
  \<open>Err\<close> is the request itself failing.
\<close>

section \<open>What the node answers\<close>

record v2_reads =
  vr_token0 :: "address option"
  vr_token1 :: "address option"
  vr_reserves112 :: "(112 word \<times> 112 word) option"
  vr_factory :: "address option"
  vr_fee :: "u256 option"
  vr_reserves256 :: "(u256 \<times> u256) option"
  vr_stable :: "bool option"
  vr_get_fee :: "u256 option"
  vr_is_stable :: "bool option"
  vr_swap_fee :: "u32 option"

type_synonym factory_fee_reads = "u256 option \<times> u256 option \<times> u256 option"

record v2_node =
  v2n_reads :: "v2_reads res"
  v2n_amounts_out :: "(u256 \<Rightarrow> address \<Rightarrow> u256 option) res"
  v2n_storage :: "u256 \<Rightarrow> u256 res"
  v2n_factory_fees :: "address \<Rightarrow> factory_fee_reads res"
  v2n_aero_pairs :: "(address \<Rightarrow> address option) res"
  v2n_token :: token_lookup

section \<open>The fee a pair reports\<close>

definition FACTORY_STORAGE_SLOT :: u256 where
  "FACTORY_STORAGE_SLOT = 0xb"

definition GET_FEE_MULTIPLIER :: u256 where
  "GET_FEE_MULTIPLIER = 100"

definition GET_FEE_MAX :: u256 where
  "GET_FEE_MAX = 10000"

definition REVERSE_FEE_MAX :: u256 where
  "REVERSE_FEE_MAX = 5000"

definition FEE_BASIS :: u256 where
  "FEE_BASIS = 1000000"

definition MAX_SANE_FEE :: u256 where
  "MAX_SANE_FEE = 100000"

definition normalise_reported_fee :: "u256 \<Rightarrow> u256" where
  "normalise_reported_fee raw =
     (if raw > GET_FEE_MAX then raw
      else if raw > REVERSE_FEE_MAX then (GET_FEE_MAX - raw) * GET_FEE_MULTIPLIER
      else raw * GET_FEE_MULTIPLIER)"

section \<open>The fee a pair charges\<close>

text \<open>The closure \<^verbatim>\<open>solve\<close>: the inverse of the constant-product curve at one probe.\<close>

definition solve_fee :: "u256 \<Rightarrow> u256 \<Rightarrow> u256 \<Rightarrow> u256 \<Rightarrow> u256 option res" where
  "solve_fee reserve0 reserve1 ain out =
     (if ain = 0 \<or> out = 0 \<or> out \<ge> reserve1 then Ok None
      else let denominator = ain * (reserve1 - out)
           in and_then (udiv (out * reserve0 * FEE_BASIS + denominator div 2) denominator) (\<lambda>one_minus_f.
              Ok (checked_sub FEE_BASIS one_minus_f)))"

text \<open>\<^verbatim>\<open>?\<close> on an option inside a function that returns one.\<close>

fun if_some :: "'a option res \<Rightarrow> ('a \<Rightarrow> 'b option res) \<Rightarrow> 'b option res" where
  "if_some (Inl e) f = Inl e"
| "if_some (Inr None) f = Inr None"
| "if_some (Inr (Some x)) f = f x"

definition calibrate_v2_fee :: "v2_node \<Rightarrow> address \<Rightarrow> u256 \<Rightarrow> u256 \<Rightarrow> u256 option res" where
  "calibrate_v2_fee node token0 reserve0 reserve1 =
     (if reserve0 = 0 \<or> reserve1 = 0 then Ok None
      else let probe_low = reserve0 div 2; probe_high = reserve0 * 4
           in case v2n_amounts_out node of
                Inl _ \<Rightarrow> Ok None
              | Inr quote \<Rightarrow>
                  if_some (Ok (quote probe_low token0)) (\<lambda>out_low.
                  if_some (solve_fee reserve0 reserve1 probe_low out_low) (\<lambda>low.
                  if_some (Ok (quote probe_high token0)) (\<lambda>out_high.
                  if_some (solve_fee reserve0 reserve1 probe_high out_high) (\<lambda>high.
                    if low \<noteq> high \<or> low = 0 \<or> low > MAX_SANE_FEE then Ok None else Ok (Some low))))))"

section \<open>The fee a factory sets\<close>

definition get_v2_fee_from_factory :: "v2_node \<Rightarrow> address \<Rightarrow> u256 option" where
  "get_v2_fee_from_factory node factory =
     (case v2n_factory_fees node factory of
        Inl _ \<Rightarrow> None
      | Inr (get_fee_pool, pair_fee, get_fee_only_pair) \<Rightarrow>
          (case get_fee_pool of
             Some fee \<Rightarrow> Some (fee * GET_FEE_MULTIPLIER)
           | None \<Rightarrow>
               (case pair_fee of
                  Some fee \<Rightarrow> Some (fee * GET_FEE_MULTIPLIER)
                | None \<Rightarrow> map_option (\<lambda>fee. fee * GET_FEE_MULTIPLIER) get_fee_only_pair)))"

text \<open>The loop over the answers of the Aerodrome-style factories: the first that names the pair and has a fee.\<close>

fun find_aero_fee :: "v2_node \<Rightarrow> (address \<Rightarrow> address option) \<Rightarrow> address \<Rightarrow> address list \<Rightarrow> u256 option" where
  "find_aero_fee node pair_of pair [] = None"
| "find_aero_fee node pair_of pair (f # fs) =
     (if pair_of f = Some pair then
        (case get_v2_fee_from_factory node f of
           Some fee \<Rightarrow> Some fee
         | None \<Rightarrow> find_aero_fee node pair_of pair fs)
      else find_aero_fee node pair_of pair fs)"

text \<open>The configuration's overrides are keyed by text; \<^verbatim>\<open>to_string().to_lowercase()\<close> of an address.\<close>

definition lowercase :: "string \<Rightarrow> string" where
  "lowercase s = map (\<lambda>c. if of_char c \<ge> (65 :: nat) \<and> of_char c \<le> (90 :: nat) then char_of (of_char c + 32 :: nat) else c) s"

definition address_string :: "address \<Rightarrow> string" where
  "address_string a = ''0x'' @ map (\<lambda>i. ''0123456789abcdef'' ! unat (drop_bit (4 * i) a AND 15)) (rev [0..<40])"

definition aero_factories :: "u64 \<Rightarrow> address list \<Rightarrow> address list" where
  "aero_factories chain configured =
     configured @ filter (\<lambda>a. a \<notin> set configured) (get_aero_factories_by_chain_id chain)"

definition aero_fee :: "v2_node \<Rightarrow> u64 \<Rightarrow> address list \<Rightarrow> address \<Rightarrow> u256 res" where
  "aero_fee node chain configured pair =
     and_then (v2n_aero_pairs node) (\<lambda>pair_of.
     case find_aero_fee node pair_of pair (aero_factories chain configured) of
       Some fee \<Rightarrow> Ok fee
     | None \<Rightarrow> Err (FeeUndetermined pair))"

definition looked_up_fee ::
    "v2_node \<Rightarrow> u64 \<Rightarrow> (string \<times> u64) list \<Rightarrow> address list \<Rightarrow> address \<Rightarrow> address \<Rightarrow> u256 res" where
  "looked_up_fee node chain factory_to_fee configured pair factory =
     and_then (if factory \<noteq> 0 then Ok factory
               else and_then (v2n_storage node FACTORY_STORAGE_SLOT) to_uint) (\<lambda>factory.
     case find (\<lambda>(k, _). lowercase k = address_string factory) factory_to_fee of
       Some (_, fee) \<Rightarrow> Ok (ucast fee)
     | None \<Rightarrow>
         (case get_v2_factory_fee_by_chain_id chain factory of
            Inr fee \<Rightarrow> Ok fee
          | Inl _ \<Rightarrow>
              (case get_v2_fee_from_factory node factory of
                 Some fee \<Rightarrow> Ok fee
               | None \<Rightarrow> aero_fee node chain configured pair)))"

section \<open>The pool\<close>

definition reads_fee_on_chain :: "v2_reads \<Rightarrow> bool" where
  "reads_fee_on_chain reads \<longleftrightarrow> vr_fee reads \<noteq> None \<or> vr_get_fee reads \<noteq> None \<or> vr_swap_fee reads \<noteq> None"

definition read_reserves :: "v2_reads \<Rightarrow> (u256 \<times> u256) res" where
  "read_reserves reads =
     (case vr_reserves112 reads of
        Some (r0, r1) \<Rightarrow> Ok (ucast r0, ucast r1)
      | None \<Rightarrow> call_ok ''getReserves'' (vr_reserves256 reads))"

definition read_stable :: "v2_reads \<Rightarrow> bool" where
  "read_stable reads =
     (case vr_stable reads of Some s \<Rightarrow> s | None \<Rightarrow> (case vr_is_stable reads of Some s \<Rightarrow> s | None \<Rightarrow> False))"

definition determine_fee ::
    "v2_node \<Rightarrow> u64 \<Rightarrow> (string \<times> u64) list \<Rightarrow> address list \<Rightarrow> address \<Rightarrow> v2_reads \<Rightarrow> u256 option \<Rightarrow> u256 res" where
  "determine_fee node chain factory_to_fee configured pair reads calibrated =
     (case vr_fee reads of
        Some fee \<Rightarrow> Ok (unwrap_or calibrated (normalise_reported_fee fee))
      | None \<Rightarrow>
          (case vr_get_fee reads of
             Some fee \<Rightarrow> Ok (unwrap_or calibrated (fee * GET_FEE_MULTIPLIER))
           | None \<Rightarrow>
               (case vr_swap_fee reads of
                  Some fee \<Rightarrow> Ok (unwrap_or calibrated (ucast fee * GET_FEE_MULTIPLIER))
                | None \<Rightarrow> looked_up_fee node chain factory_to_fee configured pair
                            (unwrap_or (vr_factory reads) 0))))"

definition fetch_v2_pool ::
    "v2_node \<Rightarrow> u64 \<Rightarrow> (string \<times> u64) list \<Rightarrow> address list \<Rightarrow> u64 \<Rightarrow> address \<Rightarrow> v2_pool res" where
  "fetch_v2_pool node chain factory_to_fee configured now pair =
     and_then (v2n_reads node) (\<lambda>reads.
     and_then (call_ok ''token0'' (vr_token0 reads)) (\<lambda>token0.
     and_then (call_ok ''token1'' (vr_token1 reads)) (\<lambda>token1.
     and_then (read_reserves reads) (\<lambda>(reserve0, reserve1).
     let is_stable = read_stable reads
     in and_then (if reads_fee_on_chain reads \<and> \<not> is_stable
                  then calibrate_v2_fee node token0 reserve0 reserve1 else Ok None) (\<lambda>calibrated.
        and_then (determine_fee node chain factory_to_fee configured pair reads calibrated) (\<lambda>fee.
        if fee > MAX_SANE_FEE then Err (ImplausibleFee fee)
        else let pool_type = (if is_stable then Stable else UniswapV2)
             in and_then (v2n_token node token0) (\<lambda>(token0, decimals0).
                and_then (v2n_token node token1) (\<lambda>(token1, decimals1).
                Ok (v2_new pool_type pair token0 token1 decimals0 decimals1 reserve0 reserve1 fee now)))))))))"

section \<open>Inverting the curve\<close>

text \<open>Whatever the truncation of the quote, the rounded inverse is the fee's complement once the probe's
  denominator \<open>D\<close> is small against the reserves.\<close>

lemma inverse_exact:
  fixes a g r0 r1 :: int
  defines "D \<equiv> r0 * 1000000 + a * g" and "out \<equiv> a * g * r1 div (r0 * 1000000 + a * g)"
  assumes a: "0 < a" and "0 < g" and r0: "0 < r0" and r1: "0 < r1" and big: "2 * (D * D) \<le> a * r1 * (r0 * 1000000)"
  shows "(out * r0 * 1000000 + a * (r1 - out) div 2) div (a * (r1 - out)) = g" and "0 < a * (r1 - out)"
proof -
  define y where "y = a * (r1 - out)"
  define m where "m = a * g * r1 mod D"
  have D: "0 < D" using assms by (simp add: D_def add_pos_pos)
  have o: "out * D = a * g * r1 - m"
    by (simp add: out_def m_def D_def [symmetric] minus_mod_eq_div_mult)
  have m: "0 \<le> m" "m < D" using D by (simp_all add: m_def)
  have x: "out * r0 * 1000000 = g * y - m"
  proof -
    have "out * r0 * 1000000 = out * D - out * (a * g)" by (simp add: D_def algebra_simps)
    then show ?thesis using o by (simp add: y_def algebra_simps)
  qed
  have "y * D = a * r1 * D - a * (out * D)" by (simp add: y_def algebra_simps)
  also have "\<dots> = a * r1 * (r0 * 1000000) + a * m" unfolding o by (simp add: D_def algebra_simps)
  moreover have "0 \<le> a * m" using a m by simp
  ultimately have "2 * (D * D) \<le> y * D" using big by linarith
  then have "2 * D * D \<le> y * D" by simp
  then have y: "2 * D \<le> y" using D by (simp only: mult_le_cancel_right_pos)
  then have h: "D \<le> y div 2" using le_div_int [of 2 D y] by simp
  have "(out * r0 * 1000000 + y div 2) div y = (y div 2 - m + g * y) div y"
    unfolding x by (rule arg_cong [of _ _ "\<lambda>z. z div y"]) simp
  also have "\<dots> = g + (y div 2 - m) div y" using y D by simp
  also have "(y div 2 - m) div y = 0" using h m y D by simp
  finally show "(out * r0 * 1000000 + a * (r1 - out) div 2) div (a * (r1 - out)) = g" by (simp add: y_def)
  show "0 < a * (r1 - out)" using y D y_def by linarith
qed

text \<open>Both probes are large enough when the counter-reserve is.\<close>

lemma probe_large:
  fixes a g r0 r1 :: int
  assumes "0 < g" "g \<le> 1000000" and r: "2 \<le> r0" "13500000 \<le> r1" and a: "a = r0 div 2 \<or> a = r0 * 4"
  defines "D \<equiv> r0 * 1000000 + a * g"
  shows "2 * (D * D) \<le> a * r1 * (r0 * 1000000)" and "0 < a"
proof -
  have h: "r0 \<le> 3 * (r0 div 2)" "2 * (r0 div 2) \<le> r0" using r by presburger+
  show p: "0 < a" using a r h by auto
  have D: "D \<le> (r0 + a) * 1000000" using mult_left_mono [of g 1000000 a] assms p by (simp add: D_def algebra_simps)
  have D0: "0 \<le> D" using p assms by (simp add: D_def)
  have e: "2 * ((r0 + a) * (r0 + a)) * 1000000 \<le> a * r0 * 13500000"
  proof (cases "a = r0 * 4")
    case True
    then show ?thesis by (simp add: algebra_simps)
  next
    case False
    then have "a = r0 div 2" using a by simp
    then have "2 * (r0 + a) \<le> 3 * r0" and "r0 \<le> 3 * a" using h by simp_all
    then have "(2 * (r0 + a)) * (2 * (r0 + a)) \<le> (3 * r0) * (3 * r0)"
      using r p by - (rule mult_mono, simp_all)
    moreover have "(3 * r0) * (3 * r0) \<le> (3 * r0) * (9 * a)"
      using \<open>r0 \<le> 3 * a\<close> r by - (rule mult_left_mono, simp_all)
    ultimately have "(2 * (r0 + a)) * (2 * (r0 + a)) \<le> (3 * r0) * (9 * a)" by (rule order_trans)
    then show ?thesis by (simp add: algebra_simps)
  qed
  have "2 * (D * D) \<le> 2 * (((r0 + a) * 1000000) * ((r0 + a) * 1000000))"
    using D D0 by (intro mult_left_mono mult_mono) simp_all
  also have "\<dots> = 2 * ((r0 + a) * (r0 + a)) * 1000000 * 1000000" by (simp add: algebra_simps)
  also have "\<dots> \<le> a * r0 * 13500000 * 1000000" using e by (intro mult_right_mono) simp_all
  also have "\<dots> = a * r0 * 1000000 * 13500000" by simp
  also have "\<dots> \<le> a * r0 * 1000000 * r1" using r p by (intro mult_left_mono) simp_all
  finally show "2 * (D * D) \<le> a * r1 * (r0 * 1000000)" by (simp add: algebra_simps)
qed

section \<open>The calibrated fee\<close>

lemma fetch_constants [simp]:
  "uint FEE_BASIS = 1000000" "uint MAX_SANE_FEE = 100000" "FEE_BASIS = FEE_DENOMINATOR"
  by (simp_all add: FEE_BASIS_def MAX_SANE_FEE_def FEE_DENOMINATOR_def)

text \<open>One probe of a pair that quotes as the crate does with a given fee.\<close>

lemma solve_fee_exact:
  assumes fee: "uint fee \<le> 100000" and r: "uint r0 < 2 ^ 110" "uint r1 < 2 ^ 110" "2 \<le> uint r0" "13500000 \<le> uint r1"
    and a: "uint a = uint r0 div 2 \<or> uint a = uint r0 * 4" and q: "cp_quote fee a r0 r1 = Ok out"
  shows "solve_fee r0 r1 a out = Ok (Some fee)"
proof -
  define g where "g = 1000000 - uint fee"
  have g: "0 < g" "g \<le> 1000000" using fee by (simp_all add: g_def)
  note l = probe_large [OF g r(3,4) a]
  have a112: "uint a < 2 ^ 112" using a r(1) by auto
  have nz: "r0 \<noteq> 0" "r1 \<noteq> 0" using r by auto
  have o: "uint out = uint a * g * uint r1 div (uint r0 * 1000000 + uint a * g)"
    using cp_quote_exact [of fee a r0 r1] fee a112 nz r q by (auto simp: cp_out_def g_def)
  note e = inverse_exact [OF l(2) g(1) _ _ l(1), folded o]
  have pos: "0 < uint r0" "0 < uint r1" using r by simp_all
  have lt: "out < r1" using q by (auto simp: cp_quote_def Let_def split: if_splits)
  have y: "uint (a * (r1 - out)) = uint a * (uint r1 - uint out)"
    and ab: "uint a * (uint r1 - uint out) \<le> 2 ^ 112 * 2 ^ 112"
  proof -
    have s: "uint (r1 - out) = uint r1 - uint out" using lt by (intro uint_sub_exact) simp
    moreover have "(2::int) ^ 110 \<le> 2 ^ 112" by simp
    ultimately have "uint (r1 - out) \<le> 2 ^ 112" using r(2) uint_ge_0 [of out] by linarith
    then have m: "uint a * uint (r1 - out) \<le> 2 ^ 112 * 2 ^ 112" using a112 by (intro prod_bound) simp_all
    then show "uint a * (uint r1 - uint out) \<le> 2 ^ 112 * 2 ^ 112" by (simp only: s)
    show "uint (a * (r1 - out)) = uint a * (uint r1 - uint out)"
      using m s by (subst uint_mul_exact) simp_all
  qed
  have x: "uint (out * r0 * FEE_BASIS) = uint out * uint r0 * 1000000"
  proof -
    have b: "uint out * uint r0 \<le> 2 ^ 110 * 2 ^ 110" using lt r by (intro prod_bound) (simp_all add: word_less_def)
    then have "uint (out * r0) = uint out * uint r0" by (subst uint_mul_exact) simp_all
    then show ?thesis using b by (subst uint_mul_exact) simp_all
  qed
  have y0: "a * (r1 - out) \<noteq> 0" using y e(2) pos by (metis uint_zero_iff less_irrefl)
  have h: "uint (a * (r1 - out) div 2) = uint a * (uint r1 - uint out) div 2"
    using y by (simp add: uint_div_distrib)
  have "uint out * uint r0 * 1000000 + uint a * (uint r1 - uint out) div 2 < 2 ^ 256"
  proof -
    have "uint out * uint r0 \<le> 2 ^ 110 * 2 ^ 110" using lt r by (intro prod_bound) (simp_all add: word_less_def)
    moreover have "uint a * (uint r1 - uint out) \<le> 2 ^ 112 * 2 ^ 112" using ab .
    ultimately show ?thesis by simp
  qed
  then have n: "uint (out * r0 * FEE_BASIS + a * (r1 - out) div 2) =
      uint out * uint r0 * 1000000 + uint a * (uint r1 - uint out) div 2"
    using x h by (subst uint_add_exact) simp_all
  have q: "uint ((out * r0 * FEE_BASIS + a * (r1 - out) div 2) div (a * (r1 - out))) = g"
    unfolding uint_div_distrib n y using e(1) pos by simp
  have oz: "out \<noteq> 0"
  proof
    assume "out = 0"
    then have "uint a * uint r1 div 2 div (uint a * uint r1) = g" using e(1) pos by simp
    moreover have "z div 2 div z = 0" if "0 < z" for z :: int
      using that by (intro div_pos_pos_trivial) simp_all
    from this [of "uint a * uint r1"] have "uint a * uint r1 div 2 div (uint a * uint r1) = 0"
      using pos l(2) mult_pos_pos by blast
    ultimately show False using g by simp
  qed
  have az: "a \<noteq> 0" using l(2) by auto
  define w where "w = (out * r0 * FEE_BASIS + a * (r1 - out) div 2) div (a * (r1 - out))"
  have "w \<le> FEE_BASIS" using q fee by (simp add: w_def word_le_def g_def)
  moreover have "FEE_BASIS - w = fee"
    using q \<open>w \<le> FEE_BASIS\<close> by (simp add: word_eq_uint uint_sub_exact w_def g_def)
  ultimately have "checked_sub FEE_BASIS w = Some fee" by (simp add: checked_sub_def)
  then show ?thesis
    using y0 oz az lt by (simp add: solve_fee_def udiv_def Let_def w_def)
qed

text \<open>A pair that quotes its first token as \<open>p\<close> does.\<close>

definition quotes_as :: "v2_node \<Rightarrow> v2_pool \<Rightarrow> bool" where
  "quotes_as node p \<longleftrightarrow> (\<exists>quote. v2n_amounts_out node = Ok quote \<and>
     (\<forall>a out. v2_calculate_output p (v2_token0 p) a = Ok out \<longrightarrow> quote a (v2_token0 p) = Some out))"

text \<open>The calibration finds the fee the pair charges, exactly: from a pair that quotes by the constant product
  with a fee of at most ten percent it recovers that fee, once the reserve of the token sold is at least 2
  and the other at least 13.5 million units.\<close>

lemma calibration_recovers_fee:
  assumes "quotes_as node p" and "v2_type p = UniswapV2" and "0 < v2_fee p" and "v2_fee p \<le> MAX_SANE_FEE"
    and "2 \<le> uint (v2_reserve0 p)" and "13500000 \<le> uint (v2_reserve1 p)"
    and "uint (v2_reserve0 p) < 2 ^ 110" and "uint (v2_reserve1 p) < 2 ^ 110"
  shows "calibrate_v2_fee node (v2_token0 p) (v2_reserve0 p) (v2_reserve1 p) = Ok (Some (v2_fee p))"
proof -
  obtain quote where q: "v2n_amounts_out node = Ok quote"
    "\<And>a out. v2_calculate_output p (v2_token0 p) a = Ok out \<Longrightarrow> quote a (v2_token0 p) = Some out"
    using assms(1) by (auto simp: quotes_as_def)
  have fee: "uint (v2_fee p) \<le> 100000" using assms(4) by (simp add: word_le_def)
  have nz: "v2_reserve0 p \<noteq> 0" "v2_reserve1 p \<noteq> 0" using assms by auto
  have probe: "\<exists>out. quote a (v2_token0 p) = Some out \<and> solve_fee (v2_reserve0 p) (v2_reserve1 p) a out = Ok (Some (v2_fee p))"
    if a: "uint a = uint (v2_reserve0 p) div 2 \<or> uint a = uint (v2_reserve0 p) * 4" for a
  proof -
    have a112: "uint a < 2 ^ 112" "a \<noteq> 0" using a assms(5,7) by auto
    obtain out where o: "cp_quote (v2_fee p) a (v2_reserve0 p) (v2_reserve1 p) = Ok out"
      using cp_quote_exact [of "v2_fee p" a "v2_reserve0 p" "v2_reserve1 p"] fee a112 nz assms(7,8) by auto
    then have "v2_calculate_output p (v2_token0 p) a = Ok out"
      using assms(2) nz a112 by (subst output_cp) (simp_all add: is_valid_def sides_def v2_contains_token_def)
    then show ?thesis using q(2) solve_fee_exact [OF fee assms(7,8,5,6) a o] by blast
  qed
  have "uint (v2_reserve0 p div 2) = uint (v2_reserve0 p) div 2" by (simp add: uint_div_distrib)
  moreover have "uint (v2_reserve0 p * 4) = uint (v2_reserve0 p) * 4"
    using assms(7) by (subst uint_mul_exact) simp_all
  ultimately show ?thesis
    using probe [of "v2_reserve0 p div 2"] probe [of "v2_reserve0 p * 4"] q(1) nz assms(3,4)
    by (auto simp: calibrate_v2_fee_def Let_def)
qed

definition sample_v2_node :: v2_node where
  "sample_v2_node =
     \<lparr>v2n_reads = Ok \<lparr>vr_token0 = Some 10, vr_token1 = Some 20, vr_reserves112 = Some (5000000, 20000000),
        vr_factory = Some 7, vr_fee = Some 30, vr_reserves256 = None, vr_stable = None, vr_get_fee = None,
        vr_is_stable = None, vr_swap_fee = None\<rparr>,
      v2n_amounts_out = Ok (\<lambda>a t. case v2_calculate_output sample_pair t a of Inl _ \<Rightarrow> None | Inr out \<Rightarrow> Some out),
      v2n_storage = (\<lambda>_. Err TransportError), v2n_factory_fees = (\<lambda>_. Err TransportError),
      v2n_aero_pairs = Err TransportError, v2n_token = (\<lambda>a. Ok (a, 18))\<rparr>"

lemma sample_v2_fetched: "\<exists>p. fetch_v2_pool sample_v2_node 56 [] [] 9 a = Ok p"
proof -
  have "calibrate_v2_fee sample_v2_node 10 5000000 20000000 = Ok (Some 3000)"
    using calibration_recovers_fee [of sample_v2_node sample_pair]
    by (simp add: quotes_as_def sample_v2_node_def MAX_SANE_FEE_def)
  then show ?thesis
    by (simp add: fetch_v2_pool_def sample_v2_node_def call_ok_def read_reserves_def read_stable_def
      reads_fee_on_chain_def determine_fee_def unwrap_or_def Let_def MAX_SANE_FEE_def)
qed

section \<open>What a fetch returns\<close>

lemma fetched_fields:
  assumes "fetch_v2_pool node chain overrides configured now pair = Ok p"
  shows "\<exists>reads. v2n_reads node = Ok reads \<and> read_reserves reads = Ok (v2_reserve0 p, v2_reserve1 p) \<and>
    v2_type p = (if read_stable reads then Stable else UniswapV2) \<and> v2_address p = pair \<and> v2_fee p \<le> MAX_SANE_FEE"
  using assms unfolding fetch_v2_pool_def
  by (auto simp: call_ok_def Let_def not_less v2_new_def split: option.splits if_splits) blast+

text \<open>Reserves as a pair stores them on chain.\<close>

lemma read_reserves_112:
  "vr_reserves112 reads = Some (r0, r1) \<Longrightarrow> read_reserves reads = Ok (ucast r0, ucast r1)"
  by (simp add: read_reserves_def)

lemma uint_reserve [simp]: "uint (ucast (r :: 112 word) :: u256) = uint r"
  by (rule uint_ucast_up) simp

section \<open>Properties\<close>

text \<open>C11: a fetched V2 pool is never priced with an implausible fee: whatever the node and the contracts answer, its
  fee is at most ten percent, it carries the requested address and the reserves read, and with the 112-bit
  reserves of a volatile pair, both nonzero, it meets every condition under which its quotes are exact.\<close>

theorem fetched_v2_pool_sane:
  assumes "fetch_v2_pool node chain overrides configured now pair = Ok p"
  shows "v2_fee p \<le> MAX_SANE_FEE \<and> v2_address p = pair \<and>
    (\<exists>reads. v2n_reads node = Ok reads \<and> read_reserves reads = Ok (v2_reserve0 p, v2_reserve1 p) \<and>
      (v2_type p = Stable \<longleftrightarrow> read_stable reads) \<and>
      (v2_type p = UniswapV2 \<and> vr_reserves112 reads \<noteq> None \<and> is_valid p \<longrightarrow> v2_usual p))"
proof -
  obtain reads where r: "v2n_reads node = Ok reads" "read_reserves reads = Ok (v2_reserve0 p, v2_reserve1 p)"
    "v2_fee p \<le> MAX_SANE_FEE" "v2_type p = (if read_stable reads then Stable else UniswapV2)" "v2_address p = pair"
    using fetched_fields [OF assms] by blast
  have fee: "uint (v2_fee p) \<le> 100000" using r(3) by (simp add: word_le_def)
  have "v2_usual p" if "v2_type p = UniswapV2" "vr_reserves112 reads \<noteq> None" "is_valid p"
  proof -
    from that(2) obtain a b where "vr_reserves112 reads = Some (a, b)" by auto
    then have "v2_reserve0 p = ucast a" "v2_reserve1 p = ucast b" using r(2) by (simp_all add: read_reserves_112)
    then show ?thesis using that fee uint_less [of a] uint_less [of b] by (simp add: v2_usual_def)
  qed
  then show ?thesis using r by simp
qed

theorem fetched_v2_pool_sane_witness:
  "\<exists>p. fetch_v2_pool sample_v2_node 56 [] [] 9 1 = Ok p \<and> v2_fee p \<le> MAX_SANE_FEE \<and> v2_address p = 1"
  using sample_v2_fetched fetched_v2_pool_sane by blast

text \<open>C9: a volatile pair that reports some fee, in whatever convention, and quotes by the constant product with a fee
  of at most ten percent is fetched as the pool that quotes the same: every quote of the fetched pool,
  in both directions, is the one a pool with the pair's own fee gives.\<close>

theorem fetched_v2_pool_quotes_as_pair:
  assumes "v2n_reads node = Ok reads" and "vr_token0 reads = Some (v2_token0 p)" and "vr_token1 reads = Some (v2_token1 p)"
    and "vr_reserves112 reads = Some (r0, r1)" and "v2_reserve0 p = ucast r0" and "v2_reserve1 p = ucast r1"
    and "reads_fee_on_chain reads" and "\<not> read_stable reads"
    and "quotes_as node p" and "v2_type p = UniswapV2" and "0 < v2_fee p" and "v2_fee p \<le> MAX_SANE_FEE"
    and "2 \<le> uint r0" and "13500000 \<le> uint r1" and "uint r0 < 2 ^ 110" and "uint r1 < 2 ^ 110"
    and "v2n_token node (v2_token0 p) = Ok (v2_token0 p, d0)" and "v2n_token node (v2_token1 p) = Ok (v2_token1 p, d1)"
  shows "\<exists>p'. fetch_v2_pool node chain overrides configured now pair = Ok p' \<and> v2_fee p' = v2_fee p \<and>
    (\<forall>token a. v2_calculate_output p' token a = v2_calculate_output p token a)"
proof (intro exI conjI allI)
  let ?p = "v2_new UniswapV2 pair (v2_token0 p) (v2_token1 p) d0 d1 (ucast r0) (ucast r1) (v2_fee p) now"
  have c: "calibrate_v2_fee node (v2_token0 p) (ucast r0) (ucast r1) = Ok (Some (v2_fee p))"
    using calibration_recovers_fee [of node p] assms(5,6,9-16) by simp
  have d: "determine_fee node chain overrides configured pair reads (Some (v2_fee p)) = Ok (v2_fee p)"
    using assms(7) by (auto simp: determine_fee_def reads_fee_on_chain_def unwrap_or_def split: option.splits)
  show "fetch_v2_pool node chain overrides configured now pair = Ok ?p"
    using assms(1-4,7,8,12,17,18) c d by (simp add: fetch_v2_pool_def call_ok_def read_reserves_112 Let_def not_less)
  show "v2_fee ?p = v2_fee p" by (simp add: v2_new_def)
  show "v2_calculate_output ?p token a = v2_calculate_output p token a" for token a
    using assms(5,6,10)
    by (auto simp: v2_calculate_output_def calculate_output_0_to_1_def calculate_output_1_to_0_def is_valid_def
      v2_new_def Let_def)
qed

theorem fetched_v2_pool_quotes_as_pair_witness:
  "\<exists>p'. fetch_v2_pool sample_v2_node 56 [] [] 9 1 = Ok p' \<and> v2_fee p' = 3000 \<and>
    v2_calculate_output p' 20 700 = v2_calculate_output sample_pair 20 700"
proof -
  have q: "quotes_as sample_v2_node sample_pair" by (simp add: quotes_as_def sample_v2_node_def)
  have "\<exists>p'. fetch_v2_pool sample_v2_node 56 [] [] 9 1 = Ok p' \<and> v2_fee p' = v2_fee sample_pair \<and>
    (\<forall>token a. v2_calculate_output p' token a = v2_calculate_output sample_pair token a)"
  proof (rule fetched_v2_pool_quotes_as_pair [where ?r0.0 = 5000000 and ?r1.0 = 20000000, OF _ _ _ _ _ _ _ _ q])
    show "v2n_reads sample_v2_node = Ok \<lparr>vr_token0 = Some 10, vr_token1 = Some 20, vr_reserves112 = Some (5000000, 20000000),
        vr_factory = Some 7, vr_fee = Some 30, vr_reserves256 = None, vr_stable = None, vr_get_fee = None,
        vr_is_stable = None, vr_swap_fee = None\<rparr>" by (simp add: sample_v2_node_def)
  qed (simp_all add: reads_fee_on_chain_def read_stable_def MAX_SANE_FEE_def sample_v2_node_def)
  then show ?thesis by auto
qed

section \<open>Where the fetch goes wrong\<close>

text \<open>Below the bound the two probes can agree on a fee the pair does not charge: here 5 percent reads as 5.0384.\<close>

lemma agreeing_probes_wrong:
  "v2n_amounts_out node = Ok (\<lambda>a t. case v2_calculate_output (v2_new UniswapV2 1 10 20 18 6 4775 10000 50000 0) t a of
     Inl _ \<Rightarrow> None | Inr out \<Rightarrow> Some out) \<Longrightarrow>
   calibrate_v2_fee node 10 4775 10000 = Ok (Some 50384)"
  by (simp add: calibrate_v2_fee_def solve_fee_def v2_new_def pair_simps checked_sub_def MAX_SANE_FEE_def FEE_BASIS_def)

text \<open>A pair with 256-bit reserves can make the calibration divide by zero, which ends the task instead of falling back.\<close>

lemma lying_pair_panics_calibration:
  "v2n_amounts_out node = Ok (\<lambda>a t. Some 1) \<Longrightarrow>
   calibrate_v2_fee node 10 (2 ^ 129) (2 ^ 128 + 1) = Err (Panic DivByZero)"
  by (simp add: calibrate_v2_fee_def solve_fee_def udiv_def word_le_def)

text \<open>A pair without \<^verbatim>\<open>factory()\<close> whose slot 11 holds more than an address does the same.\<close>

lemma storage_slot_panics:
  "v2n_storage node FACTORY_STORAGE_SLOT = Ok w \<Longrightarrow> 2 ^ 160 \<le> uint w \<Longrightarrow>
   looked_up_fee node chain overrides configured pair 0 = Err (Panic UintConversion)"
  by (simp add: looked_up_fee_def to_width_def)

text \<open>An operator's override is only read when the pair reports no fee of its own.\<close>

lemma reported_fee_determined:
  "reads_fee_on_chain reads \<Longrightarrow> determine_fee node chain overrides configured pair reads calibrated =
     determine_fee node chain [] configured pair reads calibrated"
  by (auto simp: reads_fee_on_chain_def determine_fee_def split: option.splits)

lemma override_ignored:
  "v2n_reads node = Ok reads \<Longrightarrow> reads_fee_on_chain reads \<Longrightarrow>
   fetch_v2_pool node chain overrides configured now pair = fetch_v2_pool node chain [] configured now pair"
  by (simp add: fetch_v2_pool_def reported_fee_determined [of reads node chain overrides])

end
