(* ===== verification/V3_Fetch.thy ===== *)
theory V3_Fetch
  imports V3_Liquidity Fetch_Base
begin

text \<open>
  \<^verbatim>\<open>src/v3/fetcher.rs\<close>: which protocol a V3 pool is, told apart by which of fifteen calls it answers, its state,
  and its initialized ticks: from the bitmap words of the whole tick range, or down the three-level tick
  tree of an Algebra Integral pool. The node is a parameter.
\<close>

section \<open>What the node answers\<close>

record v3_reads =
  r3_token0 :: "address option"
  r3_token1 :: "address option"
  r3_fee :: "u24 option"
  r3_tick_spacing :: "int option"
  r3_slot0 :: "(u160 \<times> int) option"
  r3_liquidity :: "u128 option"
  r3_factory :: "address option"
  r3_clp_slot0 :: "(u160 \<times> int) option"
  r3_algebra_fee :: "u16 option"
  r3_algebra_state :: "(u160 \<times> int \<times> u8) option"
  r3_two_side_state :: "(u160 \<times> int \<times> u16 \<times> u16) option"
  r3_active_incentive :: "address option"
  r3_fee_in_state :: "(u160 \<times> int \<times> u16) option"
  r3_last_period :: "u256 option"
  r3_current_fee :: "u24 option"

record v3_node =
  v3n_reads :: "v3_reads res"
  v3n_tick_bitmap :: "(int, u256) multicall"
  v3n_tick_table :: "(int, u256) multicall"
  v3n_tick_tree_root :: "u32 res"
  v3n_second_layer :: "(int, u256) multicall"
  v3n_ticks :: "(int, u128 \<times> int) multicall"
  v3n_algebra_ticks :: "(int, u256 \<times> int) multicall"
  v3n_token :: token_lookup

section \<open>Classification\<close>

record v3_state =
  s3_token0 :: address
  s3_token1 :: address
  s3_fee :: u24
  s3_tick_spacing :: int
  s3_price :: u160
  s3_tick :: int
  s3_liquidity :: u128
  s3_factory :: address

text \<open>The tuple every branch builds; the branches differ in price, tick and where the fee comes from.\<close>

definition read_v3_state :: "v3_reads \<Rightarrow> u24 res \<Rightarrow> u160 \<Rightarrow> int \<Rightarrow> v3_state res" where
  "read_v3_state r fee price tick =
     and_then (call_ok ''token0'' (r3_token0 r)) (\<lambda>token0.
     and_then (call_ok ''token1'' (r3_token1 r)) (\<lambda>token1.
     and_then fee (\<lambda>fee.
     and_then (call_ok ''tickSpacing'' (r3_tick_spacing r)) (\<lambda>tick_spacing.
     and_then (call_ok ''liquidity'' (r3_liquidity r)) (\<lambda>liquidity.
     and_then (call_ok ''factory'' (r3_factory r)) (\<lambda>factory.
     Ok \<lparr>s3_token0 = token0, s3_token1 = token1, s3_fee = fee, s3_tick_spacing = tick_spacing, s3_price = price,
         s3_tick = tick, s3_liquidity = liquidity, s3_factory = factory\<rparr>))))))"

definition classify_v3 :: "v3_reads \<Rightarrow> (v3_pool_type \<times> u8 option \<times> v3_state) res" where
  "classify_v3 r =
     (case r3_clp_slot0 r of
        Some (price, tick) \<Rightarrow>
          and_then (read_v3_state r (call_ok ''fee'' (r3_fee r)) price tick) (\<lambda>s. Ok (UniswapV3, None, s))
      | None \<Rightarrow>
     (case r3_fee_in_state r of
        Some (price, tick, fee) \<Rightarrow>
          and_then (read_v3_state r (Ok (ucast fee)) price tick) (\<lambda>s. Ok (AlgebraPoolFeeInState, None, s))
      | None \<Rightarrow>
     (if r3_active_incentive r \<noteq> None then
        and_then (call_ok ''globalState'' (r3_two_side_state r)) (\<lambda>(price, tick, fee_zto, fee_otz).
        and_then (read_v3_state r (Ok (ucast (if fee_zto > fee_otz then fee_zto else fee_otz))) price tick) (\<lambda>s.
        Ok (AlgebraTwoSideFee, None, s)))
      else
     (case r3_algebra_state r of
        Some (price, tick, plugin_config) \<Rightarrow>
          and_then (read_v3_state r (and_then (call_ok ''fee'' (r3_algebra_fee r)) (\<lambda>fee. Ok (ucast fee))) price tick) (\<lambda>s.
          Ok (AlgebraV3, Some plugin_config, s))
      | None \<Rightarrow>
          and_then (call_ok ''slot0'' (r3_slot0 r)) (\<lambda>(price, tick).
          and_then (call_ok ''factory'' (r3_factory r)) (\<lambda>_.
          and_then (read_v3_state r (call_ok ''fee'' (r3_fee r)) price tick) (\<lambda>s. Ok (UniswapV3, None, s))))))))"

text \<open>A pool nothing above claimed is Ramses when it answers \<^verbatim>\<open>lastPeriod()\<close>.\<close>

definition claim_ramses :: "v3_reads \<Rightarrow> v3_pool_type \<Rightarrow> v3_pool_type" where
  "claim_ramses r pool_type = (if pool_type = UniswapV3 \<and> r3_last_period r \<noteq> None then RamsesCL else pool_type)"

definition current_fee_of :: "v3_reads \<Rightarrow> v3_pool_type \<Rightarrow> u24 option" where
  "current_fee_of r pool_type = (if pool_type = RamsesCL then r3_current_fee r else None)"

section \<open>Ticks\<close>

text \<open>A contract takes the low bits of an index: \<^verbatim>\<open>word_pos as i16\<close>.\<close>

definition on_keys :: "('a \<Rightarrow> 'k) \<Rightarrow> ('k, 'v) multicall \<Rightarrow> ('a, 'v) multicall" where
  "on_keys f call = (\<lambda>ks. and_then (call (map f ks)) (\<lambda>answer. Ok (\<lambda>k. answer (f k))))"

definition as_i16 :: "int \<Rightarrow> int" where
  "as_i16 w = swrap 16 w"

definition word_ticks :: "int \<Rightarrow> int \<Rightarrow> u256 \<Rightarrow> int list" where
  "word_ticks tick_spacing word_pos bitmap =
     map (\<lambda>i. swrap 32 (swrap 32 (swrap 32 (word_pos * 256) + int i) * tick_spacing)) (bit_positions bitmap)"

definition bitmap_ticks :: "(int, u256) multicall \<Rightarrow> int \<Rightarrow> int list res" where
  "bitmap_ticks contract tick_spacing =
     and_then (tick_to_word MIN_TICK tick_spacing) (\<lambda>min_word.
     and_then (tick_to_word MAX_TICK tick_spacing) (\<lambda>max_word.
     let words = [min_word..max_word]
     in and_then (gather (on_keys as_i16 contract) (chunks 250 words)) (\<lambda>bitmaps.
        Ok (concat (map2 (word_ticks tick_spacing) words bitmaps)))))"

definition SECOND_LAYER_OFFSET :: int where
  "SECOND_LAYER_OFFSET = 3466"

definition table_indices :: "int \<Rightarrow> u256 \<Rightarrow> int list" where
  "table_indices second_layer_index bitmap =
     map (\<lambda>b. as_i16 (second_layer_index * 256 + int b - SECOND_LAYER_OFFSET)) (bit_positions bitmap)"

definition table_ticks :: "int \<Rightarrow> u256 \<Rightarrow> int list" where
  "table_ticks tick_table_index bitmap =
     filter (\<lambda>t. t \<ge> MIN_TICK \<and> t \<le> MAX_TICK)
       (map (\<lambda>b. swrap 32 (swrap 32 (tick_table_index * 256) + int b)) (bit_positions bitmap))"

definition tree_ticks :: "v3_node \<Rightarrow> int list res" where
  "tree_ticks node =
     and_then (v3n_tick_tree_root node) (\<lambda>tick_tree_root.
       if tick_tree_root = 0 then Ok []
       else
         let second_layer_indices = map int (filter (\<lambda>b. tick_tree_root AND push_bit b 1 \<noteq> 0) [0..<32])
         in and_then (v3n_second_layer node second_layer_indices) (\<lambda>second_layer.
            let tick_table_indices = concat (map (\<lambda>i. table_indices i (second_layer i)) second_layer_indices)
            in and_then (v3n_tick_table node tick_table_indices) (\<lambda>tick_table.
               Ok (concat (map (\<lambda>w. table_ticks w (tick_table w)) tick_table_indices)))))"

text \<open>The index must fit the contract's \<^verbatim>\<open>int24\<close>, or building the call panics.\<close>

definition as_i24_calls :: "(int, 'v) multicall \<Rightarrow> (int, 'v) multicall" where
  "as_i24_calls call = (\<lambda>ts. if \<forall>t \<in> set ts. srange 24 t then call ts else Err (Panic UnwrapErr))"

definition put_tick :: "int \<Rightarrow> u128 \<times> int \<Rightarrow> tick_map \<Rightarrow> tick_map" where
  "put_tick i r m = bt_insert i \<lparr>index = i, liquidity_net = snd r, liquidity_gross = fst r\<rparr> m"

text \<open>\<^verbatim>\<open>liquidityTotal.to::<U128>()\<close> panics on a value that does not fit.\<close>

definition narrow_totals :: "(int, u256 \<times> int) multicall \<Rightarrow> (int, u128 \<times> int) multicall" where
  "narrow_totals call = (\<lambda>ts. and_then (call ts) (\<lambda>answer.
     if \<forall>t \<in> set ts. uint (fst (answer t)) < 2 ^ 128 then Ok (\<lambda>t. map_prod ucast id (answer t))
     else Err (Panic UintConversion)))"

definition tick_indices :: "v3_node \<Rightarrow> v3_pool \<Rightarrow> int list res" where
  "tick_indices node p =
     (if v3_type p = UniswapV3 \<or> v3_type p = RamsesCL \<or> v3_type p = PancakeV3
        then bitmap_ticks (v3n_tick_bitmap node) (v3_tick_spacing p)
      else if v3_type p = AlgebraV3 then tree_ticks node
      else bitmap_ticks (v3n_tick_table node) (v3_tick_spacing p))"

definition tick_calls :: "v3_node \<Rightarrow> v3_pool \<Rightarrow> (int, u128 \<times> int) multicall" where
  "tick_calls node p =
     (if v3_type p = UniswapV3 \<or> v3_type p = RamsesCL \<or> v3_type p = PancakeV3 then as_i24_calls (v3n_ticks node)
      else as_i24_calls (narrow_totals (v3n_algebra_ticks node)))"

definition fetch_v3_ticks :: "v3_node \<Rightarrow> v3_pool \<Rightarrow> v3_pool res" where
  "fetch_v3_ticks node p =
     and_then (tick_indices node p) (\<lambda>indices.
     and_then (read_each (tick_calls node p) put_tick (chunks 250 indices) []) (\<lambda>all_ticks.
     Ok (p\<lparr>v3_ticks := all_ticks\<rparr>)))"

section \<open>The pool\<close>

definition fetch_v3_pool :: "v3_node \<Rightarrow> u64 \<Rightarrow> address \<Rightarrow> v3_pool res" where
  "fetch_v3_pool node now pool_address =
     and_then (v3n_reads node) (\<lambda>r.
     and_then (classify_v3 r) (\<lambda>(pool_type, algebra_plugin_config, s).
     let pool_type = claim_ramses r pool_type;
         current_fee = current_fee_of r pool_type;
         fee = unwrap_or current_fee (s3_fee s)
     in and_then (v3n_token node (s3_token0 s)) (\<lambda>(token0, _).
        and_then (v3n_token node (s3_token1 s)) (\<lambda>(token1, _).
        let p = v3_new pool_address token0 token1 fee (s3_tick_spacing s) (s3_price s) (s3_tick s) (s3_liquidity s)
                  (s3_factory s) pool_type now
        in fetch_v3_ticks node
             (p\<lparr>v3_fee_source := classify_fee_source pool_type algebra_plugin_config (current_fee \<noteq> None)\<rparr>)))))"

section \<open>Bitmaps of the tick range\<close>

text \<open>The initialized ticks of a contract, and the words a bitmap of them consists of.\<close>

definition proper_ticks :: "int \<Rightarrow> int set \<Rightarrow> bool" where
  "proper_ticks tick_spacing ticks \<longleftrightarrow> (\<forall>t \<in> ticks. MIN_TICK \<le> t \<and> t \<le> MAX_TICK \<and> tick_spacing dvd t)"

definition bitmap_holds :: "(int \<Rightarrow> u256) \<Rightarrow> int \<Rightarrow> int set \<Rightarrow> bool" where
  "bitmap_holds word_at tick_spacing ticks \<longleftrightarrow> (\<forall>w. srange 16 w \<longrightarrow>
     (\<forall>i < 256. bit (word_at w) i \<longleftrightarrow> (w * 256 + int i) * tick_spacing \<in> ticks))"

lemma tick_bounds: "MIN_TICK = - 887272" "MAX_TICK = 887272"
  by (simp_all add: MIN_TICK_def MAX_TICK_def)

lemma div_near_zero: "0 < s \<Longrightarrow> - (887272 :: int) \<le> t \<Longrightarrow> t \<le> 887272 \<Longrightarrow> - 887272 \<le> t div s \<and> t div s \<le> 887272"
proof -
  assume s: "0 < s" and t: "- (887272 :: int) \<le> t" "t \<le> 887272"
  have "- 887272 * s \<le> - 887272" using s by simp
  then show ?thesis using s t mult_right_mono [of 1 s 887273] by (simp add: le_div_int div_le_int)
qed

lemma tick_to_word_floor:
  assumes "0 < s" and "- 887272 \<le> t" and "t \<le> 887272"
  shows "tick_to_word t s = Ok (t div s div 256)"
proof -
  have "srange 32 (t div s)" using div_near_zero [OF assms] by (simp add: srange_def)
  then have "swrap 32 (t div s) = t div s" by (intro swrap_id) simp_all
  moreover have "(if t < 0 \<and> trem t s \<noteq> 0 then tdiv t s - 1 else tdiv t s) = t div s"
    by (rule tdiv_floor [OF assms(1)])
  ultimately show ?thesis using assms(1) by (simp add: tick_to_word_def Let_def drop_bit_eq_div)
qed

lemma word_range:
  assumes "0 < s" and "w \<in> set [MIN_TICK div s div 256..MAX_TICK div s div 256]"
  shows "- 3466 \<le> w" and "w \<le> 3465"
proof -
  have "- 887272 \<le> MIN_TICK div s" "MAX_TICK div s \<le> 887272"
    using div_near_zero [OF assms(1), of MIN_TICK] div_near_zero [OF assms(1), of MAX_TICK] by (simp_all add: tick_bounds)
  then have "- 887272 div 256 \<le> MIN_TICK div s div 256" "MAX_TICK div s div 256 \<le> 887272 div 256"
    by (intro zdiv_mono1; simp)+
  then show "- 3466 \<le> w" "w \<le> 3465" using assms(2) by simp_all
qed

lemma on_keys_honest: "honest call f \<Longrightarrow> honest (on_keys g call) (\<lambda>k. f (g k))"
  by (auto simp: honest_def on_keys_def)

lemma bitmap_exact:
  assumes s: "0 < s" and proper: "proper_ticks s ticks" and holds: "bitmap_holds word_at s ticks"
    and honest: "honest contract word_at" and r: "bitmap_ticks contract s = Ok found"
  shows "set found = ticks"
proof -
  let ?words = "[MIN_TICK div s div 256..MAX_TICK div s div 256]"
  have lim: "tick_to_word MIN_TICK s = Ok (MIN_TICK div s div 256)" "tick_to_word MAX_TICK s = Ok (MAX_TICK div s div 256)"
    using s by (simp_all add: tick_to_word_floor tick_bounds)
  obtain bitmaps where b: "gather (on_keys as_i16 contract) (chunks 250 ?words) = Ok bitmaps"
    "found = concat (map2 (word_ticks s) ?words bitmaps)"
    using r by (auto simp: bitmap_ticks_def lim Let_def)
  have w16: "srange 16 w" if "w \<in> set ?words" for w using word_range [OF s that] by (simp add: srange_def)
  have "bitmaps = map (\<lambda>w. word_at (as_i16 w)) ?words"
    using gather_honest [OF on_keys_honest [OF honest] b(1)] by simp
  also have "\<dots> = map word_at ?words" by (intro map_cong refl) (simp add: as_i16_def swrap_id w16 del: set_upto)
  finally have "found = concat (map (\<lambda>w. word_ticks s w (word_at w)) ?words)"
    using b(2) by (simp add: zip_map2 zip_same_conv_map comp_def case_prod_unfold)
  then have f: "t \<in> set found \<longleftrightarrow> (\<exists>w \<in> set ?words. t \<in> set (word_ticks s w (word_at w)))" for t by auto
  have e: "t \<in> set (word_ticks s w (word_at w)) \<longleftrightarrow> (\<exists>i < 256. t = (w * 256 + int i) * s \<and> t \<in> ticks)"
    if w: "w \<in> set ?words" for w t
  proof -
    have "swrap 32 (swrap 32 (swrap 32 (w * 256) + int i) * s) = (w * 256 + int i) * s"
      if i: "(w * 256 + int i) * s \<in> ticks" "i < 256" for i
    proof -
      have "- 887272 \<le> (w * 256 + int i) * s" "(w * 256 + int i) * s \<le> 887272"
        using i(1) proper by (auto simp: proper_ticks_def tick_bounds)
      then have "swrap 32 ((w * 256 + int i) * s) = (w * 256 + int i) * s" by (simp add: swrap_id srange_def)
      then show ?thesis using i(2) word_range [OF s w] by (simp add: swrap_id srange_def)
    qed
    note sw = this
    have bits: "i \<in> set (bit_positions (word_at w)) \<longleftrightarrow> i < 256 \<and> (w * 256 + int i) * s \<in> ticks" for i
      using holds w16 [OF w] bit_positions_256 [of i "word_at w"] by (auto simp: bitmap_holds_def bit_positions_set)
    have "t \<in> set (word_ticks s w (word_at w)) \<longleftrightarrow>
        (\<exists>i \<in> set (bit_positions (word_at w)). t = swrap 32 (swrap 32 (swrap 32 (w * 256) + int i) * s))"
      by (auto simp: word_ticks_def)
    also have "\<dots> \<longleftrightarrow> (\<exists>i < 256. t = (w * 256 + int i) * s \<and> t \<in> ticks)"
      unfolding Bex_def bits using sw by auto
    finally show ?thesis .
  qed
  show ?thesis
  proof (intro set_eqI iffI)
    fix t
    assume t: "t \<in> ticks"
    define c where "c = t div s"
    have d: "t = c * s" using t proper by (simp add: c_def proper_ticks_def)
    have "MIN_TICK div s \<le> c" "c \<le> MAX_TICK div s"
      unfolding c_def using t proper s by (intro zdiv_mono1; simp add: proper_ticks_def)+
    then have "MIN_TICK div s div 256 \<le> c div 256" "c div 256 \<le> MAX_TICK div s div 256" by (intro zdiv_mono1; simp)+
    then have w: "c div 256 \<in> set ?words" by simp
    have "t = (c div 256 * 256 + int (nat (c mod 256))) * s" by (simp add: d)
    then show "t \<in> set found" unfolding f using e [OF w] w t by (intro bexI [of _ "c div 256"]) (auto intro!: exI [of _ "nat (c mod 256)"])
  qed (use f e in blast)
qed

section \<open>The tick tree\<close>

text \<open>
  The layout of Algebra Integral's tick tree: a bit of a table word per tick, a bit of a second-layer word per
  table word in use (counted from the least one), a bit of the root per second-layer word in use.
\<close>

definition tick_tree_holds :: "u32 \<Rightarrow> (int \<Rightarrow> u256) \<Rightarrow> (int \<Rightarrow> u256) \<Rightarrow> int set \<Rightarrow> bool" where
  "tick_tree_holds root second table ticks \<longleftrightarrow>
     (\<forall>r. bit root r \<longleftrightarrow> (\<exists>t \<in> ticks. (t div 256 + SECOND_LAYER_OFFSET) div 256 = int r)) \<and>
     (\<forall>r. \<forall>b < 256. bit (second r) b \<longleftrightarrow> (\<exists>t \<in> ticks. t div 256 + SECOND_LAYER_OFFSET = r * 256 + int b)) \<and>
     (\<forall>w. \<forall>b < 256. bit (table w) b \<longleftrightarrow> w * 256 + int b \<in> ticks)"

lemma tick_word_range:
  assumes "proper_ticks s ticks" and "t \<in> ticks"
  shows "- 3466 \<le> t div 256" and "t div 256 \<le> 3465"
proof -
  have "- 887272 \<le> t" "t \<le> 887272" using assms by (auto simp: proper_ticks_def tick_bounds)
  then have "- 887272 div 256 \<le> t div 256" "t div 256 \<le> 887272 div 256" by (intro zdiv_mono1; simp)+
  then show "- 3466 \<le> t div 256" "t div 256 \<le> 3465" by simp_all
qed

lemma table_words_exact:
  assumes proper: "proper_ticks s ticks" and holds: "tick_tree_holds root second table ticks"
  shows "w \<in> set (concat (map (\<lambda>i. table_indices i (second i)) (map int (filter (bit root) [0..<32])))) \<longleftrightarrow>
    (\<exists>t \<in> ticks. t div 256 = w)"
proof -
  have ix: "v \<in> set (table_indices r (second r)) \<longleftrightarrow>
      (\<exists>b < 256. v = as_i16 (r * 256 + int b - SECOND_LAYER_OFFSET) \<and> (\<exists>t \<in> ticks. t div 256 + SECOND_LAYER_OFFSET = r * 256 + int b))" for r v
  proof -
    have bits: "b \<in> set (bit_positions (second r)) \<longleftrightarrow>
        b < 256 \<and> (\<exists>t \<in> ticks. t div 256 + SECOND_LAYER_OFFSET = r * 256 + int b)" for b
      using holds bit_positions_256 [of b "second r"] by (auto simp: tick_tree_holds_def bit_positions_set)
    have "v \<in> set (table_indices r (second r)) \<longleftrightarrow>
        (\<exists>b \<in> set (bit_positions (second r)). v = as_i16 (r * 256 + int b - SECOND_LAYER_OFFSET))"
      by (auto simp: table_indices_def)
    then show ?thesis unfolding Bex_def bits by auto
  qed
  have i16: "as_i16 (t div 256) = t div 256" if "t \<in> ticks" for t
    using tick_word_range [OF proper that] by (simp add: as_i16_def swrap_id srange_def)
  show ?thesis
  proof
    assume "w \<in> set (concat (map (\<lambda>i. table_indices i (second i)) (map int (filter (bit root) [0..<32]))))"
    then obtain r where "w \<in> set (table_indices (int r) (second (int r)))" by auto
    then obtain b t where "w = as_i16 (int r * 256 + int b - SECOND_LAYER_OFFSET)" "t \<in> ticks"
      "t div 256 + SECOND_LAYER_OFFSET = int r * 256 + int b" using ix by blast
    moreover from this(3) have "int r * 256 + int b - SECOND_LAYER_OFFSET = t div 256" by linarith
    ultimately show "\<exists>t \<in> ticks. t div 256 = w" using i16 by auto
  next
    assume "\<exists>t \<in> ticks. t div 256 = w"
    then obtain t where t: "t \<in> ticks" "t div 256 = w" by blast
    define n where "n = w + SECOND_LAYER_OFFSET"
    have n: "0 \<le> n" "n < 8192" using tick_word_range [OF proper t(1)] t(2) by (simp_all add: n_def SECOND_LAYER_OFFSET_def)
    define r where "r = nat (n div 256)"
    have r: "int r = n div 256" "r < 32" using n by (simp_all add: r_def pos_imp_zdiv_nonneg_iff nat_less_iff)
    have "bit root r" using holds t r(1) by (auto simp: tick_tree_holds_def n_def)
    moreover have "w \<in> set (table_indices (int r) (second (int r)))"
      unfolding ix using t i16 [OF t(1)] n
      by (intro exI [of _ "nat (n mod 256)"]) (auto simp: r(1) n_def)
    ultimately show "w \<in> set (concat (map (\<lambda>i. table_indices i (second i)) (map int (filter (bit root) [0..<32]))))"
      using r(2) by auto
  qed
qed

lemma table_ticks_exact:
  assumes proper: "proper_ticks s ticks" and holds: "tick_tree_holds root second table ticks" and w: "- 3466 \<le> w" "w \<le> 3465"
  shows "set (table_ticks w (table w)) = {t \<in> ticks. t div 256 = w}"
proof -
  have sw: "swrap 32 (swrap 32 (w * 256) + int b) = w * 256 + int b" if "b < 256" for b
    using that w by (simp add: swrap_id srange_def)
  have bits: "b \<in> set (bit_positions (table w)) \<longleftrightarrow> b < 256 \<and> w * 256 + int b \<in> ticks" for b
    using holds bit_positions_256 [of b "table w"] by (auto simp: tick_tree_holds_def bit_positions_set)
  have "set (table_ticks w (table w)) = {t. MIN_TICK \<le> t \<and> t \<le> MAX_TICK \<and> (\<exists>b < 256. t = w * 256 + int b \<and> t \<in> ticks)}"
    using sw by (auto simp: table_ticks_def bits image_iff) 
  also have "\<dots> = {t \<in> ticks. t div 256 = w}"
  proof (intro set_eqI iffI)
    fix t
    assume "t \<in> {t \<in> ticks. t div 256 = w}"
    then have t: "t \<in> ticks" "t div 256 = w" by simp_all
    then have "t = w * 256 + int (nat (t mod 256))" by auto
    then show "t \<in> {t. MIN_TICK \<le> t \<and> t \<le> MAX_TICK \<and> (\<exists>b < 256. t = w * 256 + int b \<and> t \<in> ticks)}"
      using t proper by (auto simp: proper_ticks_def intro!: exI [of _ "nat (t mod 256)"])
  qed auto
  finally show ?thesis .
qed

lemma tick_tree_exact:
  assumes proper: "proper_ticks s ticks" and holds: "tick_tree_holds root second table ticks"
    and node: "v3n_tick_tree_root node = Ok root" "honest (v3n_second_layer node) second" "honest (v3n_tick_table node) table"
    and r: "tree_ticks node = Ok found"
  shows "set found = ticks"
proof (cases "root = 0")
  case True
  then have "ticks = {}"
  proof -
    have "\<exists>k. bit root k" if "t \<in> ticks" for t
    proof -
      have "0 \<le> (t div 256 + SECOND_LAYER_OFFSET) div 256"
        using tick_word_range [OF proper that] by (simp add: SECOND_LAYER_OFFSET_def pos_imp_zdiv_nonneg_iff)
      then have "(t div 256 + SECOND_LAYER_OFFSET) div 256 = int (nat ((t div 256 + SECOND_LAYER_OFFSET) div 256))" by simp
      then show ?thesis using holds that unfolding tick_tree_holds_def by blast
    qed
    then show ?thesis using True by auto
  qed
  then show ?thesis using True r node by (simp add: tree_ticks_def)
next
  case False
  let ?roots = "map int (filter (bit root) [0..<32])"
  let ?words = "concat (map (\<lambda>i. table_indices i (second i)) ?roots)"
  obtain second' where s: "v3n_second_layer node ?roots = Ok second'"
    "and_then (v3n_tick_table node (concat (map (\<lambda>i. table_indices i (second' i)) ?roots)))
       (\<lambda>t. Ok (concat (map (\<lambda>w. table_ticks w (t w)) (concat (map (\<lambda>i. table_indices i (second' i)) ?roots))))) = Ok found"
    using r node(1) False by (auto simp: tree_ticks_def Let_def and_power_of_two)
  have e: "map (\<lambda>i. table_indices i (second' i)) ?roots = map (\<lambda>i. table_indices i (second i)) ?roots"
    using node(2) s(1) by (intro map_cong refl) (auto simp: honest_def)
  obtain table' where t: "v3n_tick_table node ?words = Ok table'" "found = concat (map (\<lambda>w. table_ticks w (table' w)) ?words)"
    using s(2) unfolding e by auto
  have "map (\<lambda>w. table_ticks w (table' w)) ?words = map (\<lambda>w. table_ticks w (table w)) ?words"
    using node(3) t(1) by (intro map_cong refl) (auto simp: honest_def)
  then have "found = concat (map (\<lambda>w. table_ticks w (table w)) ?words)" using t(2) by (simp only:)
  then have "t \<in> set found \<longleftrightarrow> (\<exists>w \<in> set ?words. t \<in> set (table_ticks w (table w)))" for t
    by (simp only: set_concat set_map UN_iff bex_simps)
  then have "t \<in> set found \<longleftrightarrow> (\<exists>w. (\<exists>u \<in> ticks. u div 256 = w) \<and> t \<in> set (table_ticks w (table w)))" for t
    by (simp only: Bex_def table_words_exact [OF proper holds])
  moreover have "set (table_ticks w (table w)) = {t \<in> ticks. t div 256 = w}" if "\<exists>u \<in> ticks. u div 256 = w" for w
    using that tick_word_range [OF proper] by (intro table_ticks_exact [OF proper holds]) auto
  ultimately show ?thesis by blast
qed

section \<open>The fetched ticks\<close>

lemma put_ticks:
  "bt_inv m \<Longrightarrow> bt_inv (fold (\<lambda>k. put_tick k (f k)) ks m) \<and>
     bt_get (fold (\<lambda>k. put_tick k (f k)) ks m) j =
       (if j \<in> set ks then Some \<lparr>index = j, liquidity_net = snd (f j), liquidity_gross = fst (f j)\<rparr> else bt_get m j)"
  by (induction ks arbitrary: m) (auto simp: put_tick_def bt_simps)

lemma as_i24_honest: "honest call f \<Longrightarrow> honest (as_i24_calls call) f"
  by (simp add: honest_def as_i24_calls_def)

lemma narrow_honest: "honest call f \<Longrightarrow> honest (narrow_totals call) (\<lambda>t. map_prod ucast id (f t))"
  by (auto simp: honest_def narrow_totals_def split: if_splits)

text \<open>
  A contract whose ticks and in-range liquidity are those of a history of liquidity changes, and a node whose
  answers, when there are any, are that contract's.
\<close>

definition initialized_ticks :: "change list \<Rightarrow> int set" where
  "initialized_ticks evs = {t. gross_at evs t \<noteq> 0}"

definition index_holds :: "v3_node \<Rightarrow> v3_pool_type \<Rightarrow> int \<Rightarrow> int set \<Rightarrow> bool" where
  "index_holds node pool_type tick_spacing ticks \<longleftrightarrow>
     (if pool_type = AlgebraV3 then
        \<exists>root second table. (\<forall>w. v3n_tick_tree_root node = Ok w \<longrightarrow> w = root) \<and> honest (v3n_second_layer node) second \<and>
          honest (v3n_tick_table node) table \<and> tick_tree_holds root second table ticks
      else \<exists>word_at. bitmap_holds word_at tick_spacing ticks \<and>
        honest (if pool_type = AlgebraTwoSideFee \<or> pool_type = AlgebraPoolFeeInState then v3n_tick_table node
                else v3n_tick_bitmap node) word_at)"

definition serves_v3 :: "v3_node \<Rightarrow> change list \<Rightarrow> bool" where
  "serves_v3 node evs \<longleftrightarrow>
     (\<forall>r pool_type config s. v3n_reads node = Ok r \<longrightarrow> classify_v3 r = Ok (pool_type, config, s) \<longrightarrow>
        0 < s3_tick_spacing s \<and> proper_ticks (s3_tick_spacing s) (initialized_ticks evs) \<and>
        index_holds node pool_type (s3_tick_spacing s) (initialized_ticks evs) \<and>
        uint (s3_liquidity s) = active_at evs (s3_tick s)) \<and>
     honest (v3n_ticks node) (\<lambda>t. (word_of_int (gross_at evs t), net_at evs t)) \<and>
     honest (v3n_algebra_ticks node) (\<lambda>t. (word_of_int (gross_at evs t), net_at evs t))"

lemma classify_ramses: "index_holds node (claim_ramses r pool_type) s ticks = index_holds node pool_type s ticks"
  by (simp add: claim_ramses_def index_holds_def)

lemma tick_indices_exact:
  assumes "0 < v3_tick_spacing p" and "proper_ticks (v3_tick_spacing p) ticks"
    and "index_holds node (v3_type p) (v3_tick_spacing p) ticks" and "tick_indices node p = Ok found"
  shows "set found = ticks"
proof (cases "v3_type p = AlgebraV3")
  case True
  obtain root second table where h: "\<forall>w. v3n_tick_tree_root node = Ok w \<longrightarrow> w = root" "honest (v3n_second_layer node) second"
    "honest (v3n_tick_table node) table" "tick_tree_holds root second table ticks"
    using assms(3) True by (auto simp: index_holds_def)
  have f: "tree_ticks node = Ok found" using assms(4) True by (simp add: tick_indices_def)
  then have "v3n_tick_tree_root node = Ok root" using h(1) by (auto simp: tree_ticks_def)
  from tick_tree_exact [OF assms(2) h(4) this h(2,3) f] show ?thesis .
next
  case False
  then obtain word_at where "bitmap_holds word_at (v3_tick_spacing p) ticks"
    "honest (if v3_type p = AlgebraTwoSideFee \<or> v3_type p = AlgebraPoolFeeInState then v3n_tick_table node
                else v3n_tick_bitmap node) word_at"
    using assms(3) by (auto simp: index_holds_def)
  from bitmap_exact [OF assms(1,2) this] show ?thesis
    using assms(4) False by (cases "v3_type p") (simp_all add: tick_indices_def)
qed

lemma fetched_ticks:
  assumes ok: "fetch_v3_ticks node p = Ok p'" and "0 < v3_tick_spacing p"
    and "proper_ticks (v3_tick_spacing p) (initialized_ticks evs)"
    and "index_holds node (v3_type p) (v3_tick_spacing p) (initialized_ticks evs)"
    and h: "honest (v3n_ticks node) (\<lambda>t. (word_of_int (gross_at evs t), net_at evs t))"
      "honest (v3n_algebra_ticks node) (\<lambda>t. (word_of_int (gross_at evs t), net_at evs t))"
    and b: "\<And>t. 0 \<le> gross_at evs t" "\<And>t. gross_at evs t < 2 ^ 127"
  shows "bt_inv (v3_ticks p') \<and> (\<forall>t. bt_get (v3_ticks p') t = tick_entry t (net_at evs t) (gross_at evs t)) \<and>
    p' = p\<lparr>v3_ticks := v3_ticks p'\<rparr>"
proof -
  let ?f = "\<lambda>t. (word_of_int (gross_at evs t) :: u128, net_at evs t)"
  obtain ts m where t: "tick_indices node p = Ok ts" "read_each (tick_calls node p) put_tick (chunks 250 ts) [] = Ok m"
    "p' = p\<lparr>v3_ticks := m\<rparr>"
    using ok by (auto simp: fetch_v3_ticks_def)
  have "ucast (word_of_int (gross_at evs t) :: u256) = (word_of_int (gross_at evs t) :: u128)" for t
  proof -
    have "uint (word_of_int (gross_at evs t) :: u256) = gross_at evs t" using b(1,2) [of t] by (intro uint_of_int) simp_all
    then show ?thesis using b(1,2) [of t] by (simp add: word_eq_uint uint_ucast_exact uint_of_int)
  qed
  then have "honest (tick_calls node p) ?f"
    using as_i24_honest [OF h(1)] as_i24_honest [OF narrow_honest [OF h(2)]] by (simp add: tick_calls_def)
  from read_each_honest [OF this t(2)] have m: "m = fold (\<lambda>k. put_tick k (?f k)) ts []" by simp
  have "bt_inv ([] :: tick_map)" by (simp add: bt_inv_def)
  note g = put_ticks [OF this, of ?f ts]
  have "set ts = initialized_ticks evs" by (rule tick_indices_exact [OF assms(2-4) t(1)])
  then have "bt_get m t = tick_entry t (net_at evs t) (gross_at evs t)" for t
    unfolding m using g [of t] by (auto simp: tick_entry_def initialized_ticks_def)
  then show ?thesis using t(3) g m by simp
qed

section \<open>Properties\<close>

text \<open>C7: a fetched V3 pool is the chain's: from a contract whose state comes from a history of liquidity changes, whichever
  of the protocols it is and however its ticks are indexed, the fetched pool tracks that history, with every
  initialized tick, no other, and the in-range liquidity; and so it goes on to do as later events are applied.\<close>

theorem v3_fetch_tracks:
  assumes "fetch_v3_pool node now a = Ok p" and "serves_v3 node evs"
    and "valid_history evs" and "total_held evs < 2 ^ 127"
  shows "v3_address p = a \<and> tracks p evs \<and>
    (\<forall>es. logs_allowed evs es \<longrightarrow> (\<exists>p'. v3_run later es p = (p', Ok ()) \<and> tracks p' (history_of evs es)))"
proof -
  have b: "0 \<le> gross_at evs t" "gross_at evs t < 2 ^ 127" for t
    using history_bounds [OF assms(3)] assms(4) by (auto intro: le_less_trans)
  obtain r ty config s where r: "v3n_reads node = Ok r" "classify_v3 r = Ok (ty, config, s)"
    using assms(1) by (auto simp: fetch_v3_pool_def)
  have sv: "0 < s3_tick_spacing s" "proper_ticks (s3_tick_spacing s) (initialized_ticks evs)"
    "index_holds node ty (s3_tick_spacing s) (initialized_ticks evs)" "uint (s3_liquidity s) = active_at evs (s3_tick s)"
    "honest (v3n_ticks node) (\<lambda>t. (word_of_int (gross_at evs t), net_at evs t))"
    "honest (v3n_algebra_ticks node) (\<lambda>t. (word_of_int (gross_at evs t), net_at evs t))"
    using assms(2) r unfolding serves_v3_def by blast+
  obtain q where q: "fetch_v3_ticks node q = Ok p" "v3_address q = a" "v3_type q = claim_ramses r ty"
    "v3_tick_spacing q = s3_tick_spacing s" "v3_tick q = s3_tick s" "v3_liquidity q = s3_liquidity s"
    using assms(1) r by (auto simp: fetch_v3_pool_def v3_new_def Let_def)
  have "bt_inv (v3_ticks p) \<and> (\<forall>t. bt_get (v3_ticks p) t = tick_entry t (net_at evs t) (gross_at evs t)) \<and>
    p = q\<lparr>v3_ticks := v3_ticks p\<rparr>"
    using sv q b by (intro fetched_ticks [OF q(1)]) (simp_all add: classify_ramses)
  moreover from this have "v3_address p = v3_address q" "v3_tick p = v3_tick q" "v3_liquidity p = v3_liquidity q"
    by (metis v3_pool.surjective v3_pool.update_convs(10) v3_pool.select_convs)+
  ultimately have "v3_address p = a" "tracks p evs" using q sv(4) by (simp_all add: tracks_def)
  then show ?thesis using run_tracks assms(3,4) by blast
qed

definition sample_v3_node :: v3_node where
  "sample_v3_node =
     \<lparr>v3n_reads = Ok \<lparr>r3_token0 = Some 2, r3_token1 = Some 3, r3_fee = Some 3000, r3_tick_spacing = Some 60,
        r3_slot0 = Some (2 ^ 96, - 60), r3_liquidity = Some 1000, r3_factory = Some 4, r3_clp_slot0 = None,
        r3_algebra_fee = None, r3_algebra_state = None, r3_two_side_state = None, r3_active_incentive = None,
        r3_fee_in_state = None, r3_last_period = None, r3_current_fee = None\<rparr>,
      v3n_tick_bitmap = (\<lambda>_. Ok (\<lambda>w. if w = - 1 \<or> w = 0 then 1 else 0)),
      v3n_tick_table = (\<lambda>_. Err TransportError), v3n_tick_tree_root = Err TransportError,
      v3n_second_layer = (\<lambda>_. Err TransportError),
      v3n_ticks = (\<lambda>_. Ok (\<lambda>t. (word_of_int (gross_at [(- 15360, 0, 1000)] t), net_at [(- 15360, 0, 1000)] t))),
      v3n_algebra_ticks = (\<lambda>_. Err TransportError), v3n_token = (\<lambda>a. Ok (a, 18))\<rparr>"

lemma sample_initialized: "initialized_ticks [(- 15360, 0, 1000)] = {- 15360, 0}"
  by (auto simp: initialized_ticks_def gross_at_def)

lemma sample_bitmap:
  "bitmap_holds (\<lambda>w. if w = - 1 \<or> w = 0 then 1 else 0) 60 {- 15360, 0}"
proof -
  have "bit (if w = - 1 \<or> w = 0 then 1 else 0 :: u256) i \<longleftrightarrow> (w * 256 + int i) * 60 \<in> {- 15360, 0}"
    if i: "i < 256" for w i
  proof -
    have m: "(w * 256 + int i) * 60 \<in> {- 15360, 0} \<longleftrightarrow> w * 256 + int i = - 256 \<or> w * 256 + int i = 0" by auto
    have "w * 256 + int i = 256 * k \<longleftrightarrow> w = k \<and> i = 0" for k
    proof
      assume s: "w * 256 + int i = 256 * k"
      then have "w = k" using i by linarith
      then show "w = k \<and> i = 0" using s by simp
    qed simp
    from this [of "- 1"] this [of 0]
    have "w * 256 + int i = - 256 \<longleftrightarrow> w = - 1 \<and> i = 0" and "w * 256 + int i = 0 \<longleftrightarrow> w = 0 \<and> i = 0"
      by simp_all
    then show ?thesis unfolding m by (auto simp: bit_1_iff)
  qed
  then show ?thesis by (simp add: bitmap_holds_def)
qed

lemma sample_v3_serves: "serves_v3 sample_v3_node [(- 15360, 0, 1000)]"
  using sample_bitmap
  by (auto simp: serves_v3_def sample_v3_node_def classify_v3_def read_v3_state_def call_ok_def sample_initialized
      proper_ticks_def tick_bounds index_holds_def honest_def active_at_def)

lemma sample_fetched: "\<exists>p. fetch_v3_pool sample_v3_node 9 1 = Ok p"
proof -
  define q where "q = (v3_new 1 2 3 3000 60 (2 ^ 96) (- 60) 1000 4 UniswapV3 9)\<lparr>v3_fee_source := Events\<rparr>"
  have q: "v3_type q = UniswapV3" "v3_tick_spacing q = 60" by (simp_all add: q_def v3_new_def)
  have lim: "tick_to_word MIN_TICK 60 = Ok (MIN_TICK div 60 div 256)" "tick_to_word MAX_TICK 60 = Ok (MAX_TICK div 60 div 256)"
    by (simp_all add: tick_to_word_floor tick_bounds)
  obtain ts where t: "tick_indices sample_v3_node q = Ok ts"
    using gather_answers [of "on_keys as_i16 (v3n_tick_bitmap sample_v3_node)"]
    by (auto simp: tick_indices_def q bitmap_ticks_def lim on_keys_def sample_v3_node_def Let_def)
  have "set ts = {- 15360, 0}"
    using sample_bitmap by (intro tick_indices_exact [OF _ _ _ t])
      (auto simp: q proper_ticks_def tick_bounds index_holds_def honest_def sample_v3_node_def)
  then have "tick_calls sample_v3_node q c = v3n_ticks sample_v3_node c" if "c \<in> set (chunks 250 ts)" for c
    using chunks_subset [OF that] by (auto simp: tick_calls_def q as_i24_calls_def srange_def)
  then have "tick_calls sample_v3_node q c =
      Ok (\<lambda>t. (word_of_int (gross_at [(- 15360, 0, 1000)] t), net_at [(- 15360, 0, 1000)] t))" if "c \<in> set (chunks 250 ts)" for c
    using that by (simp add: sample_v3_node_def)
  from read_each_answers [where cs = "chunks 250 ts" and call = "tick_calls sample_v3_node q" and put = put_tick and m = "[]", OF this]
  have "\<exists>m. read_each (tick_calls sample_v3_node q) put_tick (chunks 250 ts) [] = Ok m" by simp
  then have "\<exists>p. fetch_v3_ticks sample_v3_node q = Ok p" using t by (auto simp: fetch_v3_ticks_def)
  then show ?thesis
    by (simp add: fetch_v3_pool_def classify_v3_def read_v3_state_def call_ok_def claim_ramses_def current_fee_of_def
        unwrap_or_def classify_fee_source_def q_def sample_v3_node_def Let_def)
qed

theorem v3_fetch_tracks_witness:
  "\<exists>p. fetch_v3_pool sample_v3_node 9 1 = Ok p \<and> tracks p [(- 15360, 0, 1000)] \<and>
    (\<exists>p'. v3_run 10 [UniswapBurn (-15360) 0 1000] p = (p', Ok ()) \<and> bt_get (v3_ticks p') 0 = None)"
proof -
  obtain p where p: "fetch_v3_pool sample_v3_node 9 1 = Ok p" using sample_fetched by blast
  have v: "valid_history [(- 15360, 0, 1000)]" "total_held [(- 15360, 0, 1000)] < 2 ^ 127"
    by (simp_all add: valid_history_def held_def total_held_def)
  have "logs_allowed [(- 15360, 0, 1000)] [UniswapBurn (-15360) 0 1000]"
    by (simp add: burn_allowed_def total_held_def held_def)
  then obtain p' where "v3_run 10 [UniswapBurn (-15360) 0 1000] p = (p', Ok ())"
    "tracks p' (history_of [(- 15360, 0, 1000)] [UniswapBurn (-15360) 0 1000])" "tracks p [(- 15360, 0, 1000)]"
    using v3_fetch_tracks [OF p sample_v3_serves v, of 10] by blast
  moreover have "gross_at (history_of [(- 15360, 0, 1000)] [UniswapBurn (-15360) 0 1000]) 0 = 0"
    by (simp add: gross_at_def history_of_def)
  ultimately show ?thesis using p unfolding tracks_def tick_entry_def by auto
qed

end
