(* ===== verification/LB_Fetch.thy ===== *)
theory LB_Fetch
  imports LB_Events Fetch_Base
begin

text \<open>
  \<^verbatim>\<open>src/lb/version.rs\<close> and \<^verbatim>\<open>src/lb/fetcher.rs\<close>: which generation of Liquidity Book a pair is, and its state read
  from the chain. The bins are found in the pair's own storage, in a tree of bitmaps three levels deep, or,
  when storage cannot be read or the layout is not known, by walking outwards from the active bin. The node
  is a parameter, and so is \<^verbatim>\<open>keccak256\<close>.
\<close>

section \<open>What the node answers\<close>

record v20_fee_parameters =
  f20_bin_step :: u16
  f20_base_factor :: u16
  f20_filter_period :: u16
  f20_decay_period :: u16
  f20_reduction_factor :: u16
  f20_variable_fee_control :: u24
  f20_protocol_share :: u16
  f20_max_volatility_accumulated :: u24
  f20_volatility_accumulated :: u24
  f20_volatility_reference :: u24
  f20_index_ref :: u24
  f20_time :: "40 word"

record lb_detection =
  ld_hooks_parameters :: "u256 option"
  ld_get_factory :: "address option"
  ld_factory :: "address option"
  ld_fee_parameters :: "v20_fee_parameters option"

record v20_reads =
  r20_token_x :: "address option"
  r20_token_y :: "address option"
  r20_active_id :: "u256 option"
  r20_fee_parameters :: "v20_fee_parameters option"

record lb_static_fees =
  sf_base_factor :: u16
  sf_filter_period :: u16
  sf_decay_period :: u16
  sf_reduction_factor :: u16
  sf_variable_fee_control :: u24
  sf_protocol_share :: u16
  sf_max_volatility_accumulator :: u24

record lb_variable_fees =
  vf_volatility_accumulator :: u24
  vf_volatility_reference :: u24
  vf_id_reference :: u24
  vf_time_of_last_update :: "40 word"

record v21_reads =
  r21_token_x :: "address option"
  r21_token_y :: "address option"
  r21_bin_step :: "u16 option"
  r21_active_id :: "u24 option"
  r21_static_fees :: "lb_static_fees option"
  r21_variable_fees :: "lb_variable_fees option"

record lb_node =
  lbn_detection :: "lb_detection res"
  lbn_v20 :: "v20_reads res"
  lbn_v21 :: "v21_reads res"
  lbn_hooks_parameters :: "u256 res"
  lbn_storage :: "u256 \<Rightarrow> u256 res"
  lbn_find_first :: "u24 \<Rightarrow> bool \<Rightarrow> u24 res"
  lbn_next_bin :: "bool \<Rightarrow> u24 \<Rightarrow> u24 res"
  lbn_bins_v20 :: "(u32, u256 \<times> u256) multicall"
  lbn_bins :: "(u32, u128 \<times> u128) multicall"
  lbn_token :: token_lookup

section \<open>Version\<close>

definition detect_lb_version :: "lb_detection res \<Rightarrow> lb_version option res" where
  "detect_lb_version answer =
     and_then answer (\<lambda>r.
       if ld_hooks_parameters r \<noteq> None then Ok (Some V2_2)
       else if ld_get_factory r \<noteq> None then Ok (Some V2_1)
       else if ld_factory r \<noteq> None \<and> ld_fee_parameters r \<noteq> None then Ok (Some V2_0)
       else Ok None)"

section \<open>The bin tree in storage\<close>

definition LB_TREE_BASE_SLOT_V22 :: u64 where
  "LB_TREE_BASE_SLOT_V22 = 7"

definition LB_TREE_BASE_SLOT_V21 :: u64 where
  "LB_TREE_BASE_SLOT_V21 = 8"

text \<open>The hash is of 64 bytes, the key before the slot, both big-endian.\<close>

type_synonym hash = "u512 \<Rightarrow> u256"

definition mapping_storage_slot :: "hash \<Rightarrow> u256 \<Rightarrow> u256 \<Rightarrow> u256" where
  "mapping_storage_slot keccak256 key base_slot = keccak256 (push_bit 256 (ucast key) OR ucast base_slot)"

definition set_bits :: "u256 \<Rightarrow> u16 list" where
  "set_bits w = map of_nat (bit_positions w)"

text \<open>The keys of the next level: every set bit under every key of this one.\<close>

definition child_keys :: "u16 list \<Rightarrow> u256 list \<Rightarrow> u16 list" where
  "child_keys keys values = concat (map2 (\<lambda>k v. map (\<lambda>b. push_bit 8 k OR b) (set_bits v)) keys values)"

definition leaf_ids :: "u16 list \<Rightarrow> u256 list \<Rightarrow> u32 list" where
  "leaf_ids keys values = concat (map2 (\<lambda>k v. map (\<lambda>b. push_bit 8 (ucast k) OR ucast b) (set_bits v)) keys values)"

definition read_level :: "hash \<Rightarrow> (u256 \<Rightarrow> u256 res) \<Rightarrow> u64 \<Rightarrow> u16 list \<Rightarrow> u256 list res" where
  "read_level keccak256 storage base keys =
     try_join_all (map (\<lambda>k. storage (mapping_storage_slot keccak256 (ucast k) (ucast base))) keys)"

definition discover_bins_from_tree :: "hash \<Rightarrow> (u256 \<Rightarrow> u256 res) \<Rightarrow> u64 \<Rightarrow> u32 list option res" where
  "discover_bins_from_tree keccak256 storage base =
     and_then (storage (ucast base)) (\<lambda>level0.
       if level0 = 0 then Ok None
       else let level0_bits = set_bits level0
            in and_then (read_level keccak256 storage (base + 1) level0_bits) (\<lambda>level1_values.
               let level2_keys = child_keys level0_bits level1_values
               in and_then (read_level keccak256 storage (base + 2) level2_keys) (\<lambda>level2_values.
                  Ok (Some (leaf_ids level2_keys level2_values)))))"

section \<open>The walk\<close>

definition TREE_MATH_ERROR_DEPTH_SEARCH :: u32 where
  "TREE_MATH_ERROR_DEPTH_SEARCH = 0x10d64861"

definition rpc_next_non_empty_bin :: "lb_node \<Rightarrow> lb_version \<Rightarrow> bool \<Rightarrow> u32 \<Rightarrow> u32 option res" where
  "rpc_next_non_empty_bin node version swap_for_y i =
     and_then (to_uint i) (\<lambda>i.
     case version of
       V2_0 \<Rightarrow>
         (case lbn_find_first node i swap_for_y of
            Inr next_id \<Rightarrow> Ok (Some (ucast next_id))
          | Inl e \<Rightarrow> if e = Reverted TREE_MATH_ERROR_DEPTH_SEARCH then Ok None else Err e)
     | _ \<Rightarrow> and_then (lbn_next_bin node swap_for_y i) (\<lambda>next_id. Ok (Some (ucast next_id))))"

text \<open>The two loops; each step goes strictly down or strictly up, so they end whatever the node answers.\<close>

function walk_down :: "lb_node \<Rightarrow> lb_version \<Rightarrow> u32 \<Rightarrow> u32 list res" where
  "walk_down node version i =
     (case rpc_next_non_empty_bin node version True i of
        Inl e \<Rightarrow> Err e
      | Inr None \<Rightarrow> Ok []
      | Inr (Some next_id) \<Rightarrow>
          if next_id = 0 \<or> next_id \<ge> i then Ok []
          else and_then (walk_down node version next_id) (\<lambda>ids. Ok (next_id # ids)))"
  by pat_completeness auto
termination
  by (relation "measure (\<lambda>(_, _, i). unat i)") (auto simp: not_le word_less_nat_alt)

lemma unat_u32: "unat (i :: u32) < 4294967296"
  using unsigned_less [of i] by simp

function walk_up :: "lb_node \<Rightarrow> lb_version \<Rightarrow> u32 \<Rightarrow> u32 list res" where
  "walk_up node version i =
     (case rpc_next_non_empty_bin node version False i of
        Inl e \<Rightarrow> Err e
      | Inr None \<Rightarrow> Ok []
      | Inr (Some next_id) \<Rightarrow>
          if next_id = 0x00FFFFFF \<or> next_id \<le> i then Ok []
          else and_then (walk_up node version next_id) (\<lambda>ids. Ok (next_id # ids)))"
  by pat_completeness auto
termination
  by (relation "measure (\<lambda>(_, _, i). 2 ^ 32 - unat i)") (auto simp: not_le word_less_nat_alt intro!: diff_less_mono2 unat_u32)

declare walk_down.simps [simp del] walk_up.simps [simp del]

definition discover_bins_by_walking :: "lb_node \<Rightarrow> u32 \<Rightarrow> lb_version \<Rightarrow> u32 list res" where
  "discover_bins_by_walking node active_id version =
     and_then (walk_down node version active_id) (\<lambda>below.
     and_then (walk_up node version active_id) (\<lambda>above.
     Ok (remdups_adj (sort (active_id # below @ above)))))"

definition tree_base_slot :: "lb_version \<Rightarrow> u64 option" where
  "tree_base_slot version =
     (case version of V2_2 \<Rightarrow> Some LB_TREE_BASE_SLOT_V22 | V2_1 \<Rightarrow> Some LB_TREE_BASE_SLOT_V21 | V2_0 \<Rightarrow> None)"

section \<open>The pair's state\<close>

record lb_state =
  ls_token_x :: address
  ls_token_y :: address
  ls_bin_step :: u16
  ls_active_id :: u32
  ls_base_factor :: u16
  ls_filter_period :: u16
  ls_decay_period :: u16
  ls_reduction_factor :: u16
  ls_variable_fee_control :: u32
  ls_protocol_share :: u16
  ls_max_volatility_accumulator :: u32
  ls_volatility_accumulator :: u32
  ls_volatility_reference :: u32
  ls_id_reference :: u32
  ls_time_of_last_update :: u64

definition fetch_v20_state :: "lb_node \<Rightarrow> lb_state res" where
  "fetch_v20_state node =
     and_then (lbn_v20 node) (\<lambda>r.
     and_then (call_ok ''tokenX'' (r20_token_x r)) (\<lambda>token_x.
     and_then (call_ok ''tokenY'' (r20_token_y r)) (\<lambda>token_y.
     and_then (call_ok ''getReservesAndId'' (r20_active_id r)) (\<lambda>active.
     and_then (call_ok ''feeParameters'' (r20_fee_parameters r)) (\<lambda>f.
     and_then (to_uint active) (\<lambda>active_id.
     Ok \<lparr>ls_token_x = token_x, ls_token_y = token_y, ls_bin_step = f20_bin_step f, ls_active_id = active_id,
         ls_base_factor = f20_base_factor f, ls_filter_period = f20_filter_period f,
         ls_decay_period = f20_decay_period f, ls_reduction_factor = f20_reduction_factor f,
         ls_variable_fee_control = ucast (f20_variable_fee_control f), ls_protocol_share = f20_protocol_share f,
         ls_max_volatility_accumulator = ucast (f20_max_volatility_accumulated f),
         ls_volatility_accumulator = ucast (f20_volatility_accumulated f),
         ls_volatility_reference = ucast (f20_volatility_reference f), ls_id_reference = ucast (f20_index_ref f),
         ls_time_of_last_update = ucast (f20_time f)\<rparr>))))))"

definition fetch_v21_state :: "lb_node \<Rightarrow> lb_state res" where
  "fetch_v21_state node =
     and_then (lbn_v21 node) (\<lambda>r.
     and_then (call_ok ''getTokenX'' (r21_token_x r)) (\<lambda>token_x.
     and_then (call_ok ''getTokenY'' (r21_token_y r)) (\<lambda>token_y.
     and_then (call_ok ''getBinStep'' (r21_bin_step r)) (\<lambda>bin_step.
     and_then (call_ok ''getActiveId'' (r21_active_id r)) (\<lambda>active_id.
     and_then (call_ok ''getStaticFeeParameters'' (r21_static_fees r)) (\<lambda>s.
     and_then (call_ok ''getVariableFeeParameters'' (r21_variable_fees r)) (\<lambda>v.
     Ok \<lparr>ls_token_x = token_x, ls_token_y = token_y, ls_bin_step = bin_step, ls_active_id = ucast active_id,
         ls_base_factor = sf_base_factor s, ls_filter_period = sf_filter_period s,
         ls_decay_period = sf_decay_period s, ls_reduction_factor = sf_reduction_factor s,
         ls_variable_fee_control = ucast (sf_variable_fee_control s), ls_protocol_share = sf_protocol_share s,
         ls_max_volatility_accumulator = ucast (sf_max_volatility_accumulator s),
         ls_volatility_accumulator = ucast (vf_volatility_accumulator v),
         ls_volatility_reference = ucast (vf_volatility_reference v), ls_id_reference = ucast (vf_id_reference v),
         ls_time_of_last_update = ucast (vf_time_of_last_update v)\<rparr>)))))))"

section \<open>The pool\<close>

definition discover_bins :: "hash \<Rightarrow> lb_node \<Rightarrow> address \<Rightarrow> lb_version \<Rightarrow> u32 \<Rightarrow> u32 list res" where
  "discover_bins keccak256 node pair version active_id =
     (case tree_base_slot version of
        Some base \<Rightarrow>
          (case discover_bins_from_tree keccak256 (lbn_storage node) base of
             Inr (Some ids) \<Rightarrow> if ids = [] then Err (LBTreeContradiction pair) else Ok ids
           | Inr None \<Rightarrow> Ok []
           | Inl _ \<Rightarrow>
               (case discover_bins_by_walking node active_id version of
                  Inr ids \<Rightarrow> Ok ids
                | Inl _ \<Rightarrow> Err (BinDiscoveryFailed pair)))
      | None \<Rightarrow> discover_bins_by_walking node active_id version)"

text \<open>\<^verbatim>\<open>try_into().unwrap_or(0)\<close>; a bin is kept when it holds something.\<close>

definition narrow_or_zero :: "u256 \<Rightarrow> u128" where
  "narrow_or_zero x = (if uint x < 2 ^ 128 then ucast x else 0)"

definition non_empty :: "u128 \<times> u128 \<Rightarrow> (u128 \<times> u128) option" where
  "non_empty r = (if fst r > 0 \<or> snd r > 0 then Some r else None)"

definition fetch_bins :: "lb_node \<Rightarrow> lb_version \<Rightarrow> u32 list \<Rightarrow> (u32, u128 \<times> u128) btree res" where
  "fetch_bins node version ids =
     (if version = V2_0
      then read_each (lbn_bins_v20 node) (put_if (\<lambda>(x, y). non_empty (narrow_or_zero x, narrow_or_zero y))) (chunks 250 ids) []
      else read_each (lbn_bins node) (put_if non_empty) (chunks 250 ids) [])"

definition hooks_of :: "lb_node \<Rightarrow> lb_version \<Rightarrow> u256 option res" where
  "hooks_of node version =
     (if version = V2_2 then and_then (lbn_hooks_parameters node) (\<lambda>h. Ok (if h = 0 then None else Some h)) else Ok None)"

definition fetch_lb_pool :: "hash \<Rightarrow> lb_node \<Rightarrow> u64 \<Rightarrow> address \<Rightarrow> lb_pool res" where
  "fetch_lb_pool keccak256 node now pair =
     and_then (detect_lb_version (lbn_detection node)) (\<lambda>version.
     and_then (case version of None \<Rightarrow> Err (NotAnLBPair pair) | Some v \<Rightarrow> Ok v) (\<lambda>version.
     and_then (if version = V2_0 then fetch_v20_state node else fetch_v21_state node) (\<lambda>state.
     and_then (hooks_of node version) (\<lambda>hooks.
     and_then (lbn_token node (ls_token_x state)) (\<lambda>(token_x, _).
     and_then (lbn_token node (ls_token_y state)) (\<lambda>(token_y, _).
     and_then (discover_bins keccak256 node pair version (ls_active_id state)) (\<lambda>bin_ids.
     and_then (fetch_bins node version bin_ids) (\<lambda>bins.
     Ok (with_hooks_parameters hooks (with_version version
       (lb_new pair token_x token_y (ls_bin_step state) (ls_active_id state) bins (ls_base_factor state)
         (ls_filter_period state) (ls_decay_period state) (ls_reduction_factor state) (ls_variable_fee_control state)
         (ls_protocol_share state) (ls_max_volatility_accumulator state) (ls_volatility_accumulator state)
         (ls_volatility_reference state) (ls_id_reference state) (ls_time_of_last_update state) now)))))))))))"

section \<open>Composing bin ids\<close>

lemma push_or_nat: "b < 256 \<Longrightarrow> push_bit 8 k OR b = k * 256 + b" for k b :: nat
proof -
  assume "b < 256"
  then have b: "take_bit 8 b = b" by (simp add: take_bit_nat_eq_self_iff)
  have "push_bit 8 k AND b = push_bit 8 k AND take_bit 8 b" by (simp only: b)
  also have "\<dots> = 0" by (rule bit_eqI) (simp add: bit_simps)
  finally have "push_bit 8 k + b = push_bit 8 k OR b" by (rule disjunctive_add_eq_or)
  then show ?thesis by (simp add: push_bit_eq_mult)
qed

lemma unat_push_or:
  fixes k b :: "'n::len word"
  assumes "unat b < 256" and "unat k * 256 + unat b < 2 ^ LENGTH('n)"
  shows "unat (push_bit 8 k OR b) = unat k * 256 + unat b"
proof -
  have "take_bit LENGTH('n) (push_bit 8 (unat k)) = push_bit 8 (unat k)"
    using assms(2) by (simp add: take_bit_nat_eq_self_iff push_bit_eq_mult)
  then show ?thesis
    using push_or_nat [OF assms(1), of "unat k"] by (simp add: unsigned_or_eq unsigned_push_bit_eq)
qed

lemma unat_of_bit: "b < 256 \<Longrightarrow> unat (of_nat b :: u16) = b"
  by (simp add: unat_of_nat)

lemma set_bits_set: "x \<in> set (set_bits w) \<longleftrightarrow> unat x < 256 \<and> bit w (unat x)"
proof
  assume "x \<in> set (set_bits w)"
  then obtain b where "b \<in> set (bit_positions w)" "x = of_nat b" by (auto simp: set_bits_def)
  then show "unat x < 256 \<and> bit w (unat x)"
    using bit_positions_256 [of b w] by (simp add: bit_positions_set unat_of_bit)
next
  assume "unat x < 256 \<and> bit w (unat x)"
  then have "unat x \<in> set (bit_positions w)" by (simp add: bit_positions_set)
  then have "of_nat (unat x) \<in> (of_nat :: nat \<Rightarrow> u16) ` set (bit_positions w)" by (rule imageI)
  then show "x \<in> set (set_bits w)" by (simp add: set_bits_def)
qed

text \<open>One level down: a key is found when its parent was and its bit is set there.\<close>

lemma joined_set:
  fixes join :: "u16 \<Rightarrow> u16 \<Rightarrow> 'n::len word"
  assumes u: "\<And>k b. k \<in> set keys \<Longrightarrow> unat b < 256 \<Longrightarrow> unat (join k b) = unat k * 256 + unat b"
  shows "x \<in> set (concat (map2 (\<lambda>k v. map (join k) (set_bits v)) keys (map value keys))) \<longleftrightarrow>
    (\<exists>k \<in> set keys. unat x div 256 = unat k \<and> bit (value k) (unat x mod 256))"
proof -
  have "map2 (\<lambda>k v. map (join k) (set_bits v)) keys (map value keys) = map (\<lambda>k. map (join k) (set_bits (value k))) keys"
    by (induction keys) simp_all
  then have "x \<in> set (concat (map2 (\<lambda>k v. map (join k) (set_bits v)) keys (map value keys))) \<longleftrightarrow>
      (\<exists>k \<in> set keys. \<exists>b \<in> set (set_bits (value k)). x = join k b)"
    by (auto simp: image_iff)
  also have "\<dots> \<longleftrightarrow> (\<exists>k \<in> set keys. unat x div 256 = unat k \<and> bit (value k) (unat x mod 256))"
  proof (intro bex_cong refl iffI)
    fix k
    assume k: "k \<in> set keys"
    { assume "\<exists>b \<in> set (set_bits (value k)). x = join k b"
      then obtain b where "b \<in> set (set_bits (value k))" "x = join k b" by blast
      then have "unat b < 256" "bit (value k) (unat b)" "unat x = unat k * 256 + unat b"
        using u [OF k, of b] by (simp_all add: set_bits_set)
      then show "unat x div 256 = unat k \<and> bit (value k) (unat x mod 256)" by simp }
    { assume r: "unat x div 256 = unat k \<and> bit (value k) (unat x mod 256)"
      define b :: u16 where "b = of_nat (unat x mod 256)"
      have b: "unat b = unat x mod 256" by (simp add: b_def unat_of_bit)
      then have "unat (join k b) = unat k * 256 + unat x mod 256" using u [OF k, of b] by simp
      then have "unat (join k b) = unat x" using r div_mult_mod_eq [of "unat x" 256] by simp
      then have "x = join k b" by (simp add: word_unat_eq_iff)
      then show "\<exists>b \<in> set (set_bits (value k)). x = join k b" using b r by (auto simp: set_bits_set) }
  qed
  finally show ?thesis .
qed

lemma child_keys_set:
  assumes "\<forall>k \<in> set keys. unat k < 256"
  shows "x \<in> set (child_keys keys (map value keys)) \<longleftrightarrow>
    (\<exists>k \<in> set keys. unat x div 256 = unat k \<and> bit (value k) (unat x mod 256))"
  unfolding child_keys_def
proof (rule joined_set)
  fix k b :: u16
  assume "k \<in> set keys" "unat b < 256"
  then show "unat (push_bit 8 k OR b) = unat k * 256 + unat b" using assms by (intro unat_push_or) fastforce+
qed

lemma leaf_ids_set:
  "x \<in> set (leaf_ids keys (map value keys)) \<longleftrightarrow>
    (\<exists>k \<in> set keys. unat x div 256 = unat k \<and> bit (value k) (unat x mod 256))"
  unfolding leaf_ids_def
proof (rule joined_set)
  fix k b :: u16
  assume b: "unat b < 256"
  have e: "unat (ucast k :: u32) = unat k" for k :: u16
    using unsigned_less [of k, where 'a = nat] by (simp add: unsigned_ucast_eq take_bit_nat_eq_self)
  have "unat k < 65536" using unsigned_less [of k, where 'a = nat] by simp
  then show "unat (push_bit 8 (ucast k) OR ucast b :: u32) = unat k * 256 + unat b"
    using b by (subst unat_push_or) (simp_all add: e)
qed

section \<open>What the tree holds\<close>

text \<open>
  The layout of the contract's \<^verbatim>\<open>TreeUint24\<close>: a bit of the root per group of 65536 ids that has a bin, a bit of
  the second level per group of 256, a bit of the third per bin.
\<close>

definition tree_holds :: "hash \<Rightarrow> (u256 \<Rightarrow> u256) \<Rightarrow> u64 \<Rightarrow> u32 set \<Rightarrow> bool" where
  "tree_holds keccak256 stored base ids \<longleftrightarrow>
     (\<forall>i \<in> ids. unat i < 2 ^ 24) \<and>
     (\<forall>k. bit (stored (ucast base)) k \<longleftrightarrow> (\<exists>i \<in> ids. unat i div 65536 = k)) \<and>
     (\<forall>k :: u16. \<forall>j < 256. unat k < 256 \<longrightarrow>
        (bit (stored (mapping_storage_slot keccak256 (ucast k) (ucast (base + 1)))) j \<longleftrightarrow> (\<exists>i \<in> ids. unat i div 256 = unat k * 256 + j))) \<and>
     (\<forall>k :: u16. \<forall>j < 256.
        (bit (stored (mapping_storage_slot keccak256 (ucast k) (ucast (base + 2)))) j \<longleftrightarrow> (\<exists>i \<in> ids. unat i = unat k * 256 + j)))"

text \<open>A read either fails or yields what is stored.\<close>

definition reads_stored :: "(u256 \<Rightarrow> u256 res) \<Rightarrow> (u256 \<Rightarrow> u256) \<Rightarrow> bool" where
  "reads_stored storage stored \<longleftrightarrow> (\<forall>slot v. storage slot = Ok v \<longrightarrow> v = stored slot)"

lemma read_level_stored:
  "reads_stored storage stored \<Longrightarrow> read_level keccak256 storage base keys = Ok vs \<Longrightarrow>
     vs = map (\<lambda>k. stored (mapping_storage_slot keccak256 (ucast k) (ucast base))) keys"
  by (induction keys arbitrary: vs) (auto simp: read_level_def reads_stored_def)

lemma tree_exact:
  assumes t: "tree_holds keccak256 stored base ids" and s: "reads_stored storage stored"
    and d: "discover_bins_from_tree keccak256 storage base = Ok found"
  shows "case found of None \<Rightarrow> ids = {} | Some xs \<Rightarrow> set xs = ids \<and> xs \<noteq> []"
proof -
  let ?level = "\<lambda>n (k :: u16). stored (mapping_storage_slot keccak256 (ucast k) (ucast (base + n)))"
  have root: "bit (stored (ucast base)) k \<longleftrightarrow> (\<exists>i \<in> ids. unat i div 65536 = k)" for k using t by (simp add: tree_holds_def)
  show ?thesis
  proof (cases found)
    case None
    then have "stored (ucast base) = 0" using d s by (auto simp: discover_bins_from_tree_def reads_stored_def Let_def split: if_splits)
    then show ?thesis using root None by auto
  next
    case (Some xs)
    define k0 where "k0 = set_bits (stored (ucast base))"
    obtain v1 v2 where v: "stored (ucast base) \<noteq> 0" "read_level keccak256 storage (base + 1) k0 = Ok v1"
      "read_level keccak256 storage (base + 2) (child_keys k0 v1) = Ok v2" "xs = leaf_ids (child_keys k0 v1) v2"
      using d s Some unfolding k0_def
      by (auto simp: discover_bins_from_tree_def reads_stored_def Let_def split: if_splits)
    define k1 where "k1 = child_keys k0 (map (?level 1) k0)"
    have xs_def: "xs = leaf_ids k1 (map (?level 2) k1)"
      using v(4) read_level_stored [OF s v(2)] read_level_stored [OF s v(3)] by (simp add: k1_def)
    have s0: "k \<in> set k0 \<longleftrightarrow> (\<exists>i \<in> ids. unat i div 65536 = unat k)" for k
      using root [of "unat k"] bit_imp_le_length [of "stored (ucast base)" "unat k"] by (auto simp: k0_def set_bits_set)
    have k0: "\<forall>k \<in> set k0. unat k < 256" by (simp add: k0_def set_bits_set)
    have s1: "k \<in> set k1 \<longleftrightarrow> (\<exists>i \<in> ids. unat i div 256 = unat k)" for k
    proof -
      have "k \<in> set k1 \<longleftrightarrow> (\<exists>j \<in> set k0. unat k div 256 = unat j \<and> bit (?level 1 j) (unat k mod 256))"
        unfolding k1_def by (rule child_keys_set [OF k0])
      also have "\<dots> \<longleftrightarrow> (\<exists>j \<in> set k0. unat k div 256 = unat j \<and> (\<exists>i \<in> ids. unat i div 256 = unat j * 256 + unat k mod 256))"
        using t k0 by (auto simp: tree_holds_def)
      also have "\<dots> \<longleftrightarrow> (\<exists>j \<in> set k0. unat k div 256 = unat j \<and> (\<exists>i \<in> ids. unat i div 256 = unat k))"
        using div_mult_mod_eq [of "unat k" 256] by (intro bex_cong conj_cong refl) simp
      also have "\<dots> \<longleftrightarrow> (\<exists>i \<in> ids. unat i div 256 = unat k)"
      proof
        assume "\<exists>i \<in> ids. unat i div 256 = unat k"
        then obtain i where i: "i \<in> ids" "unat i div 256 = unat k" by blast
        have "unat i div 65536 = unat k div 256" using i(2) div_mult2_eq [of "unat i" 256 256] by simp
        moreover have "unat i < 2 ^ 24" using t i(1) by (simp add: tree_holds_def)
        ultimately have "unat k div 256 < 256" by simp
        then have e: "unat (of_nat (unat k div 256) :: u16) = unat k div 256" by (rule unat_of_bit)
        then have "of_nat (unat k div 256) \<in> set k0"
          using s0 [of "of_nat (unat k div 256)"] i \<open>unat i div 65536 = unat k div 256\<close> by auto
        then show "\<exists>j \<in> set k0. unat k div 256 = unat j \<and> (\<exists>i \<in> ids. unat i div 256 = unat k)"
          using e i by (intro bexI [of _ "of_nat (unat k div 256)"]) auto
      qed blast
      finally show ?thesis .
    qed
    have mem: "x \<in> set xs \<longleftrightarrow> x \<in> ids" for x
    proof -
      have "x \<in> set xs \<longleftrightarrow> (\<exists>k \<in> set k1. unat x div 256 = unat k \<and> bit (?level 2 k) (unat x mod 256))"
        unfolding xs_def by (rule leaf_ids_set)
      also have "\<dots> \<longleftrightarrow> (\<exists>k \<in> set k1. unat x div 256 = unat k \<and> (\<exists>i \<in> ids. unat i = unat k * 256 + unat x mod 256))"
        using t by (auto simp: tree_holds_def)
      also have "\<dots> \<longleftrightarrow> (\<exists>k \<in> set k1. unat x div 256 = unat k \<and> x \<in> ids)"
        using div_mult_mod_eq [of "unat x" 256] by (intro bex_cong conj_cong refl) (auto dest!: word_unat_eq_iff [THEN iffD2])
      also have "\<dots> \<longleftrightarrow> x \<in> ids"
      proof
        assume i: "x \<in> ids"
        then have "unat x < 2 ^ 24" using t by (simp add: tree_holds_def)
        then have e: "unat (of_nat (unat x div 256) :: u16) = unat x div 256" by (simp add: unat_of_nat)
        then have "of_nat (unat x div 256) \<in> set k1" using s1 i by auto
        then show "\<exists>k \<in> set k1. unat x div 256 = unat k \<and> x \<in> ids"
          using e i by (intro bexI [of _ "of_nat (unat x div 256)"]) auto
      qed blast
      finally show ?thesis .
    qed
    obtain k where "bit (stored (ucast base)) k" using v(1) by (auto simp: bit_eq_iff)
    then have "ids \<noteq> {}" using root by blast
    then have "set xs = ids \<and> xs \<noteq> []" using mem by auto
    then show ?thesis using Some by simp
  qed
qed

section \<open>What the walk finds\<close>

text \<open>
  The getters name the nearest bin on the side asked for. When there is none, v2.0 reverts, and the later
  versions answer with an id that is not on that side: the largest id downwards, 0 upwards.
\<close>

definition walks_over :: "lb_node \<Rightarrow> lb_version \<Rightarrow> u32 set \<Rightarrow> bool" where
  "walks_over node version ids \<longleftrightarrow> (\<forall>i r.
     (rpc_next_non_empty_bin node version True i = Ok r \<longrightarrow>
        (case r of Some n \<Rightarrow> n < i \<longrightarrow> n \<in> ids | None \<Rightarrow> True) \<and>
        (\<forall>j \<in> ids. j < i \<longrightarrow> (\<exists>n. r = Some n \<and> j \<le> n \<and> n < i))) \<and>
     (rpc_next_non_empty_bin node version False i = Ok r \<longrightarrow>
        (case r of Some n \<Rightarrow> n > i \<longrightarrow> n \<in> ids | None \<Rightarrow> True) \<and>
        (\<forall>j \<in> ids. j > i \<longrightarrow> (\<exists>n. r = Some n \<and> n \<le> j \<and> i < n))))"

lemma walk_down_set:
  assumes "walks_over node version ids" and "0 \<notin> ids"
  shows "walk_down node version i = Ok xs \<Longrightarrow> set xs = {j \<in> ids. j < i}"
proof (induction "unat i" arbitrary: i xs rule: less_induct)
  case less
  obtain r where r: "rpc_next_non_empty_bin node version True i = Ok r"
    using less.prems by (subst (asm) walk_down.simps) (auto split: sum.splits)
  have n: "\<And>n. r = Some n \<Longrightarrow> n < i \<Longrightarrow> n \<in> ids"
    and j: "\<And>j. j \<in> ids \<Longrightarrow> j < i \<Longrightarrow> \<exists>n. r = Some n \<and> j \<le> n \<and> n < i"
    using assms(1) r unfolding walks_over_def by fastforce+
  show ?case
  proof (cases "\<exists>n. r = Some n \<and> n \<noteq> 0 \<and> n < i")
    case True
    then obtain m where m: "r = Some m" "m \<noteq> 0" "m < i" by blast
    obtain ys where y: "walk_down node version m = Ok ys" "xs = m # ys"
      using less.prems r m by (auto simp: walk_down.simps [of node version i] split: if_splits)
    have "set ys = {j \<in> ids. j < m}" using less.hyps [of m] y(1) m(3) by (simp add: word_less_nat_alt)
    then show ?thesis using y(2) n [OF m(1,3)] j m by (auto simp: order_le_less) 
  next
    case False
    then have "xs = []"
      using less.prems r by (subst (asm) walk_down.simps) (auto split: option.splits if_splits)
    moreover have "\<not> j' < i" if j': "j' \<in> ids" for j'
    proof
      assume "j' < i"
      then obtain m where m: "r = Some m" "j' \<le> m" "m < i" using j [OF j'] by blast
      then have "m = 0" using False by blast
      moreover have "m \<in> ids" using n m by blast
      ultimately show False using assms(2) by simp
    qed
    ultimately show ?thesis by auto
  qed
qed

lemma walk_up_set:
  assumes "walks_over node version ids" and "0x00FFFFFF \<notin> ids" and below: "\<forall>j \<in> ids. unat j < 2 ^ 24"
  shows "walk_up node version i = Ok xs \<Longrightarrow> set xs = {j \<in> ids. j > i}"
proof (induction "2 ^ 32 - unat i" arbitrary: i xs rule: less_induct)
  case less
  obtain r where r: "rpc_next_non_empty_bin node version False i = Ok r"
    using less.prems by (subst (asm) walk_up.simps) (auto split: sum.splits)
  have n: "\<And>n. r = Some n \<Longrightarrow> n > i \<Longrightarrow> n \<in> ids"
    and j: "\<And>j. j \<in> ids \<Longrightarrow> j > i \<Longrightarrow> \<exists>n. r = Some n \<and> n \<le> j \<and> i < n"
    using assms(1) r unfolding walks_over_def by fastforce+
  show ?case
  proof (cases "\<exists>n. r = Some n \<and> n \<noteq> 0x00FFFFFF \<and> n > i")
    case True
    then obtain m where m: "r = Some m" "m \<noteq> 0x00FFFFFF" "m > i" by blast
    obtain ys where y: "walk_up node version m = Ok ys" "xs = m # ys"
      using less.prems r m by (auto simp: walk_up.simps [of node version i] split: if_splits)
    have "2 ^ 32 - unat m < 2 ^ 32 - unat i"
      using m(3) unat_u32 [of i] by (intro diff_less_mono2) (simp_all add: word_less_nat_alt)
    then have "set ys = {j \<in> ids. j > m}" using less.hyps [of m] y(1) by simp
    then show ?thesis using y(2) n [OF m(1,3)] j m by (auto simp: order_le_less)
  next
    case False
    then have "xs = []"
      using less.prems r by (subst (asm) walk_up.simps) (auto split: option.splits if_splits)
    moreover have "\<not> j' > i" if j': "j' \<in> ids" for j'
    proof
      assume "j' > i"
      then obtain m where m: "r = Some m" "m \<le> j'" "i < m" using j [OF j'] by blast
      then have "m = 0x00FFFFFF" using False by blast
      moreover have "m \<in> ids" using n m by blast
      ultimately show False using assms(2) by simp
    qed
    ultimately show ?thesis by auto
  qed
qed

lemma walk_exact:
  assumes "walks_over node version ids" and "0 \<notin> ids" and "0x00FFFFFF \<notin> ids" and "\<forall>j \<in> ids. unat j < 2 ^ 24"
    and "discover_bins_by_walking node active_id version = Ok xs"
  shows "set xs = insert active_id ids"
  using assms(5) walk_down_set [OF assms(1,2)] walk_up_set [OF assms(1,3,4)]
  by (auto simp: discover_bins_by_walking_def set_insort_key neq_iff)

section \<open>What the fetch brings back\<close>

text \<open>
  A pair as its contract holds it: \<open>ids\<close> are the bins of its tree, among them every bin that holds something,
  and what the node answers, to each call it answers at all, is the contract's state.
\<close>

definition serves_pair :: "hash \<Rightarrow> lb_node \<Rightarrow> lb_version \<Rightarrow> u32 set \<Rightarrow> (u32 \<Rightarrow> u128 \<times> u128) \<Rightarrow> bool" where
  "serves_pair keccak256 node version ids reserves \<longleftrightarrow>
     (\<exists>stored. reads_stored (lbn_storage node) stored \<and>
        (\<forall>base. tree_base_slot version = Some base \<longrightarrow> tree_holds keccak256 stored base ids)) \<and>
     walks_over node version ids \<and> 0 \<notin> ids \<and> 0x00FFFFFF \<notin> ids \<and> (\<forall>i \<in> ids. unat i < 2 ^ 24) \<and>
     honest (lbn_bins node) reserves \<and> honest (lbn_bins_v20 node) (\<lambda>i. map_prod ucast ucast (reserves i)) \<and>
     (\<forall>i. reserves i \<noteq> (0, 0) \<longrightarrow> i \<in> ids)"

lemma discover_exact:
  assumes "serves_pair keccak256 node version ids reserves"
    and "discover_bins keccak256 node pair version active_id = Ok xs"
  shows "ids \<subseteq> set xs"
proof -
  have w: "ids \<subseteq> set ys" if "discover_bins_by_walking node active_id version = Ok ys" for ys
    using walk_exact [OF _ _ _ _ that, of ids] assms(1) by (auto simp: serves_pair_def)
  show ?thesis
  proof (cases "tree_base_slot version")
    case None
    then show ?thesis using assms(2) w by (simp add: discover_bins_def)
  next
    case (Some base)
    obtain stored where s: "reads_stored (lbn_storage node) stored" "tree_holds keccak256 stored base ids"
      using assms(1) Some by (auto simp: serves_pair_def)
    show ?thesis
    proof (cases "discover_bins_from_tree keccak256 (lbn_storage node) base")
      case (Inl e)
      then show ?thesis using assms(2) w Some by (auto simp: discover_bins_def split: sum.splits)
    next
      case (Inr found)
      then show ?thesis
        using tree_exact [OF s(2,1) Inr] assms(2) Some by (auto simp: discover_bins_def split: option.splits if_splits)
    qed
  qed
qed

lemma narrow_reserves: "narrow_or_zero (ucast x) = x" for x :: u128
proof -
  have "uint (ucast x :: u256) = uint x" by (rule uint_ucast_up) simp
  then show ?thesis using uint_less [of x] by (simp add: narrow_or_zero_def word_eq_uint uint_ucast_exact)
qed

lemma non_empty_eq: "non_empty r = (if r = (0, 0) then None else Some r)"
  by (cases r) (auto simp: non_empty_def word_neq_0_conv)

lemma fetch_bins_exact:
  assumes "honest (lbn_bins node) reserves" and "honest (lbn_bins_v20 node) (\<lambda>i. map_prod ucast ucast (reserves i))"
    and "fetch_bins node version xs = Ok bins"
  shows "bt_inv bins \<and> bt_get bins i = (if i \<in> set xs \<and> reserves i \<noteq> (0, 0) then Some (reserves i) else None)"
proof -
  have e: "bt_inv ([] :: (u32, u128 \<times> u128) btree)" by (simp add: bt_inv_def)
  show ?thesis
  proof (cases "version = V2_0")
    case True
    then have "read_each (lbn_bins_v20 node) (put_if (\<lambda>(x, y). non_empty (narrow_or_zero x, narrow_or_zero y))) (chunks 250 xs) [] = Ok bins"
      using assms(3) by (simp add: fetch_bins_def)
    from read_each_honest [OF assms(2) this]
    have "bins = fold (\<lambda>k. put_if (\<lambda>(x, y). non_empty (narrow_or_zero x, narrow_or_zero y)) k (map_prod ucast ucast (reserves k))) xs []"
      by simp
    then show ?thesis
      using put_all [OF e, of "\<lambda>(x, y). non_empty (narrow_or_zero x, narrow_or_zero y)" "\<lambda>k. map_prod ucast ucast (reserves k)" xs i]
      by (cases "reserves i") (auto simp: narrow_reserves non_empty_eq case_prod_unfold)
  next
    case False
    then have "read_each (lbn_bins node) (put_if non_empty) (chunks 250 xs) [] = Ok bins"
      using assms(3) by (simp add: fetch_bins_def)
    from read_each_honest [OF assms(1) this] have "bins = fold (\<lambda>k. put_if non_empty k (reserves k)) xs []" by simp
    then show ?thesis using put_all [OF e, of non_empty reserves xs i] by (auto simp: non_empty_eq)
  qed
qed

lemma fetched_lb:
  assumes "fetch_lb_pool keccak256 node now pair = Ok p"
  shows "lb_address p = pair \<and> detect_lb_version (lbn_detection node) = Ok (Some (lb_pool_version p)) \<and>
    (\<exists>active_id xs. discover_bins keccak256 node pair (lb_pool_version p) active_id = Ok xs \<and>
      fetch_bins node (lb_pool_version p) xs = Ok (lb_bins p))"
  using assms unfolding fetch_lb_pool_def
  by (auto simp: with_hooks_parameters_def with_version_def lb_new_def split: option.splits) blast

text \<open>C8: a fetched Liquidity Book pool holds exactly the pair's bins: every bin with its reserves, no other, and none
  empty, whichever generation the pair is and whichever way its bins were found, by the tree of
  bitmaps in its storage or, where storage reads fail, by the walk.\<close>

theorem lb_fetch_exact:
  assumes "fetch_lb_pool keccak256 node now pair = Ok p" and "serves_pair keccak256 node (lb_pool_version p) ids reserves"
  shows "lb_inv p \<and> lb_address p = pair \<and> (\<forall>i. bin_reserves p i = reserves i)"
proof -
  obtain active_id xs where x: "discover_bins keccak256 node pair (lb_pool_version p) active_id = Ok xs"
    "fetch_bins node (lb_pool_version p) xs = Ok (lb_bins p)" and a: "lb_address p = pair"
    using fetched_lb [OF assms(1)] by blast
  have "honest (lbn_bins node) reserves" "honest (lbn_bins_v20 node) (\<lambda>i. map_prod ucast ucast (reserves i))"
    and r: "\<And>i. reserves i \<noteq> (0, 0) \<Longrightarrow> i \<in> ids" using assms(2) by (auto simp: serves_pair_def)
  note b = fetch_bins_exact [OF this(1,2) x(2)]
  have g: "bt_get (lb_bins p) i = (if reserves i = (0, 0) then None else Some (reserves i))" for i
    using b [of i] r [of i] discover_exact [OF assms(2) x(1)] by auto
  then show ?thesis using b a by (auto simp: lb_inv_alt bin_reserves_def)
qed

definition sample_v20_node :: lb_node where
  "sample_v20_node =
     \<lparr>lbn_detection = Ok \<lparr>ld_hooks_parameters = None, ld_get_factory = None, ld_factory = Some 3,
        ld_fee_parameters = Some \<lparr>f20_bin_step = 20, f20_base_factor = 5000, f20_filter_period = 30, f20_decay_period = 600,
          f20_reduction_factor = 5000, f20_variable_fee_control = 40000, f20_protocol_share = 1000,
          f20_max_volatility_accumulated = 350000, f20_volatility_accumulated = 0, f20_volatility_reference = 0,
          f20_index_ref = 8388608, f20_time = 77\<rparr>\<rparr>,
      lbn_v20 = Ok \<lparr>r20_token_x = Some 10, r20_token_y = Some 20, r20_active_id = Some 8388610,
        r20_fee_parameters = Some \<lparr>f20_bin_step = 20, f20_base_factor = 5000, f20_filter_period = 30, f20_decay_period = 600,
          f20_reduction_factor = 5000, f20_variable_fee_control = 40000, f20_protocol_share = 1000,
          f20_max_volatility_accumulated = 350000, f20_volatility_accumulated = 0, f20_volatility_reference = 0,
          f20_index_ref = 8388608, f20_time = 77\<rparr>\<rparr>,
      lbn_v21 = Err TransportError, lbn_hooks_parameters = Err TransportError, lbn_storage = (\<lambda>_. Err TransportError),
      lbn_find_first = (\<lambda>i down. if down \<and> i > 8388608 \<or> \<not> down \<and> i < 8388608 then Ok 8388608
        else Err (Reverted TREE_MATH_ERROR_DEPTH_SEARCH)),
      lbn_next_bin = (\<lambda>_ _. Err TransportError),
      lbn_bins_v20 = (\<lambda>_. Ok (\<lambda>i. if i = 8388608 then (5, 7) else (0, 0))),
      lbn_bins = (\<lambda>_. Err TransportError), lbn_token = (\<lambda>a. Ok (a, 18))\<rparr>"

lemma sample_v20_serves:
  "serves_pair keccak256 sample_v20_node V2_0 {8388608} (\<lambda>i. if i = 8388608 then (5, 7) else (0, 0))"
proof -
  have u: "(ucast i :: u24) > 8388608 \<longleftrightarrow> i > 8388608" "(ucast i :: u24) < 8388608 \<longleftrightarrow> i < 8388608"
    if "uint i < 16777216" for i :: u32
    using that by (simp_all add: word_less_def uint_ucast_exact)
  have "walks_over sample_v20_node V2_0 {8388608}"
    unfolding walks_over_def rpc_next_non_empty_bin_def
    by (auto simp: sample_v20_node_def to_width_def u not_less split: if_splits)
  then show ?thesis
    by (auto simp: serves_pair_def reads_stored_def tree_base_slot_def honest_def sample_v20_node_def)
qed

theorem lb_fetch_exact_witness:
  "\<exists>p. fetch_lb_pool ucast sample_v20_node 99 1 = Ok p \<and> bin_reserves p 8388608 = (5, 7) \<and> bin_reserves p 8388610 = (0, 0)"
proof -
  have n: "rpc_next_non_empty_bin sample_v20_node V2_0 True 8388610 = Ok (Some 8388608)"
    "rpc_next_non_empty_bin sample_v20_node V2_0 True 8388608 = Ok None"
    "rpc_next_non_empty_bin sample_v20_node V2_0 False 8388610 = Ok None"
    by (simp_all add: rpc_next_non_empty_bin_def sample_v20_node_def to_width_def)
  have "walk_down sample_v20_node V2_0 8388608 = Ok []"
    by (simp add: walk_down.simps [of sample_v20_node V2_0 8388608] n)
  then have "walk_down sample_v20_node V2_0 8388610 = Ok [8388608]"
    by (simp add: walk_down.simps [of sample_v20_node V2_0 8388610] n)
  moreover have "walk_up sample_v20_node V2_0 8388610 = Ok []"
    by (simp add: walk_up.simps [of sample_v20_node V2_0 8388610] n)
  ultimately have w: "discover_bins ucast sample_v20_node 1 V2_0 8388610 = Ok [8388608, 8388610]"
    by (simp add: discover_bins_def tree_base_slot_def discover_bins_by_walking_def)
  have "\<exists>b. fetch_bins sample_v20_node V2_0 [8388608, 8388610] = Ok b"
    by (simp add: fetch_bins_def sample_v20_node_def eval_nat_numeral)
  then have "\<exists>p. fetch_lb_pool ucast sample_v20_node 99 1 = Ok p \<and> lb_pool_version p = V2_0"
    using w by (auto simp: fetch_lb_pool_def sample_v20_node_def detect_lb_version_def fetch_v20_state_def call_ok_def
        hooks_of_def to_width_def with_hooks_parameters_def with_version_def lb_new_def)
  then show ?thesis using lb_fetch_exact sample_v20_serves by fastforce
qed

end
