(* ===== verification/Pool_Fetch.thy ===== *)
theory Pool_Fetch
  imports Registry V2_Fetch V3_Fetch LB_Fetch "HOL-Library.Multiset"
begin

text \<open>
  \<^verbatim>\<open>src/collector/pool_fetcher.rs\<close>, \<^verbatim>\<open>src/collector/multicall.rs\<close>, \<^verbatim>\<open>src/erc4626/fetcher.rs\<close> and
  \<^verbatim>\<open>fetch_pools_in_memory\<close> of \<^verbatim>\<open>src/collector/handle.rs\<close>: which kind of pool an address is, and fetching many
  addresses in chunks, with retries, into the registry or into memory. The node answers each attempt at
  an address anew; the waits are left out. A \<^verbatim>\<open>match\<close> on a result sees errors but not panics, which end
  the task.
\<close>

section \<open>What the node answers\<close>

text \<open>
  One attempt at one address: the two probes, which read the latest block, and the answers to the
  fetcher of each kind. The first argument of the nodes is the multicall contract asked, the
  third counts the attempts: \<open>0\<close> is the first, \<open>k\<close> the \<open>k\<close>th retry.
\<close>

record pool_node =
  pn_detection :: "lb_detection res"
  pn_liquidity :: "u128 option res"
  pn_v2 :: v2_node
  pn_v3 :: v3_node
  pn_lb :: lb_node

type_synonym pool_nodes = "address \<Rightarrow> address \<Rightarrow> nat \<Rightarrow> pool_node"

record fetch_config =
  fc_multicall_address :: "address option"
  fc_chain_id :: u64
  fc_factory_to_fee :: "(string \<times> u64) list"
  fc_aero_factory_addresses :: "address list"
  fc_chunk_size :: nat
  fc_max_retries :: u32
  fc_parallel_fetch :: bool

definition get_custom_multicall_address :: "u64 \<Rightarrow> address option" where
  "get_custom_multicall_address chain = (if chain = 50 then Some 0x0c9A8dB3B6C58bC02b8473167b0062b543F3ED7f else None)"

definition MULTICALL3_ADDRESS :: address where
  "MULTICALL3_ADDRESS = 0xcA11bde05977b3631167028862bE2a173976CA11"

definition resolve_multicall_address :: "u64 \<Rightarrow> address option \<Rightarrow> address" where
  "resolve_multicall_address chain override =
     (case override of
        Some a \<Rightarrow> a
      | None \<Rightarrow> unwrap_or (get_custom_multicall_address chain) MULTICALL3_ADDRESS)"

section \<open>One pool\<close>

definition identify_pool_type :: "pool_node \<Rightarrow> pool_type res" where
  "identify_pool_type node =
     and_then (detect_lb_version (pn_detection node)) (\<lambda>version.
       if version \<noteq> None then Ok TypeLB
       else and_then (pn_liquidity node) (\<lambda>answer. Ok (if answer \<noteq> None then TypeV3 else TypeV2)))"

definition fetch_verio_ip_pool :: "address \<Rightarrow> erc4626 res" where
  "fetch_verio_ip_pool a = Ok (erc_new a 0x5267F7eE069CEB3D8F1c760c215569b79d0685aD 0 0 0 0 0)"

definition fetch_pool :: "hash \<Rightarrow> fetch_config \<Rightarrow> u64 \<Rightarrow> pool_node \<Rightarrow> address \<Rightarrow> pool_type \<Rightarrow> pool res" where
  "fetch_pool keccak256 config now node a pool_type =
     (case pool_type of
        TypeV2 \<Rightarrow>
          and_then (fetch_v2_pool (pn_v2 node) (fc_chain_id config) (fc_factory_to_fee config)
            (fc_aero_factory_addresses config) now a) (\<lambda>p. Ok (PV2 p))
      | TypeV3 \<Rightarrow> and_then (fetch_v3_pool (pn_v3 node) now a) (\<lambda>p. Ok (PV3 p))
      | TypeERC4626 \<Rightarrow> and_then (fetch_verio_ip_pool a) (\<lambda>p. Ok (PVerio p))
      | TypeLB \<Rightarrow> and_then (fetch_lb_pool keccak256 (pn_lb node) now a) (\<lambda>p. Ok (PLB p)))"

text \<open>What a \<^verbatim>\<open>match\<close> sees of a result: a value or an error; a panic goes through.\<close>

fun caught :: "'a res \<Rightarrow> 'a res res" where
  "caught (Inl (Panic k)) = Err (Panic k)"
| "caught x = Ok x"

text \<open>The attempts of one retry loop, from attempt \<open>k\<close> with \<open>n\<close> to go: the first success, \<open>None\<close> when all fail.\<close>

fun retry_pool :: "(nat \<Rightarrow> 'a res) \<Rightarrow> nat \<Rightarrow> nat \<Rightarrow> 'a option res" where
  "retry_pool read k 0 = Ok None"
| "retry_pool read k (Suc n) =
     and_then (caught (read k)) (\<lambda>r. case r of Inr p \<Rightarrow> Ok (Some p) | Inl _ \<Rightarrow> retry_pool read (Suc k) n)"

definition identify_and_fetch :: "hash \<Rightarrow> fetch_config \<Rightarrow> u64 \<Rightarrow> pool_node \<Rightarrow> address \<Rightarrow> (pool_type \<times> pool) res" where
  "identify_and_fetch keccak256 config now node a =
     and_then (identify_pool_type node) (\<lambda>t. and_then (fetch_pool keccak256 config now node a t) (\<lambda>p. Ok (t, p)))"

definition nodes_of :: "fetch_config \<Rightarrow> pool_nodes \<Rightarrow> address \<Rightarrow> nat \<Rightarrow> pool_node" where
  "nodes_of config nodes = nodes (resolve_multicall_address (fc_chain_id config) (fc_multicall_address config))"

section \<open>Into the registry\<close>

text \<open>All probes run at once; one that fails fails them all.\<close>

definition identify_pool_types :: "(address \<Rightarrow> pool_node) \<Rightarrow> address list \<Rightarrow> (address \<times> pool_type) list res" where
  "identify_pool_types node as = try_join_all (map (\<lambda>a. and_then (identify_pool_type (node a)) (\<lambda>t. Ok (a, t))) as)"

record fetch_progress =
  fp_registry :: registry
  fp_types_present :: "pool_type list"
  fp_fetched :: "address list"

definition add_fetched :: "address \<Rightarrow> pool_type \<Rightarrow> pool \<Rightarrow> fetch_progress \<Rightarrow> fetch_progress" where
  "add_fetched a t p s =
     s\<lparr>fp_registry := add_pool p (fp_registry s), fp_types_present := List.insert t (fp_types_present s),
       fp_fetched := fp_fetched s @ [a]\<rparr>"

text \<open>The loop over a chunk's results: a pool is added, a failed address put aside.\<close>

fun take_results :: "(address \<times> pool_type \<times> pool) res list \<Rightarrow> address list \<Rightarrow> fetch_progress \<Rightarrow> fetch_progress \<times> address list" where
  "take_results (Inr (a, t, p) # rs) (c # cs) s = take_results rs cs (add_fetched a t p s)"
| "take_results (Inl e # rs) (c # cs) s = (case take_results rs cs s of (s, failed) \<Rightarrow> (s, c # failed))"
| "take_results _ _ s = (s, [])"

fun retry_failed ::
    "(address \<Rightarrow> nat \<Rightarrow> (pool_type \<times> pool) res) \<Rightarrow> nat \<Rightarrow> address list \<Rightarrow> fetch_progress \<Rightarrow> fetch_progress \<times> unit res" where
  "retry_failed read n [] s = (s, Ok ())"
| "retry_failed read n (a # as) s =
     (case retry_pool (read a) 1 n of
        Inl e \<Rightarrow> (s, Err e)
      | Inr None \<Rightarrow> (s, Err (FetchRetriesExhausted a))
      | Inr (Some (t, p)) \<Rightarrow> retry_failed read n as (add_fetched a t p s))"

text \<open>In parallel or one after the other, the results of a chunk are the same list.\<close>

definition fetch_chunk ::
    "hash \<Rightarrow> fetch_config \<Rightarrow> u64 \<Rightarrow> pool_nodes \<Rightarrow> address list \<Rightarrow> fetch_progress \<Rightarrow> fetch_progress \<times> unit res" where
  "fetch_chunk keccak256 config now nodes chunk s =
     (let node = nodes_of config nodes
      in case and_then (identify_pool_types (\<lambda>a. node a 0) chunk) (\<lambda>chunk_types.
           try_join_all (map (\<lambda>(a, t).
             caught (and_then (fetch_pool keccak256 config now (node a 0) a t) (\<lambda>p. Ok (a, t, p)))) chunk_types)) of
           Inl e \<Rightarrow> (s, Err e)
         | Inr results \<Rightarrow>
             (case take_results results chunk s of
                (s, failed) \<Rightarrow>
                  retry_failed (\<lambda>a k. identify_and_fetch keccak256 config now (node a k) a)
                    (unat (fc_max_retries config)) failed s))"

fun fetch_chunks ::
    "hash \<Rightarrow> fetch_config \<Rightarrow> u64 \<Rightarrow> pool_nodes \<Rightarrow> address list list \<Rightarrow> fetch_progress \<Rightarrow> fetch_progress \<times> unit res" where
  "fetch_chunks keccak256 config now nodes [] s = (s, Ok ())"
| "fetch_chunks keccak256 config now nodes (c # cs) s =
     (case fetch_chunk keccak256 config now nodes c s of
        (s, Inl e) \<Rightarrow> (s, Err e)
      | (s, Inr _) \<Rightarrow> fetch_chunks keccak256 config now nodes cs s)"

text \<open>The hashes of the topics come from the generated bindings.\<close>

definition register_type_topics :: "(event_topic \<Rightarrow> topic) \<Rightarrow> pool_type \<Rightarrow> registry \<Rightarrow> registry" where
  "register_type_topics topic_of t r =
     add_profitable_topics (map topic_of (type_profitable_topics t)) (add_topics (map topic_of (type_topics t)) r)"

text \<open>A block given by a tag and not a number (\<open>None\<close>) panics at once.\<close>

definition fetch_pools_into_registry ::
    "hash \<Rightarrow> (event_topic \<Rightarrow> topic) \<Rightarrow> fetch_config \<Rightarrow> u64 \<Rightarrow> pool_nodes \<Rightarrow> address list \<Rightarrow> u64 option \<Rightarrow> registry \<Rightarrow>
     registry \<times> address list res" where
  "fetch_pools_into_registry keccak256 topic_of config now nodes addresses block_number r =
     (case block_number of
        None \<Rightarrow> (r, Err (Panic UnwrapErr))
      | Some n \<Rightarrow>
          let new_addresses = filter (\<lambda>a. get_pool r a = None) addresses;
              chunk_size = max (fc_chunk_size config) 1
          in case fetch_chunks keccak256 config now nodes (chunks chunk_size new_addresses)
                    \<lparr>fp_registry = r, fp_types_present = [], fp_fetched = []\<rparr> of
               (s, Inl e) \<Rightarrow> (fp_registry s, Err e)
             | (s, Inr _) \<Rightarrow>
                 (fold (register_type_topics topic_of) (fp_types_present s) (set_last_processed_block n (fp_registry s)),
                  Ok (fp_fetched s)))"

section \<open>Into memory\<close>

text \<open>
  Here the two modes differ: in parallel a failed probe is one failed pool, one after the other it ends the
  whole fetch.
\<close>

fun fetch_sequentially :: "(address \<Rightarrow> pool_type res) \<Rightarrow> (address \<Rightarrow> pool_type \<Rightarrow> pool res) \<Rightarrow> address list \<Rightarrow> pool res list res" where
  "fetch_sequentially identify fetch [] = Ok []"
| "fetch_sequentially identify fetch (a # as) =
     and_then (identify a) (\<lambda>t.
     and_then (caught (fetch a t)) (\<lambda>r.
     and_then (fetch_sequentially identify fetch as) (\<lambda>rs. Ok (r # rs))))"

fun split_results :: "pool res list \<Rightarrow> address list \<Rightarrow> pool list \<times> address list" where
  "split_results (Inr p # rs) (c # cs) = (case split_results rs cs of (ps, failed) \<Rightarrow> (p # ps, failed))"
| "split_results (Inl e # rs) (c # cs) = (case split_results rs cs of (ps, failed) \<Rightarrow> (ps, c # failed))"
| "split_results _ _ = ([], [])"

fun retry_in_memory :: "(address \<Rightarrow> nat \<Rightarrow> pool res) \<Rightarrow> nat \<Rightarrow> address list \<Rightarrow> pool list res" where
  "retry_in_memory read n [] = Ok []"
| "retry_in_memory read n (a # as) =
     and_then (retry_pool (read a) 1 n) (\<lambda>p. case p of
        None \<Rightarrow> Err (FetchRetriesExhausted a)
      | Some p \<Rightarrow> and_then (retry_in_memory read n as) (\<lambda>ps. Ok (p # ps)))"

definition fetch_chunk_in_memory :: "hash \<Rightarrow> fetch_config \<Rightarrow> u64 \<Rightarrow> pool_nodes \<Rightarrow> address list \<Rightarrow> pool list res" where
  "fetch_chunk_in_memory keccak256 config now nodes chunk =
     (let node = nodes_of config nodes;
          read = (\<lambda>a k. map_sum id snd (identify_and_fetch keccak256 config now (node a k) a))
      in and_then
           (if fc_parallel_fetch config then try_join_all (map (\<lambda>a. caught (read a 0)) chunk)
            else fetch_sequentially (\<lambda>a. identify_pool_type (node a 0))
                   (\<lambda>a. fetch_pool keccak256 config now (node a 0) a) chunk) (\<lambda>results.
         case split_results results chunk of
           (ps, failed) \<Rightarrow>
             and_then (retry_in_memory read (unat (fc_max_retries config)) failed) (\<lambda>retried. Ok (ps @ retried))))"

fun fetch_chunks_in_memory :: "hash \<Rightarrow> fetch_config \<Rightarrow> u64 \<Rightarrow> pool_nodes \<Rightarrow> address list list \<Rightarrow> pool list res" where
  "fetch_chunks_in_memory keccak256 config now nodes [] = Ok []"
| "fetch_chunks_in_memory keccak256 config now nodes (c # cs) =
     and_then (fetch_chunk_in_memory keccak256 config now nodes c) (\<lambda>ps.
     and_then (fetch_chunks_in_memory keccak256 config now nodes cs) (\<lambda>qs. Ok (ps @ qs)))"

definition fetch_pools_in_memory :: "hash \<Rightarrow> fetch_config \<Rightarrow> u64 \<Rightarrow> pool_nodes \<Rightarrow> address list \<Rightarrow> pool list res" where
  "fetch_pools_in_memory keccak256 config now nodes addresses =
     fetch_chunks_in_memory keccak256 config now nodes (chunks (max (fc_chunk_size config) 1) addresses)"

section \<open>What a fetch of one pool is\<close>

lemma caught_Ok: "caught x = Ok y \<Longrightarrow> y = x"
  by (cases x rule: caught.cases) auto

lemma fetched_v3_address: "fetch_v3_pool node now a = Ok p \<Longrightarrow> v3_address p = a"
  by (auto simp: fetch_v3_pool_def fetch_v3_ticks_def v3_new_def Let_def)

lemma fetched_pool:
  "fetch_pool keccak256 config now node a t = Ok p \<Longrightarrow> pool_address p = a \<and> pool_type_of p = t"
  using fetched_fields [of "pn_v2 node"] fetched_lb [of keccak256 "pn_lb node"] fetched_v3_address
  by (cases t) (fastforce simp: fetch_pool_def fetch_verio_ip_pool_def erc_new_def)+

text \<open>A pool as some attempt at its address yields it, of the kind that attempt identified.\<close>

definition fetched_as :: "hash \<Rightarrow> fetch_config \<Rightarrow> u64 \<Rightarrow> pool_nodes \<Rightarrow> address \<Rightarrow> pool \<Rightarrow> bool" where
  "fetched_as keccak256 config now nodes a p \<longleftrightarrow> pool_address p = a \<and>
     (\<exists>k \<le> unat (fc_max_retries config). \<exists>t.
        identify_pool_type (nodes_of config nodes a k) = Ok t \<and> pool_type_of p = t \<and>
        fetch_pool keccak256 config now (nodes_of config nodes a k) a t = Ok p)"

lemma fetched_asI:
  "identify_pool_type (nodes_of config nodes a k) = Ok t \<Longrightarrow>
   fetch_pool keccak256 config now (nodes_of config nodes a k) a t = Ok p \<Longrightarrow> k \<le> unat (fc_max_retries config) \<Longrightarrow>
   fetched_as keccak256 config now nodes a p \<and> t = pool_type_of p"
  using fetched_pool by (fastforce simp: fetched_as_def)

lemma retry_pool_Some: "retry_pool read k n = Ok (Some x) \<Longrightarrow> \<exists>j. k \<le> j \<and> j < k + n \<and> read j = Ok x"
proof (induction n arbitrary: k)
  case (Suc n)
  then obtain r where r: "caught (read k) = Ok r"
    "(case r of Inr p \<Rightarrow> Ok (Some p) | Inl _ \<Rightarrow> retry_pool read (Suc k) n) = Ok (Some x)"
    by (auto simp: and_then_Ok_iff)
  show ?case
  proof (cases r)
    case (Inl e)
    then have "retry_pool read (Suc k) n = Ok (Some x)" using r by simp
    then obtain j where "Suc k \<le> j \<and> j < Suc k + n \<and> read j = Ok x" using Suc.IH by blast
    then show ?thesis by (intro exI [of _ j]) simp
  next
    case (Inr p)
    then show ?thesis using r caught_Ok [OF r(1)] by (intro exI [of _ k]) simp
  qed
qed simp

lemma retry_fetched:
  assumes "retry_pool (\<lambda>k. identify_and_fetch keccak256 config now (nodes_of config nodes a k) a) 1
    (unat (fc_max_retries config)) = Ok (Some (t, p))"
  shows "fetched_as keccak256 config now nodes a p \<and> t = pool_type_of p"
proof -
  obtain j where "j \<le> unat (fc_max_retries config)" "identify_and_fetch keccak256 config now (nodes_of config nodes a j) a = Ok (t, p)"
    using retry_pool_Some [OF assms] by (auto simp: less_Suc_eq_le)
  then show ?thesis by (intro fetched_asI [where k = j]) (auto simp: identify_and_fetch_def and_then_Ok_iff)
qed

section \<open>The registry as it fills\<close>

text \<open>The registry of a fetch in progress: what it was, and the pools fetched so far.\<close>

definition filling :: "(address \<Rightarrow> pool \<Rightarrow> bool) \<Rightarrow> registry \<Rightarrow> fetch_progress \<Rightarrow> bool" where
  "filling good r s \<longleftrightarrow> reg_inv (fp_registry s) \<and>
     fp_registry s = r\<lparr>reg_pools := reg_pools (fp_registry s), reg_dynamic_fee := reg_dynamic_fee (fp_registry s)\<rparr> \<and>
     (\<forall>a. a \<notin> set (fp_fetched s) \<longrightarrow> get_pool (fp_registry s) a = get_pool r a) \<and>
     (\<forall>a \<in> set (fp_fetched s). \<exists>p. get_pool (fp_registry s) a = Some p \<and> good a p \<and> pool_type_of p \<in> set (fp_types_present s))"

lemma add_pool_frame:
  "q = r\<lparr>reg_pools := m, reg_dynamic_fee := d\<rparr> \<Longrightarrow>
   add_pool p q = r\<lparr>reg_pools := reg_pools (add_pool p q), reg_dynamic_fee := reg_dynamic_fee (add_pool p q)\<rparr>"
  by (simp add: add_pool_def add_dynamic_fee_address_def Let_def)

lemma filling_add:
  assumes "filling good r s" and "good a p" and "pool_address p = a" and "t = pool_type_of p"
  shows "filling good r (add_fetched a t p s)"
proof -
  have i: "reg_inv (fp_registry s)"
    and f: "fp_registry s = r\<lparr>reg_pools := reg_pools (fp_registry s), reg_dynamic_fee := reg_dynamic_fee (fp_registry s)\<rparr>"
    using assms(1) by (simp_all add: filling_def)
  have "reg_inv (add_pool p (fp_registry s))" using reg_inv_step [OF registry_step.add i] .
  moreover have "add_pool p (fp_registry s) = r\<lparr>reg_pools := reg_pools (add_pool p (fp_registry s)),
      reg_dynamic_fee := reg_dynamic_fee (add_pool p (fp_registry s))\<rparr>"
    by (rule add_pool_frame [OF f])
  moreover have "get_pool (add_pool p (fp_registry s)) b = (if b = a then Some p else get_pool (fp_registry s) b)" for b
    using i assms(3) by (simp add: get_pool_def registry_simps bt_simps reg_inv_def)
  ultimately show ?thesis using assms by (auto simp: filling_def add_fetched_def)
qed

text \<open>A result of a chunk: the address asked for, and a pool that is what an attempt at it yields.\<close>

definition proper_result :: "(address \<Rightarrow> pool \<Rightarrow> bool) \<Rightarrow> address \<Rightarrow> (address \<times> pool_type \<times> pool) res \<Rightarrow> bool" where
  "proper_result good c r \<longleftrightarrow>
     (case r of Inl _ \<Rightarrow> True | Inr (a, t, p) \<Rightarrow> a = c \<and> t = pool_type_of p \<and> pool_address p = a \<and> good a p)"

lemma take_results_filling:
  assumes "list_all2 (proper_result good) cs rs" and "filling good r s" and "take_results rs cs s = (s', failed)"
  shows "filling good r s' \<and> mset (fp_fetched s') + mset failed = mset (fp_fetched s) + mset cs"
  using assms
proof (induction cs rs arbitrary: s failed rule: list_all2_induct)
  case (Cons c cs x rs)
  show ?case
  proof (cases x)
    case (Inl e)
    then obtain failed' where "take_results rs cs s = (s', failed')" "failed = c # failed'"
      using Cons.prems(2) by (auto split: prod.splits)
    then show ?thesis using Cons.IH [OF Cons.prems(1)] by simp
  next
    case (Inr y)
    then obtain t p where y: "x = Inr (c, t, p)" "t = pool_type_of p" "pool_address p = c" "good c p"
      using Cons.hyps(1) by (cases y) (auto simp: proper_result_def)
    then have "take_results rs cs (add_fetched c t p s) = (s', failed)" using Cons.prems(2) by simp
    from Cons.IH [OF filling_add [OF Cons.prems(1) y(4,3,2)] this] show ?thesis by (simp add: add_fetched_def)
  qed
qed simp

lemma retry_failed_filling:
  assumes "\<And>a t p. retry_pool (read a) 1 n = Ok (Some (t, p)) \<Longrightarrow> good a p \<and> pool_address p = a \<and> t = pool_type_of p"
    and "filling good r s" and "retry_failed read n addrs s = (s', res)"
  shows "filling good r s' \<and> set (fp_fetched s') \<subseteq> set (fp_fetched s) \<union> set addrs \<and>
    (res = Ok () \<longrightarrow> mset (fp_fetched s') = mset (fp_fetched s) + mset addrs)"
  using assms(2,3)
proof (induction addrs arbitrary: s)
  case (Cons a addrs)
  show ?case
  proof (cases "retry_pool (read a) 1 n")
    case (Inr q)
    show ?thesis
    proof (cases q)
      case (Some tp)
      obtain t p where tp: "tp = (t, p)" by fastforce
      then have g: "good a p" "pool_address p = a" "t = pool_type_of p" using assms(1) Inr Some by blast+
      have "retry_failed read n addrs (add_fetched a t p s) = (s', res)" using Cons.prems(2) Inr Some tp by simp
      from Cons.IH [OF filling_add [OF Cons.prems(1) g] this] show ?thesis by (auto simp: add_fetched_def)
    qed (use Inr Cons.prems in auto)
  qed (use Cons.prems in auto)
qed auto

lemma identified_all: "identify_pool_types node as = Ok ts \<Longrightarrow> list_all2 (\<lambda>a (b, t). b = a \<and> identify_pool_type (node a) = Ok t) as ts"
proof -
  assume "identify_pool_types node as = Ok ts"
  then have "map (\<lambda>a. and_then (identify_pool_type (node a)) (\<lambda>t. Ok (a, t))) as = map Ok ts"
    by (simp add: identify_pool_types_def try_join_all_Ok)
  then show ?thesis
    by (auto simp: list_all2_conv_all_nth list_eq_iff_nth_eq and_then_Ok_iff)
qed

lemma fetch_chunk_filling:
  fixes keccak256 :: hash and config :: fetch_config and now :: u64 and nodes :: pool_nodes
  defines "good \<equiv> fetched_as keccak256 config now nodes"
  assumes "filling good r s" and "fetch_chunk keccak256 config now nodes chunk s = (s', res)"
  shows "filling good r s' \<and> set (fp_fetched s') \<subseteq> set (fp_fetched s) \<union> set chunk \<and>
    (res = Ok () \<longrightarrow> mset (fp_fetched s') = mset (fp_fetched s) + mset chunk)"
proof -
  let ?node = "nodes_of config nodes"
  let ?fetch = "\<lambda>(a, t). caught (and_then (fetch_pool keccak256 config now (?node a 0) a t) (\<lambda>p. Ok (a, t, p)))"
  let ?results = "and_then (identify_pool_types (\<lambda>a. ?node a 0) chunk) (\<lambda>chunk_types. try_join_all (map ?fetch chunk_types))"
  show ?thesis
  proof (cases ?results)
    case (Inl e)
    then show ?thesis using assms(2,3) by (auto simp: fetch_chunk_def)
  next
    case (Inr results)
    then obtain ts where ts: "identify_pool_types (\<lambda>a. ?node a 0) chunk = Ok ts" "map ?fetch ts = map Ok results"
      by (auto simp: and_then_Ok_iff try_join_all_Ok)
    have "list_all2 (\<lambda>t r. ?fetch t = Ok r) ts results"
      using ts(2) by (auto simp: list_all2_conv_all_nth list_eq_iff_nth_eq)
    with identified_all [OF ts(1)] have "list_all2 (proper_result good) chunk results"
    proof (rule list_all2_trans [rotated])
      fix a b c
      assume "case b of (b, t) \<Rightarrow> b = a \<and> identify_pool_type (?node a 0) = Ok t" and c: "?fetch b = Ok c"
      then obtain t where b: "b = (a, t)" "identify_pool_type (?node a 0) = Ok t" by (cases b) auto
      have "c = and_then (fetch_pool keccak256 config now (?node a 0) a t) (\<lambda>p. Ok (a, t, p))"
        using caught_Ok c b(1) by auto
      then show "proper_result good a c"
        using fetched_asI [OF b(2), of keccak256 now] fetched_pool [of keccak256 config now "?node a 0" a t]
        by (cases "fetch_pool keccak256 config now (?node a 0) a t") (simp_all add: proper_result_def good_def)
    qed
    moreover obtain s'' failed where t: "take_results results chunk s = (s'', failed)" by fastforce
    ultimately have u: "filling good r s''" "mset (fp_fetched s'') + mset failed = mset (fp_fetched s) + mset chunk"
      using take_results_filling assms(2) by blast+
    have "retry_failed (\<lambda>a k. identify_and_fetch keccak256 config now (?node a k) a) (unat (fc_max_retries config)) failed s'' = (s', res)"
      using assms(3) Inr t by (simp add: fetch_chunk_def)
    from retry_failed_filling [OF _ u(1) this] retry_fetched
    have "filling good r s' \<and> set (fp_fetched s') \<subseteq> set (fp_fetched s'') \<union> set failed \<and>
      (res = Ok () \<longrightarrow> mset (fp_fetched s') = mset (fp_fetched s'') + mset failed)"
      by (fastforce simp: good_def fetched_as_def)
    moreover have "set (fp_fetched s'') \<union> set failed = set (fp_fetched s) \<union> set chunk"
      using arg_cong [OF u(2), of set_mset] by simp
    ultimately show ?thesis using u(2) by auto
  qed
qed

lemma fetch_chunks_filling:
  fixes keccak256 :: hash and config :: fetch_config and now :: u64 and nodes :: pool_nodes
  defines "good \<equiv> fetched_as keccak256 config now nodes"
  assumes "filling good r s" and "fetch_chunks keccak256 config now nodes cs s = (s', res)"
  shows "filling good r s' \<and> set (fp_fetched s') \<subseteq> set (fp_fetched s) \<union> set (concat cs) \<and>
    (res = Ok () \<longrightarrow> mset (fp_fetched s') = mset (fp_fetched s) + mset (concat cs))"
  using assms(2,3)
proof (induction cs arbitrary: s)
  case (Cons c cs)
  obtain s1 r1 where c: "fetch_chunk keccak256 config now nodes c s = (s1, r1)" by fastforce
  note step = fetch_chunk_filling [OF Cons.prems(1) [unfolded good_def] c, folded good_def]
  show ?case
  proof (cases r1)
    case (Inl e)
    then show ?thesis using step c Cons.prems(2) by auto
  next
    case (Inr u)
    then have "fetch_chunks keccak256 config now nodes cs s1 = (s', res)" using c Cons.prems(2) by simp
    from Cons.IH [OF _ this] step show ?thesis using Inr by (auto simp: union_assoc)
  qed
qed auto

section \<open>Topics\<close>

lemma register_type_topics_fields:
  "reg_pools (register_type_topics topic_of t r) = reg_pools r"
  "reg_last_processed_block (register_type_topics topic_of t r) = reg_last_processed_block r"
  "set (reg_topics (register_type_topics topic_of t r)) = set (reg_topics r) \<union> topic_of ` set (type_topics t)"
  by (simp_all add: register_type_topics_def add_profitable_topics_def registry_simps) (simp add: add_topics_def)

lemma register_type_topics_inv: "reg_inv r \<Longrightarrow> reg_inv (register_type_topics topic_of t r)"
  unfolding register_type_topics_def by (intro reg_inv_step [OF registry_step.profitable] reg_inv_step [OF registry_step.topics])

lemma register_all_topics:
  "reg_pools (fold (register_type_topics topic_of) ts r) = reg_pools r \<and>
   reg_last_processed_block (fold (register_type_topics topic_of) ts r) = reg_last_processed_block r \<and>
   set (reg_topics (fold (register_type_topics topic_of) ts r)) =
     set (reg_topics r) \<union> (\<Union>t \<in> set ts. topic_of ` set (type_topics t)) \<and>
   (reg_inv r \<longrightarrow> reg_inv (fold (register_type_topics topic_of) ts r))"
  by (induction ts arbitrary: r) (auto simp: register_type_topics_fields register_type_topics_inv)

section \<open>In memory\<close>

text \<open>A list of pools fetched from some addresses: at each address as often as asked, and what an attempt yields.\<close>

definition fetched_list :: "hash \<Rightarrow> fetch_config \<Rightarrow> u64 \<Rightarrow> pool_nodes \<Rightarrow> address list \<Rightarrow> pool list \<Rightarrow> bool" where
  "fetched_list keccak256 config now nodes addresses ps \<longleftrightarrow>
     mset (map pool_address ps) = mset addresses \<and>
     (\<forall>p \<in> set ps. fetched_as keccak256 config now nodes (pool_address p) p)"

lemma fetched_list_append:
  "fetched_list keccak256 config now nodes xs ps \<Longrightarrow> fetched_list keccak256 config now nodes ys qs \<Longrightarrow>
   fetched_list keccak256 config now nodes (xs @ ys) (ps @ qs)"
  by (auto simp: fetched_list_def)

lemma fetched_list_Cons:
  "fetched_as keccak256 config now nodes a p \<Longrightarrow> fetched_list keccak256 config now nodes xs ps \<Longrightarrow>
   fetched_list keccak256 config now nodes (a # xs) (p # ps)"
  by (simp add: fetched_list_def fetched_as_def)

lemma read_fetched:
  "map_sum id snd (identify_and_fetch keccak256 config now (nodes_of config nodes a k) a) = Ok p \<Longrightarrow>
   k \<le> unat (fc_max_retries config) \<Longrightarrow> fetched_as keccak256 config now nodes a p"
  using fetched_asI
  by (cases "identify_and_fetch keccak256 config now (nodes_of config nodes a k) a")
    (fastforce simp: identify_and_fetch_def and_then_Ok_iff)+

lemma split_results_fetched:
  assumes "list_all2 (\<lambda>c x. \<forall>p. x = Ok p \<longrightarrow> fetched_as keccak256 config now nodes c p) cs rs"
    and "split_results rs cs = (ps, failed)"
  shows "\<exists>ok. mset ok + mset failed = mset cs \<and> fetched_list keccak256 config now nodes ok ps"
  using assms
proof (induction cs rs arbitrary: ps failed rule: list_all2_induct)
  case Nil
  then show ?case by (simp add: fetched_list_def)
next
  case (Cons c cs x rs)
  obtain ps' failed' where s: "split_results rs cs = (ps', failed')" by fastforce
  from Cons.IH [OF s] obtain ok where ok: "mset ok + mset failed' = mset cs" "fetched_list keccak256 config now nodes ok ps'"
    by blast
  show ?case
  proof (cases x)
    case (Inl e)
    then show ?thesis using Cons.prems s ok by (intro exI [of _ ok]) auto
  next
    case (Inr p)
    then show ?thesis
      using Cons.prems Cons.hyps(1) s ok(1) fetched_list_Cons [OF _ ok(2)] by (intro exI [of _ "c # ok"]) auto
  qed
qed

lemma retry_in_memory_fetched:
  assumes "\<And>a p. retry_pool (read a) 1 n = Ok (Some p) \<Longrightarrow> fetched_as keccak256 config now nodes a p"
    and "retry_in_memory read n cs = Ok ps"
  shows "fetched_list keccak256 config now nodes cs ps"
  using assms(2)
proof (induction cs arbitrary: ps)
  case Nil
  then show ?case by (simp add: fetched_list_def)
next
  case (Cons c cs)
  then obtain p qs where "retry_pool (read c) 1 n = Ok (Some p)" "retry_in_memory read n cs = Ok qs" "ps = p # qs"
    by (auto simp: and_then_Ok_iff split: option.splits)
  then show ?case using fetched_list_Cons assms(1) Cons.IH by blast
qed

lemma sequential_fetched:
  assumes "fetch_sequentially identify fetch cs = Ok rs"
  shows "list_all2 (\<lambda>c x. \<exists>t. identify c = Ok t \<and> fetch c t = x) cs rs"
  using assms by (induction cs arbitrary: rs) (auto simp: and_then_Ok_iff dest: caught_Ok)

lemma fetch_chunk_in_memory_fetched:
  assumes "fetch_chunk_in_memory keccak256 config now nodes chunk = Ok ps"
  shows "\<exists>xs. mset xs = mset chunk \<and> fetched_list keccak256 config now nodes xs ps"
proof -
  let ?node = "nodes_of config nodes"
  let ?read = "\<lambda>a k. map_sum id snd (identify_and_fetch keccak256 config now (?node a k) a)"
  obtain results where r: "(if fc_parallel_fetch config then try_join_all (map (\<lambda>a. caught (?read a 0)) chunk)
      else fetch_sequentially (\<lambda>a. identify_pool_type (?node a 0)) (\<lambda>a. fetch_pool keccak256 config now (?node a 0) a) chunk) = Ok results"
    and s: "(case split_results results chunk of (ps, failed) \<Rightarrow>
      and_then (retry_in_memory ?read (unat (fc_max_retries config)) failed) (\<lambda>retried. Ok (ps @ retried))) = Ok ps"
    using assms by (auto simp: fetch_chunk_in_memory_def Let_def and_then_Ok_iff)
  have "list_all2 (\<lambda>c x. \<forall>p. x = Ok p \<longrightarrow> fetched_as keccak256 config now nodes c p) chunk results"
  proof (cases "fc_parallel_fetch config")
    case True
    then have m: "map (\<lambda>a. caught (?read a 0)) chunk = map Ok results" using r by (simp add: try_join_all_Ok)
    have "results = map (\<lambda>a. ?read a 0) chunk"
    proof (rule nth_equalityI)
      show l: "length results = length (map (\<lambda>a. ?read a 0) chunk)" using map_eq_imp_length_eq [OF m] by simp
      fix i
      assume "i < length results"
      then have "caught (?read (chunk ! i) 0) = Ok (results ! i)" using arg_cong [OF m, of "\<lambda>xs. xs ! i"] l by simp
      then show "results ! i = map (\<lambda>a. ?read a 0) chunk ! i" using caught_Ok \<open>i < length results\<close> l by fastforce
    qed
    then show ?thesis using read_fetched [of keccak256 config now nodes _ 0] by (simp add: list_all2_conv_all_nth)
  next
    case False
    then have "fetch_sequentially (\<lambda>a. identify_pool_type (?node a 0)) (\<lambda>a. fetch_pool keccak256 config now (?node a 0) a) chunk = Ok results"
      using r by simp
    from sequential_fetched [OF this] show ?thesis by (rule list_all2_mono) (auto dest: fetched_asI [where k = 0])
  qed
  moreover obtain qs failed where q: "split_results results chunk = (qs, failed)" by fastforce
  ultimately obtain ok where ok: "mset ok + mset failed = mset chunk" "fetched_list keccak256 config now nodes ok qs"
    using split_results_fetched by blast
  obtain retried where t: "retry_in_memory ?read (unat (fc_max_retries config)) failed = Ok retried" "ps = qs @ retried"
    using s q by (auto simp: and_then_Ok_iff)
  have "fetched_as keccak256 config now nodes a p" if h: "retry_pool (?read a) 1 (unat (fc_max_retries config)) = Ok (Some p)" for a p
  proof -
    obtain j where "j < 1 + unat (fc_max_retries config)" "?read a j = Ok p" using retry_pool_Some [OF h] by blast
    then show ?thesis using read_fetched by simp
  qed
  from retry_in_memory_fetched [OF this t(1)] have "fetched_list keccak256 config now nodes failed retried" by blast
  from fetched_list_append [OF ok(2) this] show ?thesis using ok(1) t(2) by (intro exI [of _ "ok @ failed"]) simp
qed

lemma fetch_pools_in_memory_fetched:
  assumes "fetch_pools_in_memory keccak256 config now nodes addresses = Ok ps"
  shows "fetched_list keccak256 config now nodes addresses ps"
proof -
  have "\<exists>xs. mset xs = mset (concat cs) \<and> fetched_list keccak256 config now nodes xs ps"
    if "fetch_chunks_in_memory keccak256 config now nodes cs = Ok ps" for cs ps
    using that
  proof (induction cs arbitrary: ps)
    case Nil
    then show ?case by (simp add: fetched_list_def)
  next
    case (Cons c cs)
    then obtain qs rs where q: "fetch_chunk_in_memory keccak256 config now nodes c = Ok qs"
      "fetch_chunks_in_memory keccak256 config now nodes cs = Ok rs" "ps = qs @ rs"
      by (auto simp: and_then_Ok_iff)
    obtain xs where "mset xs = mset c" "fetched_list keccak256 config now nodes xs qs"
      using fetch_chunk_in_memory_fetched [OF q(1)] by blast
    moreover obtain ys where "mset ys = mset (concat cs)" "fetched_list keccak256 config now nodes ys rs"
      using Cons.IH [OF q(2)] by blast
    ultimately show ?case
      using fetched_list_append [of keccak256 config now nodes xs qs ys rs] q(3) by (intro exI [of _ "xs @ ys"]) simp
  qed
  then show ?thesis using assms by (fastforce simp: fetch_pools_in_memory_def fetched_list_def)
qed

section \<open>Properties\<close>

text \<open>C10: fetching into the registry adds well-typed pools and nothing else: whatever the node answers, the registry
  keeps its invariant and its pools, and every pool it gains is at a requested address and is of the kind, and
  the state, one attempt at that address identified and read; when the fetch succeeds, the addresses
  it reports are the requested ones not registered before, all are registered, the cursor is the
  block fetched at and the topics of every new pool's kind are watched.\<close>

theorem registry_fetch_typed:
  assumes "fetch_pools_into_registry keccak256 topic_of config now nodes addresses (Some n) r = (r', res)" and "reg_inv r"
  shows "reg_inv r' \<and> (\<forall>a p. get_pool r a = Some p \<longrightarrow> get_pool r' a = Some p) \<and>
    (\<forall>a p. get_pool r a = None \<longrightarrow> get_pool r' a = Some p \<longrightarrow> a \<in> set addresses \<and> fetched_as keccak256 config now nodes a p) \<and>
    (\<forall>fetched. res = Ok fetched \<longrightarrow>
       mset fetched = mset (filter (\<lambda>a. get_pool r a = None) addresses) \<and> reg_last_processed_block r' = n \<and>
       (\<forall>a \<in> set fetched. \<exists>p. get_pool r' a = Some p \<and> topic_of ` set (type_topics (pool_type_of p)) \<subseteq> set (reg_topics r')))"
proof -
  let ?good = "fetched_as keccak256 config now nodes"
  let ?new = "filter (\<lambda>a. get_pool r a = None) addresses"
  let ?s0 = "\<lparr>fp_registry = r, fp_types_present = [], fp_fetched = []\<rparr>"
  obtain s c where s: "fetch_chunks keccak256 config now nodes (chunks (max (fc_chunk_size config) 1) ?new) ?s0 = (s, c)"
    by fastforce
  have "filling ?good r ?s0" using assms(2) by (simp add: filling_def)
  from fetch_chunks_filling [OF this s]
  have f: "filling ?good r s" "set (fp_fetched s) \<subseteq> set ?new" "c = Ok () \<longrightarrow> mset (fp_fetched s) = mset ?new" by simp_all
  have pools: "get_pool r' = get_pool (fp_registry s) \<and> reg_inv r'"
  proof (cases c)
    case (Inl e)
    then show ?thesis using assms(1) s f(1) by (simp add: fetch_pools_into_registry_def filling_def)
  next
    case (Inr u)
    have "reg_inv (set_last_processed_block n (fp_registry s))"
      using f(1) by (intro reg_inv_step [OF registry_step.cursor]) (simp add: filling_def)
    then show ?thesis
      using assms(1) s Inr register_all_topics [of topic_of "fp_types_present s" "set_last_processed_block n (fp_registry s)"]
      by (auto simp: fetch_pools_into_registry_def get_pool_def set_last_processed_block_def fun_eq_iff)
  qed
  have ok: "mset fetched = mset ?new \<and> reg_last_processed_block r' = n \<and>
      (\<forall>a \<in> set fetched. \<exists>p. get_pool r' a = Some p \<and> topic_of ` set (type_topics (pool_type_of p)) \<subseteq> set (reg_topics r'))"
    if res: "res = Ok fetched" for fetched
  proof -
    have c: "c = Ok ()" "fetched = fp_fetched s"
      "r' = fold (register_type_topics topic_of) (fp_types_present s) (set_last_processed_block n (fp_registry s))"
      using assms(1) s res by (cases c; auto simp: fetch_pools_into_registry_def)+
    note t = register_all_topics [of topic_of "fp_types_present s" "set_last_processed_block n (fp_registry s)", folded c(3)]
    have "reg_last_processed_block r' = n" using t by (simp add: set_last_processed_block_def)
    moreover have "\<exists>p. get_pool r' a = Some p \<and> topic_of ` set (type_topics (pool_type_of p)) \<subseteq> set (reg_topics r')"
      if "a \<in> set fetched" for a
      using that f(1) c(2) t pools unfolding filling_def by fastforce
    ultimately show ?thesis using f(3) c by simp
  qed
  have "get_pool r' a = Some p" if "get_pool r a = Some p" for a p
  proof -
    have "a \<notin> set (fp_fetched s)" using that f(2) by auto
    then show ?thesis using that f(1) pools by (simp add: filling_def)
  qed
  moreover have "a \<in> set addresses \<and> ?good a p" if "get_pool r a = None" "get_pool r' a = Some p" for a p
    using that f(1,2) pools unfolding filling_def by (cases "a \<in> set (fp_fetched s)") fastforce+
  ultimately show ?thesis using pools ok by blast
qed

definition sample_config :: fetch_config where
  "sample_config = \<lparr>fc_multicall_address = None, fc_chain_id = 56, fc_factory_to_fee = [], fc_aero_factory_addresses = [],
     fc_chunk_size = 0, fc_max_retries = 2, fc_parallel_fetch = True\<rparr>"

definition sample_pool_node :: pool_node where
  "sample_pool_node = \<lparr>pn_detection = Ok \<lparr>ld_hooks_parameters = None, ld_get_factory = None, ld_factory = Some 3,
       ld_fee_parameters = None\<rparr>, pn_liquidity = Ok None, pn_v2 = sample_v2_node, pn_v3 = sample_v3_node, pn_lb = sample_v20_node\<rparr>"

text \<open>A node whose first answer is lost.\<close>

definition sample_nodes :: pool_nodes where
  "sample_nodes = (\<lambda>_ _ k. if k = 0 then sample_pool_node\<lparr>pn_v2 := sample_v2_node\<lparr>v2n_reads := Err TransportError\<rparr>\<rparr>
     else sample_pool_node)"

lemma sample_identified: "identify_pool_type (sample_nodes m a k) = Ok TypeV2"
  by (cases "k = 0") (simp_all add: sample_nodes_def sample_pool_node_def identify_pool_type_def detect_lb_version_def)

lemma sample_config_retries: "unat (fc_max_retries sample_config) = 2"
  by (simp add: sample_config_def)

theorem registry_fetch_typed_witness:
  "\<exists>r' p. fetch_pools_into_registry ucast (\<lambda>_. 5) sample_config 9 sample_nodes [1] (Some 100) (registry_new 56) = (r', Ok [1]) \<and>
     get_pool r' 1 = Some p \<and> pool_type_of p = TypeV2 \<and> reg_last_processed_block r' = 100 \<and> reg_inv r'"
proof -
  obtain p where p: "fetch_v2_pool sample_v2_node 56 [] [] 9 1 = Ok p" using sample_v2_fetched by blast
  have "fetch_v2_pool (sample_v2_node\<lparr>v2n_reads := Err TransportError\<rparr>) 56 [] [] 9 1 = Err TransportError"
    by (simp add: fetch_v2_pool_def)
  then have f: "fetch_pool ucast sample_config 9 (sample_nodes m 1 0) 1 TypeV2 = Err TransportError"
    "fetch_pool ucast sample_config 9 (sample_nodes m 1 1) 1 TypeV2 = Ok (PV2 p)" for m
    using p by (simp_all add: fetch_pool_def sample_nodes_def sample_pool_node_def sample_config_def)
  have "filter (\<lambda>a. get_pool (registry_new 56) a = None) [1] = [1]" by (simp add: get_pool_def registry_new_def)
  moreover have "fetch_chunk ucast sample_config 9 sample_nodes [1] s = (add_fetched 1 TypeV2 (PV2 p) s, Ok ())" for s
    by (simp add: fetch_chunk_def identify_pool_types_def nodes_of_def sample_identified identify_and_fetch_def
        f [unfolded One_nat_def] sample_config_retries numeral_2_eq_2 Let_def)
  ultimately have "\<exists>r'. fetch_pools_into_registry ucast (\<lambda>_. 5) sample_config 9 sample_nodes [1] (Some 100) (registry_new 56) = (r', Ok [1])"
    by (simp add: fetch_pools_into_registry_def add_fetched_def)
  then obtain r' where r': "fetch_pools_into_registry ucast (\<lambda>_. 5) sample_config 9 sample_nodes [1] (Some 100) (registry_new 56) = (r', Ok [1])"
    by blast
  note t = registry_fetch_typed [OF r' reg_inv_new]
  then obtain q where q: "get_pool r' 1 = Some q" by fastforce
  have "get_pool (registry_new 56) 1 = None" by (simp add: get_pool_def registry_new_def)
  then have "fetched_as ucast sample_config 9 sample_nodes 1 q" using t q by blast
  then have "pool_type_of q = TypeV2" by (auto simp: fetched_as_def nodes_of_def sample_identified)
  then show ?thesis using r' q t by blast
qed

section \<open>Where the fetch differs from its description\<close>

text \<open>A failed probe ends the fetch on the spot, whatever the retries allowed and whatever else the chunk holds.\<close>

lemma probe_failure_aborts:
  assumes "a \<in> set chunk" and "identify_pool_type (nodes_of config nodes a 0) = Err e"
  shows "\<exists>e'. fetch_chunk keccak256 config now nodes chunk s = (s, Err e')"
proof (cases "identify_pool_types (\<lambda>a. nodes_of config nodes a 0) chunk")
  case (Inl e')
  then show ?thesis by (simp add: fetch_chunk_def)
next
  case (Inr ts)
  then have "\<exists>t. identify_pool_type (nodes_of config nodes a 0) = Ok t"
    using identified_all [OF Inr] assms(1) by (fastforce simp: list_all2_conv_all_nth in_set_conv_nth)
  then show ?thesis using assms(2) by simp
qed

text \<open>A fetch that fails leaves the pools it had fetched registered, with neither their topics nor the cursor set.\<close>

lemma failed_fetch_leaves_pools:
  assumes "fetch_pools_into_registry keccak256 topic_of config now nodes addresses block_number r = (r', Err e)" and "reg_inv r"
  shows "reg_topics r' = reg_topics r \<and> reg_last_processed_block r' = reg_last_processed_block r"
proof (cases block_number)
  case None
  then show ?thesis using assms(1) by (simp add: fetch_pools_into_registry_def)
next
  case (Some n)
  let ?cs = "chunks (max (fc_chunk_size config) 1) (filter (\<lambda>a. get_pool r a = None) addresses)"
  obtain s c where s: "fetch_chunks keccak256 config now nodes ?cs \<lparr>fp_registry = r, fp_types_present = [], fp_fetched = []\<rparr> = (s, c)"
    by fastforce
  have "r' = fp_registry s" using assms(1) s Some by (cases c) (auto simp: fetch_pools_into_registry_def)
  moreover have "fp_registry s = r\<lparr>reg_pools := reg_pools (fp_registry s), reg_dynamic_fee := reg_dynamic_fee (fp_registry s)\<rparr>"
    using fetch_chunks_filling [OF _ s, of r] assms(2) by (simp add: filling_def)
  then obtain m d where "fp_registry s = r\<lparr>reg_pools := m, reg_dynamic_fee := d\<rparr>" by blast
  ultimately show ?thesis by simp
qed

end
