(* ===== verification/Handle.thy ===== *)
theory Handle
  imports Polling Pool_Fetch
begin

text \<open>
  \<^verbatim>\<open>src/collector/handle.rs\<close>, \<^verbatim>\<open>src/collector/bootstrap.rs\<close> and \<^verbatim>\<open>src/collector/config.rs\<close>: starting and
  stopping the collector, and adding pools to it while it runs. The updater's task is recorded as it is
  spawned; what it has done to the registry by the time it has been stopped is an argument. A call
  that does not return is \<open>None\<close>. The websocket listeners are the subscriptions they hold.
\<close>

section \<open>Configuration and state\<close>

record collector_config =
  cc_start_block :: u64
  cc_max_blocks_per_batch :: u64
  cc_use_pending_blocks :: bool
  cc_use_websocket :: bool
  cc_websocket_urls :: "string list"
  cc_wait_time :: u64
  cc_refetch_algebra_fee :: bool
  cc_ws_block_settle_ms :: "u64 option"

definition DEFAULT_WS_BLOCK_SETTLE_MS :: u64 where
  "DEFAULT_WS_BLOCK_SETTLE_MS = 10"

definition ws_block_settle :: "collector_config \<Rightarrow> u64" where
  "ws_block_settle config = unwrap_or (cc_ws_block_settle_ms config) DEFAULT_WS_BLOCK_SETTLE_MS"

definition fills_reconnect_gaps :: "collector_config \<Rightarrow> bool" where
  "fills_reconnect_gaps config \<longleftrightarrow> length (cc_websocket_urls config) = 1"

datatype updater_mode =
    WebsocketUpdates event_queue u64 bool
  | PendingUpdates
  | LatestUpdates u64

text \<open>A spawned updater: its mode, and what it took from the registry when it was made.\<close>

record running =
  ru_mode :: updater_mode
  ru_max_blocks_per_batch :: u64
  ru_topics :: "topic list"
  ru_profitable_topics :: "topic set"
  ru_refetch_algebra_fee :: bool

record listener =
  li_url :: string
  li_addresses :: "address list"
  li_topics :: "topic list"

record handle =
  ch_updater :: "running option"
  ch_ws_listeners :: "listener list"
  ch_ws_urls :: "string list"
  ch_registry :: registry
  ch_config :: collector_config

section \<open>Starting and stopping\<close>

text \<open>\<^verbatim>\<open>UnifiedPoolUpdater::new\<close> sets the cursor and copies the topics; the task then runs on its own.\<close>

definition spawn_updater :: "updater_mode \<Rightarrow> u64 \<Rightarrow> handle \<Rightarrow> handle" where
  "spawn_updater mode start_block h =
     (let r = init_cursor start_block (ch_registry h)
      in h\<lparr>ch_registry := r,
           ch_updater := Some \<lparr>ru_mode = mode, ru_max_blocks_per_batch = cc_max_blocks_per_batch (ch_config h),
             ru_topics = reg_topics r, ru_profitable_topics = reg_profitable_topics r,
             ru_refetch_algebra_fee = cc_refetch_algebra_fee (ch_config h)\<rparr>\<rparr>)"

definition start_listeners :: "string list \<Rightarrow> address list \<Rightarrow> topic list \<Rightarrow> listener list" where
  "start_listeners urls addresses topics =
     map (\<lambda>url. \<lparr>li_url = url, li_addresses = addresses, li_topics = topics\<rparr>) urls"

definition ws_mode :: "collector_config \<Rightarrow> u64 \<Rightarrow> updater_mode" where
  "ws_mode config chain_id =
     WebsocketUpdates (queue_new 1000 1000 chain_id) (ws_block_settle config) (fills_reconnect_gaps config)"

definition rpc_mode :: "collector_config \<Rightarrow> updater_mode" where
  "rpc_mode config = (if cc_use_pending_blocks config then PendingUpdates else LatestUpdates (cc_wait_time config))"

definition start_collector :: "collector_config \<Rightarrow> registry \<Rightarrow> handle" where
  "start_collector config r =
     (if cc_use_websocket config then
        spawn_updater (ws_mode config (reg_network_id r)) (cc_start_block config)
          \<lparr>ch_updater = None,
           ch_ws_listeners = start_listeners (cc_websocket_urls config) (get_all_addresses r) (reg_topics r),
           ch_ws_urls = cc_websocket_urls config, ch_registry = r, ch_config = config\<rparr>
      else
        spawn_updater (rpc_mode config) (cc_start_block config)
          \<lparr>ch_updater = None, ch_ws_listeners = [], ch_ws_urls = [], ch_registry = r, ch_config = config\<rparr>)"

text \<open>Stopping waits for the task: the registry is then what the task left.\<close>

definition stop_updater :: "(running \<Rightarrow> registry \<Rightarrow> registry) \<Rightarrow> handle \<Rightarrow> handle" where
  "stop_updater left h =
     (case ch_updater h of
        None \<Rightarrow> h
      | Some u \<Rightarrow> h\<lparr>ch_updater := None, ch_registry := left u (ch_registry h)\<rparr>)"

definition stop_collector :: "(running \<Rightarrow> registry \<Rightarrow> registry) \<Rightarrow> handle \<Rightarrow> handle" where
  "stop_collector left h = stop_updater left (h\<lparr>ch_ws_listeners := []\<rparr>)"

section \<open>Removing pools\<close>

fun remove_pools :: "address list \<Rightarrow> registry \<Rightarrow> registry \<times> nat" where
  "remove_pools [] r = (r, 0)"
| "remove_pools (a # as) r =
     (case remove_pool a r of
        (r, removed) \<Rightarrow>
          (case remove_pools as r of (r, n) \<Rightarrow> (r, if removed = None then n else n + 1)))"

section \<open>Catching up\<close>

text \<open>Errors of single logs are only reported.\<close>

definition apply_each :: "u64 \<Rightarrow> chain_log list \<Rightarrow> pool \<Rightarrow> pool" where
  "apply_each now ls p = foldl (\<lambda>p l. fst (pool_apply_log now l p)) p ls"

definition apply_catchup_events_in_memory ::
    "rpc \<Rightarrow> u64 \<Rightarrow> topic list \<Rightarrow> u64 \<Rightarrow> u64 \<Rightarrow> pool list \<Rightarrow> pool list option" where
  "apply_catchup_events_in_memory rpc now topics from_block to_block pools =
     (let addresses = map pool_address pools
      in map_option (\<lambda>events.
           let lb = map pool_address (filter (\<lambda>p. pool_type_of p = TypeLB) pools);
               events = (if lb = [] then events
                 else enrich_log_timestamps_where (rpc_header rpc) events (\<lambda>l. log_address l \<in> set lb) []);
               events_by_addr = group_logs (filter (\<lambda>l. log_address l \<in> set addresses) events)
           in map (\<lambda>p. case map_of events_by_addr (pool_address p) of
                     None \<Rightarrow> p
                   | Some pool_events \<Rightarrow> apply_each now pool_events p) pools)
         (fetch_events_with_retry rpc addresses topics (Number from_block) (Number to_block)))"

definition catchup_registry_to_block :: "rpc \<Rightarrow> u64 \<Rightarrow> u64 \<Rightarrow> u64 \<Rightarrow> registry \<Rightarrow> registry option" where
  "catchup_registry_to_block rpc now from_block to_block r =
     map_option (\<lambda>events. fold (apply_at now) (enrich_if_lb_pools_present (rpc_header rpc) r events []) r)
       (fetch_events_with_retry rpc (get_all_addresses r) (reg_topics r) (Number from_block) (Number to_block))"

definition register_pools_and_topics :: "(event_topic \<Rightarrow> topic) \<Rightarrow> pool list \<Rightarrow> registry \<Rightarrow> registry" where
  "register_pools_and_topics topic_of pools r =
     fold (register_type_topics topic_of) (remdups (map pool_type_of pools)) (fold add_pool pools r)"

section \<open>Adding pools\<close>

record collector_env =
  ce_keccak256 :: hash
  ce_topic_of :: "event_topic \<Rightarrow> topic"
  ce_rpc :: rpc
  ce_nodes :: "u64 \<Rightarrow> pool_nodes"
  ce_left :: "running \<Rightarrow> registry \<Rightarrow> registry"
  ce_now :: u64

definition fetch_at :: "collector_env \<Rightarrow> fetch_config \<Rightarrow> u64 \<Rightarrow> address list \<Rightarrow> pool list res" where
  "fetch_at env config block addresses =
     fetch_pools_in_memory (ce_keccak256 env) config (ce_now env) (ce_nodes env block) addresses"

definition catch_up_old :: "collector_env \<Rightarrow> u64 \<Rightarrow> u64 \<Rightarrow> registry \<Rightarrow> registry option" where
  "catch_up_old env stop_block fetch_block r =
     (if fetch_block > stop_block
      then catchup_registry_to_block (ce_rpc env) (ce_now env) (stop_block + 1) fetch_block r else Some r)"

definition catch_up_new :: "collector_env \<Rightarrow> topic list \<Rightarrow> u64 \<Rightarrow> u64 \<Rightarrow> pool list \<Rightarrow> pool list option" where
  "catch_up_new env topics fetch_block final_block pools =
     (if final_block > fetch_block
      then apply_catchup_events_in_memory (ce_rpc env) (ce_now env) topics (fetch_block + 1) final_block pools
      else Some pools)"

text \<open>The pools are fetched while the updater runs on; then it is stopped, and both sides are brought to one block.\<close>

definition add_pools_http ::
    "collector_env \<Rightarrow> fetch_config \<Rightarrow> address list \<Rightarrow> u64 \<Rightarrow> handle \<Rightarrow> (handle \<times> unit res) option" where
  "add_pools_http env config addresses block_number h =
     (let fetch_block = max block_number (reg_last_processed_block (ch_registry h))
      in case fetch_at env config fetch_block addresses of
           Inl e \<Rightarrow> Some (h, Err e)
         | Inr pools \<Rightarrow>
             let h = stop_updater (ce_left env) h;
                 stop_block = reg_last_processed_block (ch_registry h);
                 final_block = max fetch_block stop_block
             in Option.bind (catch_up_old env stop_block fetch_block (ch_registry h)) (\<lambda>r.
                Option.bind (catch_up_new env (reg_topics r) fetch_block final_block pools) (\<lambda>pools.
                let r = set_last_processed_block final_block (register_pools_and_topics (ce_topic_of env) pools r)
                in Some (spawn_updater (rpc_mode (ch_config h)) final_block (h\<lparr>ch_registry := r\<rparr>), Ok ()))))"

text \<open>
  The updater is stopped first; listeners for all addresses buffer events while the pools are fetched. A fetch
  that fails restarts the updater without the new pools; a panic in it does not come back here.
\<close>

definition add_pools_ws ::
    "collector_env \<Rightarrow> fetch_config \<Rightarrow> address list \<Rightarrow> u64 \<Rightarrow> handle \<Rightarrow> (handle \<times> unit res) option" where
  "add_pools_ws env config addresses block_number h =
     (let h = stop_updater (ce_left env) (h\<lparr>ch_ws_listeners := []\<rparr>);
          stop_block = reg_last_processed_block (ch_registry h);
          fetch_block = max block_number stop_block
      in Option.bind (catch_up_old env stop_block fetch_block (ch_registry h)) (\<lambda>r.
         let all_addresses = remdups (get_all_addresses r @ addresses);
             h = h\<lparr>ch_registry := r, ch_ws_listeners := start_listeners (ch_ws_urls h) all_addresses (reg_topics r)\<rparr>;
             restart = (\<lambda>r. spawn_updater (ws_mode (ch_config h) (fc_chain_id config)) fetch_block
               (h\<lparr>ch_registry := set_last_processed_block fetch_block r\<rparr>))
         in case caught (fetch_at env config fetch_block addresses) of
              Inl e \<Rightarrow> Some (h, Err e)
            | Inr (Inl e) \<Rightarrow> Some (restart r, Err e)
            | Inr (Inr pools) \<Rightarrow> Some (restart (register_pools_and_topics (ce_topic_of env) pools r), Ok ())))"

definition add_pools ::
    "collector_env \<Rightarrow> fetch_config \<Rightarrow> address list \<Rightarrow> u64 \<Rightarrow> handle \<Rightarrow> (handle \<times> unit res) option" where
  "add_pools env config new_addresses block_number h =
     (if new_addresses = [] then Some (h, Ok ())
      else let addresses = filter (\<lambda>a. get_pool (ch_registry h) a = None) new_addresses
           in if addresses = [] then Some (h, Ok ())
              else if cc_use_websocket (ch_config h) then add_pools_ws env config addresses block_number h
              else add_pools_http env config addresses block_number h)"

section \<open>What catching up does\<close>

text \<open>The logs of one pool among those of some blocks, dated when it is an LB pool.\<close>

definition pool_logs :: "rpc \<Rightarrow> (u64 \<Rightarrow> chain_log list) \<Rightarrow> topic list \<Rightarrow> pool \<Rightarrow> int list \<Rightarrow> chain_log list" where
  "pool_logs rpc chain topics p ns =
     map (stamped (rpc_header rpc) [] (\<lambda>_. pool_type_of p = TypeLB))
       (filter (watches [pool_address p] topics) (logs_between chain ns))"

lemma pool_logs_nil [simp]: "pool_logs rpc chain topics p [] = []"
  by (simp add: pool_logs_def)

lemma pool_logs_topics: "set ts = set ts' \<Longrightarrow> pool_logs rpc chain ts = pool_logs rpc chain ts'"
proof -
  assume "set ts = set ts'"
  then have "watches as ts = watches as ts'" for as by (simp add: watches_def fun_eq_iff)
  then show ?thesis unfolding pool_logs_def by (intro ext) simp
qed

lemma apply_each_all [simp]: "apply_each now = pool.apply_all now"
  by (simp add: apply_each_def pool.apply_all_def fun_eq_iff)

lemma logs_at_stamped:
  assumes "a \<in> set as" and "\<And>l. log_address l = a \<Longrightarrow> wanted l = w"
  shows "logs_at a (map (stamped header [] wanted) (filter (watches as ts) ls)) =
    map (stamped header [] (\<lambda>_. w)) (filter (watches [a] ts) ls)"
proof -
  have "stamped header [] wanted l = stamped header [] (\<lambda>_. w) l" if "log_address l = a" for l
    using assms(2) [OF that] by (simp add: stamped_def)
  then show ?thesis using assms(1) by (induction ls) (auto simp: watches_def)
qed

lemma after_stop: "stop < fetch \<Longrightarrow> uint (stop + 1) = uint stop + 1" for stop fetch :: u64
  by (rule not_max [of _ fetch]) (simp add: word_less_def)

lemma catch_up_old_pools:
  assumes "reg_inv r" and "reg_pools r \<noteq> []" and "serves (ce_rpc env) chain"
  shows "\<exists>r'. catch_up_old env stop_block fetch_block r = Some r' \<and> reg_inv r' \<and> r' = r\<lparr>reg_pools := reg_pools r'\<rparr> \<and>
    (\<forall>a. get_pool r' a = map_option (\<lambda>p. pool.apply_all (ce_now env)
      (pool_logs (ce_rpc env) chain (reg_topics r) p [uint stop_block + 1..uint fetch_block]) p) (get_pool r a))"
proof (cases "fetch_block > stop_block")
  case False
  then have "[uint stop_block + 1..uint fetch_block] = []" by (simp add: word_less_def)
  then show ?thesis using False assms(1) by (simp add: catch_up_old_def option.map_ident)
next
  case True
  have l: "live r" using assms(1,2) by (simp add: live_def reg_inv_def)
  let ?header = "rpc_header (ce_rpc env)"
  let ?ls = "map (stamped ?header [] (lb_log r)) (filter (watches (get_all_addresses r) (reg_topics r))
    (logs_between chain [uint stop_block + 1..uint fetch_block]))"
  let ?r = "fold (apply_at (ce_now env)) ?ls r"
  have c: "catch_up_old env stop_block fetch_block r = Some ?r"
    using True assms(1) serves_fetch [OF assms(3) live_addresses [OF l]] enrich_lb [of r "[]" ?header]
    by (simp add: catch_up_old_def catchup_registry_to_block_def after_stop [OF True] reg_inv_def bt_inv_def)
  have i: "reg_inv (fold (apply_at (ce_now env)) ls r)" for ls
    using assms(1) by (induction ls arbitrary: r) (simp_all add: reg_inv_apply)
  have a: "applied (ce_now env) (\<lambda>a. logs_at a ?ls) r ?r" using assms(1) by (intro applied_fold) (simp add: reg_inv_def)
  have "logs_at a ?ls = pool_logs (ce_rpc env) chain (reg_topics r) p [uint stop_block + 1..uint fetch_block]"
    if g: "get_pool r a = Some p" for a p
  proof -
    have "(a, p) \<in> set (reg_pools r)" and ad: "pool_address p = a"
      using g assms(1) bt_get_set [of "reg_pools r" a p] by (simp_all add: get_pool_def reg_inv_def)
    then have "a \<in> set (get_all_addresses r)" by (force simp: get_all_addresses_def)
    from logs_at_stamped [OF this, of "lb_log r" "pool_type_of p = TypeLB"] show ?thesis
      using g ad by (simp add: pool_logs_def lb_log_def)
  qed
  then have "get_pool ?r a = map_option (\<lambda>p. pool.apply_all (ce_now env)
      (pool_logs (ce_rpc env) chain (reg_topics r) p [uint stop_block + 1..uint fetch_block]) p) (get_pool r a)" for a
    using a by (cases "get_pool r a") (simp_all add: applied_def)
  moreover have "?r = r\<lparr>reg_pools := reg_pools ?r\<rparr>" using a by (simp add: applied_def)
  ultimately show ?thesis using c i by blast
qed

lemma catch_up_in_memory:
  assumes "pools \<noteq> []" and "serves rpc chain"
  shows "\<exists>pools'. apply_catchup_events_in_memory rpc now topics x y pools = Some pools' \<and>
    (distinct (map pool_address pools) \<longrightarrow>
      pools' = map (\<lambda>p. pool.apply_all now (pool_logs rpc chain topics p [uint x..uint y]) p) pools)"
proof -
  let ?addresses = "map pool_address pools"
  let ?lb = "map pool_address (filter (\<lambda>p. pool_type_of p = TypeLB) pools)"
  let ?wanted = "\<lambda>l. log_address l \<in> set ?lb"
  let ?logs = "filter (watches ?addresses topics) (logs_between chain [uint x..uint y])"
  let ?events = "map (stamped (rpc_header rpc) [] ?wanted) ?logs"
  let ?kept = "filter (\<lambda>l. log_address l \<in> set ?addresses) ?events"
  have f: "fetch_events_with_retry rpc ?addresses topics (Number x) (Number y) = Some ?logs"
    using assms by (intro serves_fetch) simp_all
  have en: "(if ?lb = [] then ?logs else enrich_log_timestamps_where (rpc_header rpc) ?logs ?wanted []) = ?events"
  proof (cases "?lb = []")
    case True
    then have "stamped (rpc_header rpc) [] ?wanted = id" by (simp add: stamped_def fun_eq_iff)
    then show ?thesis using True by simp
  next
    case False
    then show ?thesis by (simp add: enrich_stamped bt_inv_def)
  qed
  have s: "apply_catchup_events_in_memory rpc now topics x y pools = Some (map (\<lambda>p.
      case map_of (group_logs ?kept) (pool_address p) of None \<Rightarrow> p | Some ls \<Rightarrow> pool.apply_all now ls p) pools)"
    by (simp only: apply_catchup_events_in_memory_def Let_def f option.map en apply_each_all)
  have g: "(case map_of (group_logs ls) a of None \<Rightarrow> p | Some ls \<Rightarrow> pool.apply_all now ls p) = pool.apply_all now (logs_at a ls) p"
    for ls a p
    using group_logs_groups [of ls] by (auto simp: groups_of_def split: option.splits dest!: spec [of _ a])
  have "logs_at (pool_address p) ?kept = pool_logs rpc chain topics p [uint x..uint y]"
    if d: "distinct ?addresses" and p: "p \<in> set pools" for p
  proof -
    have "?wanted l = (pool_type_of p = TypeLB)" if "log_address l = pool_address p" for l
      using that p d by (auto simp: distinct_map dest: inj_onD)
    from logs_at_stamped [of "pool_address p" ?addresses, OF _ this] p
    have "logs_at (pool_address p) ?events = pool_logs rpc chain topics p [uint x..uint y]" by (simp add: pool_logs_def)
    moreover have "logs_at (pool_address p) (filter (\<lambda>l. log_address l \<in> set ?addresses) ls) = logs_at (pool_address p) ls" for ls
      using p by (induction ls) auto
    ultimately show ?thesis by simp
  qed
  then show ?thesis using s by (simp add: g)
qed

section \<open>What registering does\<close>

lemma add_pools_get:
  assumes "reg_inv r"
  shows "reg_inv (fold add_pool ps r) \<and> reg_topics (fold add_pool ps r) = reg_topics r \<and>
    (\<forall>a. a \<notin> pool_address ` set ps \<longrightarrow> get_pool (fold add_pool ps r) a = get_pool r a) \<and>
    (distinct (map pool_address ps) \<longrightarrow> (\<forall>p \<in> set ps. get_pool (fold add_pool ps r) (pool_address p) = Some p))"
  using assms
proof (induction ps arbitrary: r)
  case (Cons q ps)
  have i: "reg_inv (add_pool q r)" by (rule reg_inv_step [OF registry_step.add Cons.prems])
  have g: "get_pool (add_pool q r) a = (if a = pool_address q then Some q else get_pool r a)" for a
    using Cons.prems by (simp add: get_pool_def registry_simps bt_simps reg_inv_def)
  show ?case using Cons.IH [OF i] g by (auto simp: registry_simps)
qed simp

lemma registered_pools:
  fixes n :: u64 and topic_of :: "event_topic \<Rightarrow> topic" and ps :: "pool list"
  assumes "reg_inv r"
  defines "r' \<equiv> set_last_processed_block n (register_pools_and_topics topic_of ps r)"
  shows "reg_inv r' \<and> reg_last_processed_block r' = n \<and>
    set (reg_topics r') = set (reg_topics r) \<union> (\<Union>p \<in> set ps. topic_of ` set (type_topics (pool_type_of p))) \<and>
    (\<forall>a. a \<notin> pool_address ` set ps \<longrightarrow> get_pool r' a = get_pool r a) \<and>
    (distinct (map pool_address ps) \<longrightarrow> (\<forall>p \<in> set ps. get_pool r' (pool_address p) = Some p))"
proof -
  let ?r = "register_pools_and_topics topic_of ps r"
  note p = add_pools_get [OF assms(1), of ps]
  note t = register_all_topics [of topic_of "remdups (map pool_type_of ps)" "fold add_pool ps r", folded register_pools_and_topics_def]
  have "reg_inv r'" unfolding r'_def using t p by (intro reg_inv_step [OF registry_step.cursor]) simp
  moreover have "get_pool r' = get_pool (fold add_pool ps r)"
    using t by (simp add: r'_def get_pool_def set_last_processed_block_def fun_eq_iff)
  moreover have "reg_last_processed_block r' = n" "reg_topics r' = reg_topics ?r"
    by (simp_all add: r'_def set_last_processed_block_def)
  ultimately show ?thesis using p t by simp
qed

lemma init_cursor_same [simp]: "reg_last_processed_block r = n \<Longrightarrow> init_cursor n r = r"
  by (simp add: init_cursor_def set_last_processed_block_def)

section \<open>Adding pools, step by step\<close>

definition is_running :: "handle \<Rightarrow> bool" where
  "is_running h \<longleftrightarrow> (\<exists>w. ch_updater h = Some w \<and> ru_topics w = reg_topics (ch_registry h))"

lemma spawned:
  "reg_last_processed_block (ch_registry h) = n \<Longrightarrow>
   ch_registry (spawn_updater mode n h) = ch_registry h \<and> is_running (spawn_updater mode n h)"
  by (simp add: spawn_updater_def is_running_def Let_def)

text \<open>
  What both modes come to: the registry the updater left, advanced to the fetch block where it was behind, with
  the fetched pools, advanced where they were behind, added at the later of the two blocks.
\<close>

definition joined ::
    "collector_env \<Rightarrow> (u64 \<Rightarrow> chain_log list) \<Rightarrow> u64 \<Rightarrow> pool list \<Rightarrow> registry \<Rightarrow> registry \<Rightarrow> bool" where
  "joined env chain fetch_block ps r r' \<longleftrightarrow>
     (let stop_block = reg_last_processed_block r;
          final_block = max fetch_block stop_block;
          logs = pool_logs (ce_rpc env) chain (reg_topics r)
      in reg_inv r' \<and> reg_last_processed_block r' = final_block \<and>
         set (reg_topics r') = set (reg_topics r) \<union> (\<Union>p \<in> set ps. ce_topic_of env ` set (type_topics (pool_type_of p))) \<and>
         (\<forall>a p. a \<notin> pool_address ` set ps \<longrightarrow> get_pool r a = Some p \<longrightarrow>
            get_pool r' a = Some (pool.apply_all (ce_now env) (logs p [uint stop_block + 1..uint final_block]) p)) \<and>
         (distinct (map pool_address ps) \<longrightarrow> (\<forall>p \<in> set ps. get_pool r' (pool_address p) =
            Some (pool.apply_all (ce_now env) (logs p [uint fetch_block + 1..uint final_block]) p))))"

lemma pool_all_address [simp]:
  "pool_address (pool.apply_all now ls p) = pool_address p" "pool_type_of (pool.apply_all now ls p) = pool_type_of p"
  by (induction ls arbitrary: p) simp_all

lemma catch_up_keeps_ids:
  "catch_up_new env topics fetch_block final_block ps = Some ps1 \<Longrightarrow>
   map (\<lambda>p. (pool_address p, pool_type_of p)) ps1 = map (\<lambda>p. (pool_address p, pool_type_of p)) ps"
  by (auto simp: catch_up_new_def apply_catchup_events_in_memory_def Let_def split: option.splits if_splits)

lemma final_range: "fetch \<le> stop \<Longrightarrow> [uint stop + 1..uint (max fetch stop)] = []" for fetch stop :: u64
  by (simp add: max_def)

lemma joined_step:
  assumes "reg_inv r" and "reg_pools r \<noteq> []" and "serves (ce_rpc env) chain" and "ps \<noteq> []"
    and "stop_block = reg_last_processed_block r" and "final_block = max fetch_block stop_block"
  shows "\<exists>r1 ps1. catch_up_old env stop_block fetch_block r = Some r1 \<and>
    catch_up_new env (reg_topics r1) fetch_block final_block ps = Some ps1 \<and>
    (fetch_block = final_block \<longrightarrow> ps1 = ps) \<and>
    joined env chain fetch_block ps r (set_last_processed_block final_block (register_pools_and_topics (ce_topic_of env) ps1 r1))"
proof -
  let ?logs = "pool_logs (ce_rpc env) chain (reg_topics r)"
  let ?old = "\<lambda>p. pool.apply_all (ce_now env) (?logs p [uint stop_block + 1..uint final_block]) p"
  let ?new = "\<lambda>p. pool.apply_all (ce_now env) (?logs p [uint fetch_block + 1..uint final_block]) p"
  obtain r1 where r1: "catch_up_old env stop_block fetch_block r = Some r1" "reg_inv r1" "r1 = r\<lparr>reg_pools := reg_pools r1\<rparr>"
    "\<And>a. get_pool r1 a = map_option (\<lambda>p. pool.apply_all (ce_now env) (?logs p [uint stop_block + 1..uint fetch_block]) p) (get_pool r a)"
    using catch_up_old_pools [OF assms(1-3)] by blast
  have "[uint stop_block + 1..uint fetch_block] = [uint stop_block + 1..uint final_block]"
    using assms(6) by (auto simp: max_def word_le_def)
  then have old: "get_pool r1 a = map_option ?old (get_pool r a)" for a using r1(4) by simp
  have t: "reg_topics r1 = reg_topics r" using arg_cong [OF r1(3), of reg_topics] by simp
  have "\<exists>ps1. catch_up_new env (reg_topics r) fetch_block final_block ps = Some ps1 \<and>
      (distinct (map pool_address ps) \<longrightarrow> ps1 = map ?new ps) \<and> (fetch_block = final_block \<longrightarrow> ps1 = ps)"
  proof (cases "final_block > fetch_block")
    case False
    then have "[uint fetch_block + 1..uint final_block] = []" by (simp add: word_less_def)
    then show ?thesis using False by (simp add: catch_up_new_def)
  next
    case True
    obtain ps1 where c: "apply_catchup_events_in_memory (ce_rpc env) (ce_now env) (reg_topics r) (fetch_block + 1) final_block ps = Some ps1"
      "distinct (map pool_address ps) \<longrightarrow> ps1 = map ?new ps"
      using catch_up_in_memory [OF assms(4,3), of "ce_now env" "reg_topics r" "fetch_block + 1" final_block]
      by (auto simp: after_stop [OF True])
    then show ?thesis using True by (simp add: catch_up_new_def)
  qed
  then obtain ps1 where ps1: "catch_up_new env (reg_topics r) fetch_block final_block ps = Some ps1"
    "distinct (map pool_address ps) \<Longrightarrow> ps1 = map ?new ps" "fetch_block = final_block \<longrightarrow> ps1 = ps" by blast
  have "(\<lambda>p. (pool_address p, pool_type_of p)) ` set ps1 = (\<lambda>p. (pool_address p, pool_type_of p)) ` set ps"
    using arg_cong [OF catch_up_keeps_ids [OF ps1(1)], of set] by (simp only: set_map)
  from arg_cong [OF this, of "image fst"] arg_cong [OF this, of "image snd"]
  have ids: "pool_address ` set ps1 = pool_address ` set ps" "pool_type_of ` set ps1 = pool_type_of ` set ps"
    by (simp_all add: image_image)
  let ?r' = "set_last_processed_block final_block (register_pools_and_topics (ce_topic_of env) ps1 r1)"
  note reg = registered_pools [OF r1(2), of final_block "ce_topic_of env" ps1]
  have "(\<Union>p \<in> set ps1. f (pool_type_of p)) = (\<Union>p \<in> set ps. f (pool_type_of p))" for f :: "pool_type \<Rightarrow> topic set"
    using arg_cong [OF ids(2), of "\<lambda>ts. \<Union>t \<in> ts. f t"] by simp
  from this [of "\<lambda>t. ce_topic_of env ` set (type_topics t)"]
  have topics: "set (reg_topics ?r') = set (reg_topics r) \<union> (\<Union>p \<in> set ps. ce_topic_of env ` set (type_topics (pool_type_of p)))"
    using reg t by simp
  have "get_pool ?r' a = Some (?old p)" if "a \<notin> pool_address ` set ps" "get_pool r a = Some p" for a p
    using reg that old ids(1) by simp
  moreover have "get_pool ?r' (pool_address p) = Some (?new p)" if d: "distinct (map pool_address ps)" and "p \<in> set ps" for p
  proof -
    have "distinct (map pool_address ps1)" "?new p \<in> set ps1" using ps1(2) [OF d] that by (simp_all add: comp_def)
    then have "get_pool ?r' (pool_address (?new p)) = Some (?new p)" using reg by blast
    then show ?thesis by simp
  qed
  ultimately have "joined env chain fetch_block ps r ?r'"
    using reg topics assms(5,6) unfolding joined_def Let_def by simp
  then show ?thesis using r1(1) ps1(1,3) t by auto
qed

lemma fetched_nonempty: "fetched_list keccak256 config now nodes as ps \<Longrightarrow> as \<noteq> [] \<Longrightarrow> ps \<noteq> []"
  by (auto simp: fetched_list_def)

lemma stop_running: "ch_updater h = Some u \<Longrightarrow> stop_updater left h = h\<lparr>ch_updater := None, ch_registry := left u (ch_registry h)\<rparr>"
  by (simp add: stop_updater_def)

lemma add_pools_http_returns:
  fixes block_number :: u64
  assumes "ch_updater h = Some u" and "reg_inv (ce_left env u (ch_registry h))" and "reg_pools (ce_left env u (ch_registry h)) \<noteq> []"
    and "serves (ce_rpc env) chain" and "addresses \<noteq> []"
  defines "fetch_block \<equiv> max block_number (reg_last_processed_block (ch_registry h))"
  shows "\<exists>h' result. add_pools_http env config addresses block_number h = Some (h', result) \<and>
    (case result of
       Inl e \<Rightarrow> h' = h \<and> fetch_at env config fetch_block addresses = Err e
     | Inr _ \<Rightarrow> is_running h' \<and> (\<exists>ps. fetch_at env config fetch_block addresses = Ok ps \<and>
         joined env chain fetch_block ps (ce_left env u (ch_registry h)) (ch_registry h')))"
proof (cases "fetch_at env config fetch_block addresses")
  case (Inl e)
  then show ?thesis by (simp add: add_pools_http_def Let_def fetch_block_def [symmetric])
next
  case (Inr ps)
  let ?r = "ce_left env u (ch_registry h)"
  have "ps \<noteq> []" using fetched_nonempty [OF fetch_pools_in_memory_fetched] Inr assms(5) by (simp add: fetch_at_def)
  from joined_step [OF assms(2-4) this refl refl, of fetch_block]
  obtain r1 ps1 where j: "catch_up_old env (reg_last_processed_block ?r) fetch_block ?r = Some r1"
    "catch_up_new env (reg_topics r1) fetch_block (max fetch_block (reg_last_processed_block ?r)) ps = Some ps1"
    "joined env chain fetch_block ps ?r (set_last_processed_block (max fetch_block (reg_last_processed_block ?r))
      (register_pools_and_topics (ce_topic_of env) ps1 r1))" by blast
  show ?thesis
    using Inr j spawned by (simp add: add_pools_http_def stop_running [OF assms(1)] Let_def set_last_processed_block_def
        fetch_block_def [symmetric])
qed

lemma add_pools_ws_returns:
  fixes block_number :: u64
  assumes "ch_updater h = Some u" and "reg_inv (ce_left env u (ch_registry h))" and "reg_pools (ce_left env u (ch_registry h)) \<noteq> []"
    and "serves (ce_rpc env) chain" and "addresses \<noteq> []"
  defines "fetch_block \<equiv> max block_number (reg_last_processed_block (ce_left env u (ch_registry h)))"
  shows "\<exists>h' result. add_pools_ws env config addresses block_number h = Some (h', result) \<and>
    (case result of
       Inl e \<Rightarrow> is_running h' \<or> (\<exists>k. e = Panic k)
     | Inr _ \<Rightarrow> is_running h' \<and> (\<exists>ps. fetch_at env config fetch_block addresses = Ok ps \<and>
         joined env chain fetch_block ps (ce_left env u (ch_registry h)) (ch_registry h')))"
proof -
  let ?r = "ce_left env u (ch_registry h)"
  have m: "max fetch_block (reg_last_processed_block ?r) = fetch_block" by (simp add: fetch_block_def)
  have u: "ch_updater (h\<lparr>ch_ws_listeners := []\<rparr>) = Some u" using assms(1) by simp
  obtain r1 where r1: "catch_up_old env (reg_last_processed_block ?r) fetch_block ?r = Some r1"
    using catch_up_old_pools [OF assms(2-4)] by blast
  show ?thesis
  proof (cases "fetch_at env config fetch_block addresses")
    case (Inl e)
    then show ?thesis
      using r1 spawned by (cases e rule: err.exhaust)
        (simp_all add: add_pools_ws_def stop_running [OF u] Let_def set_last_processed_block_def fetch_block_def [symmetric])
  next
    case (Inr ps)
    have "ps \<noteq> []" using fetched_nonempty [OF fetch_pools_in_memory_fetched] Inr assms(5) by (simp add: fetch_at_def)
    from joined_step [OF assms(2-4) this refl refl, of fetch_block]
    have "joined env chain fetch_block ps ?r (set_last_processed_block fetch_block (register_pools_and_topics (ce_topic_of env) ps r1))"
      using r1 m by auto
    then show ?thesis
      using Inr r1 spawned by (simp add: add_pools_ws_def stop_running [OF u] Let_def set_last_processed_block_def
          fetch_block_def [symmetric])
  qed
qed

section \<open>Properties\<close>


text \<open>A collector over the registry with one pair at block 3, and a node for a second pair whose first answer is lost.\<close>

definition sample_handle :: handle where
  "sample_handle = start_collector \<lparr>cc_start_block = 3, cc_max_blocks_per_batch = 50, cc_use_pending_blocks = False,
     cc_use_websocket = False, cc_websocket_urls = [], cc_wait_time = 100, cc_refetch_algebra_fee = True,
     cc_ws_block_settle_ms = None\<rparr> sample_registry"

definition sample_collector_env :: collector_env where
  "sample_collector_env = \<lparr>ce_keccak256 = ucast, ce_topic_of = (\<lambda>_. 7), ce_rpc = sample_rpc, ce_nodes = (\<lambda>_. sample_nodes),
     ce_left = (\<lambda>_ r. r), ce_now = 9\<rparr>"

lemma init_cursor_inv: "reg_inv r \<Longrightarrow> reg_inv (init_cursor n r)"
  by (simp add: init_cursor_def Let_def reg_inv_step [OF registry_step.cursor])

lemma sample_registry_reg_inv: "reg_inv sample_registry"
  unfolding sample_registry_def
  by (intro reg_inv_step [OF registry_step.topics] reg_inv_step [OF registry_step.add] reg_inv_new)

lemma sample_handle_fields:
  "ch_registry sample_handle = init_cursor 3 sample_registry" "is_running sample_handle" "\<not> cc_use_websocket (ch_config sample_handle)"
  "reg_last_processed_block (init_cursor 3 sample_registry) = 3" "reg_pools (init_cursor 3 sample_registry) = [(1, PV2 sample_pair)]"
  "reg_topics (init_cursor 3 sample_registry) = [7, 8]" "reg_inv (init_cursor 3 sample_registry)"
  using sample_registry_cursor init_cursor_inv [OF sample_registry_reg_inv]
  by (simp_all add: sample_handle_def start_collector_def spawn_updater_def is_running_def Let_def)
    (simp_all add: init_cursor_def set_last_processed_block_def sample_registry_def registry_simps registry_new_def
      push_topic_def Let_def sample_lb_def sample_pair_def lb_new_def v2_new_def)

lemma sample_fetch_at: "\<exists>p. fetch_at sample_collector_env sample_config block [2] = Ok [PV2 p]"
proof -
  obtain p where p: "fetch_v2_pool sample_v2_node 56 [] [] 9 2 = Ok p" using sample_v2_fetched by blast
  have "fetch_v2_pool (sample_v2_node\<lparr>v2n_reads := Err TransportError\<rparr>) 56 [] [] 9 2 = Err TransportError"
    by (simp add: fetch_v2_pool_def)
  then have f: "fetch_pool ucast sample_config 9 (sample_nodes m 2 0) 2 TypeV2 = Err TransportError"
    "fetch_pool ucast sample_config 9 (sample_nodes m 2 1) 2 TypeV2 = Ok (PV2 p)" for m
    using p by (simp_all add: fetch_pool_def sample_nodes_def sample_pool_node_def sample_config_def)
  have "fc_parallel_fetch sample_config" by (simp add: sample_config_def)
  then have "fetch_chunk_in_memory ucast sample_config 9 sample_nodes [2] = Ok [PV2 p]"
    by (simp add: fetch_chunk_in_memory_def nodes_of_def sample_identified identify_and_fetch_def f [unfolded One_nat_def]
        sample_config_retries numeral_2_eq_2 Let_def)
  then show ?thesis by (simp add: fetch_at_def sample_collector_env_def fetch_pools_in_memory_def)
qed




section \<open>Removing pools\<close>

lemma remove_pools_exact:
  assumes "remove_pools as r = (r', n)" and "reg_inv r"
  shows "reg_inv r' \<and> (\<forall>a. get_pool r' a = (if a \<in> set as then None else get_pool r a)) \<and>
    n = card {a \<in> set as. get_pool r a \<noteq> None}"
  using assms
proof (induction "as" arbitrary: r n)
  case (Cons a as)
  let ?r = "fst (remove_pool a r)"
  obtain m where m: "remove_pools as ?r = (r', m)" "n = (if get_pool r a = None then m else m + 1)"
    using Cons.prems(1) by (auto simp: remove_pool_def get_pool_def Let_def split: prod.splits if_splits)
  have i: "reg_inv ?r" by (rule reg_inv_step [OF registry_step.remove Cons.prems(2)])
  have g: "get_pool ?r b = (if b = a then None else get_pool r b)" for b
    using Cons.prems(2) by (simp add: get_pool_def registry_simps bt_simps reg_inv_def)
  note ih = Cons.IH [OF m(1) i]
  have "{b \<in> set (a # as). get_pool r b \<noteq> None} =
      (if get_pool r a = None then {b \<in> set as. get_pool ?r b \<noteq> None} else insert a {b \<in> set as. get_pool ?r b \<noteq> None})"
    by (auto simp: g)
  then have "n = card {b \<in> set (a # as). get_pool r b \<noteq> None}" using ih m(2) by (simp add: g)
  then show ?case using ih g by auto
qed simp

section \<open>Where adding a new kind of pool goes wrong\<close>

text \<open>
  The new pools are caught up with the topics registered before the call, and their own are registered after it:
  the first pool of a kind gets none of its logs between the block it was fetched at and the cursor, which
  counts them as processed.
\<close>

lemma new_kind_misses_logs:
  assumes "joined env chain fetch_block ps r r'" and "distinct (map pool_address ps)" and "p \<in> set ps"
    and "\<And>n l. l \<in> set (chain n) \<Longrightarrow> log_address l = pool_address p \<Longrightarrow> log_topic0 l \<notin> Some ` set (reg_topics r)"
  shows "get_pool r' (pool_address p) = Some p \<and> reg_last_processed_block r' = max fetch_block (reg_last_processed_block r)"
proof -
  have "filter (watches [pool_address p] (reg_topics r)) (logs_between chain ns) = []" for ns
    using assms(4) by (fastforce simp: filter_empty_conv logs_between_def watches_def)
  then have "pool_logs (ce_rpc env) chain (reg_topics r) p ns = []" for ns by (simp add: pool_logs_def)
  then show ?thesis using assms(1-3) by (simp add: joined_def Let_def)
qed

text \<open>In websocket mode the new listeners subscribe to those old topics, and nothing subscribes to the new ones later.\<close>

lemma listeners_keep_old_topics:
  assumes "add_pools_ws env config addresses block_number h = Some (h', Ok ())" and "ch_updater h = Some u"
  shows "\<forall>li \<in> set (ch_ws_listeners h'). li_topics li = reg_topics (ce_left env u (ch_registry h))"
proof -
  have f: "reg_topics (fold (apply_at now) ls r) = reg_topics r" for now ls r by (induction ls arbitrary: r) simp_all
  have c: "reg_topics r' = reg_topics r" if "catch_up_old env stop_block fetch_block r = Some r'" for stop_block fetch_block r r'
    using that by (auto simp: catch_up_old_def catchup_registry_to_block_def f split: if_splits)
  have "ch_updater (h\<lparr>ch_ws_listeners := []\<rparr>) = Some u" using assms(2) by simp
  then obtain r' where r': "catch_up_old env (reg_last_processed_block (ce_left env u (ch_registry h)))
      (max block_number (reg_last_processed_block (ce_left env u (ch_registry h)))) (ce_left env u (ch_registry h)) = Some r'"
    using assms(1) by (auto simp: add_pools_ws_def stop_running Let_def bind_eq_Some_conv)
  have "ch_ws_listeners h' = start_listeners (ch_ws_urls h) (remdups (get_all_addresses r' @ addresses)) (reg_topics r')"
    using assms(1) r' \<open>ch_updater (h\<lparr>ch_ws_listeners := []\<rparr>) = Some u\<close>
    by (auto simp: add_pools_ws_def stop_running Let_def spawn_updater_def split: sum.splits)
  then show ?thesis using c [OF r'] by (simp add: start_listeners_def)
qed

end
