(* ===== verification/Replay.thy ===== *)
theory Replay
  imports Polling "HOL-Library.Product_Lexorder"
begin

text \<open>
  \<^verbatim>\<open>src/collector/replay.rs\<close>: the logs of one confirmed block for the registry's pools, dated and in canonical
  order. Against a node that serves its chain they are the events the block sources apply.
\<close>

definition canonical_key :: "chain_log \<Rightarrow> u64 \<times> u64" where
  "canonical_key l =
     (case log_block_number l of None \<Rightarrow> 0 | Some n \<Rightarrow> n, case log_index l of None \<Rightarrow> 0 | Some i \<Rightarrow> i)"

definition fetch_block_logs :: "rpc \<Rightarrow> registry \<Rightarrow> topic list \<Rightarrow> u64 \<Rightarrow> chain_log list option" where
  "fetch_block_logs rpc r topics block =
     map_option (\<lambda>logs. sort_key canonical_key (enrich_if_lb_pools_present (rpc_header rpc) r logs []))
       (fetch_events_with_retry rpc (get_all_addresses r) topics (Number block) (Number block))"

lemma canonical_stamped [simp]: "canonical_key (stamped header known wanted l) = canonical_key l"
  by (simp add: canonical_key_def)

text \<open>A chain whose blocks list their logs in order is replayed as the block sources see it.\<close>

lemma fetch_block_logs_events:
  assumes "live r" and "serves rpc chain" and "sorted (map canonical_key (chain block))"
  shows "fetch_block_logs rpc r topics block = Some (chain_events rpc chain topics r block)"
proof -
  have e: "map_option (\<lambda>logs. enrich_if_lb_pools_present (rpc_header rpc) r logs [])
      (fetch_events_with_retry rpc (get_all_addresses r) topics (Number block) (Number block)) = Some (chain_events rpc chain topics r block)"
    using fetched_events [OF assms(1,2) known_true_nil, of topics block block] by simp
  have "sorted (map canonical_key (filter P (chain block)))" for P
    using assms(3) by (simp add: sorted_filter)
  then have "sorted (map canonical_key (chain_events rpc chain topics r block))"
    by (simp add: chain_events_def comp_def)
  then have "sort_key canonical_key (chain_events rpc chain topics r block) = chain_events rpc chain topics r block"
    by (rule sort_key_id_if_sorted)
  then show ?thesis using arg_cong [OF e, of "map_option (sort_key canonical_key)"]
    by (simp add: fetch_block_logs_def option.map_comp comp_def)
qed

end
