(* ===== verification/LB_Factories.thy ===== *)
theory LB_Factories
  imports LB_Pool V2_Fetch
begin

text \<open>
  \<^verbatim>\<open>src/lb/factories.rs\<close>: the known Liquidity Book factories of each chain. Their addresses are text, compared
  without regard to case and parsed when an address is wanted; the lemmas tie the two together.
\<close>

section \<open>Addresses as text\<close>

text \<open>\<^verbatim>\<open>parse\<close> of an address: forty hexadecimal digits of either case, behind an optional \<^verbatim>\<open>0x\<close>.\<close>

definition hex_value :: "char \<Rightarrow> nat option" where
  "hex_value c =
     (let n = of_char c :: nat
      in if 48 \<le> n \<and> n \<le> 57 then Some (n - 48)
         else if 97 \<le> n \<and> n \<le> 102 then Some (n - 87)
         else if 65 \<le> n \<and> n \<le> 70 then Some (n - 55)
         else None)"

fun hex_number :: "nat \<Rightarrow> string \<Rightarrow> nat option" where
  "hex_number acc [] = Some acc"
| "hex_number acc (c # cs) = (case hex_value c of None \<Rightarrow> None | Some d \<Rightarrow> hex_number (16 * acc + d) cs)"

definition parse_address :: "string \<Rightarrow> address option" where
  "parse_address s =
     (let digits = (if take 2 s = ''0x'' then drop 2 s else s)
      in if length digits = 40 then map_option of_nat (hex_number 0 digits) else None)"

section \<open>The tables\<close>

record lb_factory =
  lf_address :: string
  lf_version :: lb_version
  lf_verified :: bool

definition lb_parse :: "lb_factory \<Rightarrow> address option" where
  "lb_parse f = parse_address (lf_address f)"

definition lb_matches :: "lb_factory \<Rightarrow> string \<Rightarrow> bool" where
  "lb_matches f address_str \<longleftrightarrow> lowercase (lf_address f) = lowercase address_str"

definition lb_factories_avalanche :: "lb_factory list" where
  "lb_factories_avalanche =
     [\<lparr>lf_address = ''0xb43120c4745967fa9b93E79C149E66B0f2D6Fe0c'', lf_version = V2_2, lf_verified = True\<rparr>,
      \<lparr>lf_address = ''0x8e42f2F4101563bF679975178e880FD87d3eFd4e'', lf_version = V2_1, lf_verified = True\<rparr>,
      \<lparr>lf_address = ''0x6E77932A92582f504FF6c4BdbCef7Da6c198aEEf'', lf_version = V2_0, lf_verified = True\<rparr>]"

definition lb_factories_arbitrum :: "lb_factory list" where
  "lb_factories_arbitrum =
     [\<lparr>lf_address = ''0xb43120c4745967fa9b93E79C149E66B0f2D6Fe0c'', lf_version = V2_2, lf_verified = False\<rparr>,
      \<lparr>lf_address = ''0x8e42f2F4101563bF679975178e880FD87d3eFd4e'', lf_version = V2_1, lf_verified = False\<rparr>]"

definition lb_factories_bsc :: "lb_factory list" where
  "lb_factories_bsc =
     [\<lparr>lf_address = ''0xb43120c4745967fa9b93E79C149E66B0f2D6Fe0c'', lf_version = V2_2, lf_verified = False\<rparr>,
      \<lparr>lf_address = ''0x8e42f2F4101563bF679975178e880FD87d3eFd4e'', lf_version = V2_1, lf_verified = False\<rparr>]"

definition lb_factories_ethereum :: "lb_factory list" where
  "lb_factories_ethereum =
     [\<lparr>lf_address = ''0xb43120c4745967fa9b93E79C149E66B0f2D6Fe0c'', lf_version = V2_2, lf_verified = False\<rparr>,
      \<lparr>lf_address = ''0xDC8d77b69155c7E68A95a4fb0f06a71FF90B943a'', lf_version = V2_1, lf_verified = False\<rparr>]"

definition get_lb_factories_by_chain_id :: "u64 \<Rightarrow> lb_factory list" where
  "get_lb_factories_by_chain_id chain =
     (if chain = 1 then lb_factories_ethereum
      else if chain = 56 then lb_factories_bsc
      else if chain = 42161 then lb_factories_arbitrum
      else if chain = 43114 then lb_factories_avalanche
      else [])"

definition get_lb_factory_addresses_by_chain_id :: "u64 \<Rightarrow> address list" where
  "get_lb_factory_addresses_by_chain_id chain = List.map_filter lb_parse (get_lb_factories_by_chain_id chain)"

definition get_lb_version_by_factory :: "u64 \<Rightarrow> string \<Rightarrow> lb_version option" where
  "get_lb_version_by_factory chain address =
     map_option lf_version (find (\<lambda>f. lb_matches f address) (get_lb_factories_by_chain_id chain))"

definition get_lb_supported_chain_ids :: "u64 list" where
  "get_lb_supported_chain_ids = [1, 56, 42161, 43114]"

section \<open>Text and addresses\<close>

lemma nibble: "unat (drop_bit (4 * i) a AND 15) = unat a div 16 ^ i mod 16" for a :: address
proof -
  have "drop_bit (4 * i) a AND 15 = take_bit 4 (drop_bit (4 * i) a)" by (simp add: take_bit_eq_mask mask_eq_exp_minus_1)
  then have "unat (drop_bit (4 * i) a AND 15) = take_bit 4 (unat (drop_bit (4 * i) a))"
    by (simp only: unsigned_take_bit_eq)
  also have "\<dots> = take_bit 4 (drop_bit (4 * i) (unat a))" by (simp only: unat_drop_bit_eq)
  also have "\<dots> = unat a div 16 ^ i mod 16" by (simp add: drop_bit_eq_div take_bit_eq_mod power_mult)
  finally show ?thesis .
qed

text \<open>The digit of a value in lower case, and back.\<close>

definition hex_digit :: "nat \<Rightarrow> char" where
  "hex_digit d = ''0123456789abcdef'' ! (d mod 16)"

lemma hex_digit_code: "d < 16 \<Longrightarrow> (of_char (hex_digit d) :: nat) = (if d < 10 then 48 + d else 87 + d)"
proof -
  assume d: "d < 16"
  have m: "map of_char ''0123456789abcdef'' = [48..<58] @ [97..<103]" by simp
  have "map of_char ''0123456789abcdef'' ! d = (of_char (''0123456789abcdef'' ! d) :: nat)"
    using d by (intro nth_map) simp
  then have "([48..<58] @ [97..<103]) ! d = (of_char (''0123456789abcdef'' ! d) :: nat)" by (simp only: m)
  moreover have "([48..<58] @ [97..<103]) ! d = (if d < 10 then 48 + d else 87 + d)"
    using d by (cases "d < 10") (simp_all add: nth_append del: upt_rec_numeral)
  moreover have "hex_digit d = ''0123456789abcdef'' ! d" using d by (simp add: hex_digit_def)
  ultimately show ?thesis by (simp only:)
qed

lemma hex_value_digit: "d < 16 \<Longrightarrow> hex_value (hex_digit d) = Some d"
  by (auto simp: hex_value_def hex_digit_code)

lemma lowercase_digit: "hex_value c = Some d \<Longrightarrow> lowercase [c] = [hex_digit d] \<and> d < 16"
proof -
  assume h: "hex_value c = Some d"
  have "of_char (if of_char c \<ge> (65 :: nat) \<and> of_char c \<le> (90 :: nat) then char_of (of_char c + 32 :: nat) else c) =
      (of_char (hex_digit d) :: nat)" and d: "d < 16"
    using h hex_digit_code [of d] by (auto simp: hex_value_def Let_def simp del: of_char_eq_iff split: if_splits)
  then show ?thesis by (simp only: lowercase_def list.map of_char_eq_iff)
qed

text \<open>The digits of a number, and the number of a text of digits.\<close>

definition hex_digits :: "nat \<Rightarrow> nat \<Rightarrow> string" where
  "hex_digits n m = map (\<lambda>i. hex_digit (m div 16 ^ i)) (rev [0..<n])"

lemma hex_digits_Suc: "hex_digits (Suc n) (16 * m + d) = hex_digits n m @ [hex_digit d]" if "d < 16"
proof -
  have "(16 * m + d) div 16 ^ Suc i = m div 16 ^ i" for i
    using that by (simp add: div_mult2_eq)
  moreover have "[0..<Suc n] = 0 # map Suc [0..<n]" by (simp add: map_Suc_upt upt_conv_Cons)
  ultimately show ?thesis by (simp add: hex_digits_def rev_map comp_def del: upt_Suc) (simp add: hex_digit_def)
qed

lemma hex_number_snoc:
  "hex_number acc (cs @ [c]) = Option.bind (hex_number acc cs) (\<lambda>m. map_option (\<lambda>d. 16 * m + d) (hex_value c))"
  by (induction cs arbitrary: acc) (auto split: option.splits)

lemma hex_number_lowercase: "hex_number 0 cs = Some m \<Longrightarrow> lowercase cs = hex_digits (length cs) m \<and> m < 16 ^ length cs"
proof (induction cs arbitrary: m rule: rev_induct)
  case Nil
  then show ?case by (simp add: lowercase_def hex_digits_def)
next
  case (snoc c cs)
  then obtain k d where k: "hex_number 0 cs = Some k" "hex_value c = Some d" "m = 16 * k + d"
    by (auto simp: hex_number_snoc bind_eq_Some_conv)
  have "lowercase (cs @ [c]) = lowercase cs @ lowercase [c]" by (simp add: lowercase_def)
  then show ?case using snoc.IH [OF k(1)] lowercase_digit [OF k(2)] hex_digits_Suc k(3) by simp
qed

lemma hex_digits_number: "hex_number acc (hex_digits n m) = Some (acc * 16 ^ n + m mod 16 ^ n)"
proof (induction n arbitrary: acc)
  case 0
  then show ?case by (simp add: hex_digits_def)
next
  case (Suc n)
  have "hex_value (hex_digit (m div 16 ^ n)) = Some (m div 16 ^ n mod 16)"
    using hex_value_digit [of "m div 16 ^ n mod 16"] by (simp add: hex_digit_def)
  moreover have "(16 * acc + m div 16 ^ n mod 16) * 16 ^ n + m mod 16 ^ n = acc * 16 ^ Suc n + m mod 16 ^ Suc n"
    using mod_mult2_eq [of m "16 ^ n" 16] by (simp add: algebra_simps)
  moreover have "hex_digits (Suc n) m = hex_digit (m div 16 ^ n) # hex_digits n m" by (simp add: hex_digits_def)
  ultimately show ?case using Suc.IH [of "16 * acc + m div 16 ^ n mod 16"] by simp
qed

lemma address_string_digits: "address_string a = ''0x'' @ hex_digits 40 (unat a)"
  by (simp only: address_string_def nibble hex_digits_def hex_digit_def mod_mod_trivial)

lemma lowercase_prefix: "lowercase (''0x'' @ ds) = ''0x'' @ lowercase ds"
  by (simp add: lowercase_def)

lemma hex_digits_length [simp]: "length (hex_digits n m) = n"
  by (simp add: hex_digits_def)

lemma unat_lt2p_160: "unat a < 16 ^ 40" for a :: address
  using unsigned_less [of a] by simp

lemma parse_address_string: "parse_address (address_string a) = Some a"
  using hex_digits_number [of 0 40 "unat a"] unat_lt2p_160 [of a]
  by (simp add: parse_address_def address_string_digits)

text \<open>A text that parses is, in lower case, the address's own text.\<close>

lemma parsed_lowercase:
  assumes "parse_address (''0x'' @ ds) = Some a"
  shows "lowercase (''0x'' @ ds) = address_string a"
proof -
  obtain m where m: "hex_number 0 ds = Some m" "length ds = 40" "a = of_nat m"
    using assms by (auto simp: parse_address_def split: if_splits)
  note l = hex_number_lowercase [OF m(1)]
  have "unat a = m" using l m(2,3) by (simp add: unat_of_nat)
  then show ?thesis using l m(2) by (simp only: address_string_digits lowercase_prefix)
qed

section \<open>Looking factories up\<close>

lemma text_parses:
  "parse_address ''0xb43120c4745967fa9b93E79C149E66B0f2D6Fe0c'' \<noteq> None"
  "parse_address ''0x8e42f2F4101563bF679975178e880FD87d3eFd4e'' \<noteq> None"
  "parse_address ''0x6E77932A92582f504FF6c4BdbCef7Da6c198aEEf'' \<noteq> None"
  "parse_address ''0xDC8d77b69155c7E68A95a4fb0f06a71FF90B943a'' \<noteq> None"
  by (simp_all add: parse_address_def hex_value_def)

lemma table_texts:
  assumes "f \<in> set (get_lb_factories_by_chain_id chain)"
  shows "take 2 (lf_address f) = ''0x''" and "lb_parse f \<noteq> None"
proof -
  have "f \<in> set (lb_factories_ethereum @ lb_factories_bsc @ lb_factories_arbitrum @ lb_factories_avalanche)"
    using assms by (simp add: get_lb_factories_by_chain_id_def split: if_splits)
  then have "lf_address f \<in> {''0xb43120c4745967fa9b93E79C149E66B0f2D6Fe0c'', ''0x8e42f2F4101563bF679975178e880FD87d3eFd4e'',
      ''0x6E77932A92582f504FF6c4BdbCef7Da6c198aEEf'', ''0xDC8d77b69155c7E68A95a4fb0f06a71FF90B943a''}"
    unfolding lb_factories_ethereum_def lb_factories_bsc_def lb_factories_arbitrum_def lb_factories_avalanche_def
    by (simp only: set_append list.set Un_iff insert_iff empty_iff) (elim disjE; simp)
  then show "take 2 (lf_address f) = ''0x''" "lb_parse f \<noteq> None"
    using text_parses unfolding lb_parse_def by (elim insertE emptyE; simp only:; simp)+
qed

lemma factory_text:
  assumes "f \<in> set (get_lb_factories_by_chain_id chain)"
  shows "lb_matches f (address_string a) \<longleftrightarrow> lb_parse f = Some a"
proof -
  note t = table_texts [OF assms]
  then obtain b where b: "parse_address (lf_address f) = Some b" by (auto simp: lb_parse_def)
  obtain ds where ds: "lf_address f = ''0x'' @ ds" using t(1) by (metis append_take_drop_id)
  have l: "lowercase (lf_address f) = address_string b" unfolding ds by (rule parsed_lowercase) (use b ds in \<open>simp only:\<close>)
  have i: "x = y" if "address_string x = address_string y" for x y :: address
    by (rule option.inject [THEN iffD1]) (simp only: parse_address_string [symmetric] that)
  have "lowercase (address_string a) = address_string a"
    using parsed_lowercase [of "hex_digits 40 (unat a)" a] parse_address_string [of a] by (simp only: address_string_digits)
  then have "lb_matches f (address_string a) \<longleftrightarrow> b = a" unfolding lb_matches_def l using i by metis
  then show ?thesis unfolding lb_parse_def b by simp
qed

text \<open>
  No entry of a listed chain is dropped for want of parsing, and a generation is found by the text of an
  address exactly as by the address itself.
\<close>

lemma factory_addresses:
  "map Some (get_lb_factory_addresses_by_chain_id chain) = map lb_parse (get_lb_factories_by_chain_id chain)"
proof -
  have "map Some (List.map_filter lb_parse fs) = map lb_parse fs" if "\<forall>f \<in> set fs. lb_parse f \<noteq> None" for fs
    using that by (induction fs) (auto simp: map_filter_simps)
  then show ?thesis using table_texts(2) by (simp add: get_lb_factory_addresses_by_chain_id_def)
qed

lemma version_by_address:
  "get_lb_version_by_factory chain (address_string a) =
     map_option lf_version (find (\<lambda>f. lb_parse f = Some a) (get_lb_factories_by_chain_id chain))"
  unfolding get_lb_version_by_factory_def by (rule arg_cong [where f = "map_option lf_version"], rule find_cong) (simp_all add: factory_text)

lemma supported_chains_listed:
  "get_lb_factories_by_chain_id chain \<noteq> [] \<longleftrightarrow> chain \<in> set get_lb_supported_chain_ids"
  by (simp add: get_lb_factories_by_chain_id_def get_lb_supported_chain_ids_def lb_factories_ethereum_def lb_factories_bsc_def
      lb_factories_arbitrum_def lb_factories_avalanche_def)

end
