(* ===== verification/Spec2Isabelle.thy ===== *)
theory Spec2Isabelle
  imports Swap_Loop V3_Liquidity V3_Quotes V2_Quotes LB_Quotes Erc4626 Websocket_Run Pool_Fetch Handle Replay LB_Factories
begin

text \<open>
  A model of \<^verbatim>\<open>evm-dex-pool\<close>: the state of decentralised-exchange pools kept in memory, the quotes computed
  from it, and the collector that keeps it in step with a chain by applying the chain's logs.

  \<^bold>\<open>Parts.\<close> Four kinds of pool (\<^verbatim>\<open>src/v2\<close>, \<^verbatim>\<open>src/v3\<close>, \<^verbatim>\<open>src/lb\<close>, \<^verbatim>\<open>src/erc4626\<close>) implement the traits
  of \<^verbatim>\<open>src/pool/base.rs\<close>. A registry (\<^verbatim>\<open>src/registry.rs\<close>) files them by address. The collector
  (\<^verbatim>\<open>src/collector\<close>) takes batches of logs from a block source, hands them to the event processor,
  which applies them to the registry's pools and sends swap logs on, and moves the registry's block
  cursor; a fee reader reads, beside it, the fees no log announces. The fetchers read pools from the chain into
  the registry, and the collector's handle starts, stops and restarts the updater to add pools to it.

  \<^bold>\<open>Conventions.\<close> \<open>Dex_Prelude\<close> holds the machine integers (words of their width; signed ones as \<open>int\<close> with
  the wrap-around written out), the error values and the standard-library arithmetic. An operation that
  can fail returns \<open>err + 'a\<close>, a panic is an error, and a loop that may not end returns an option whose
  \<open>None\<close> is not returning. \<open>BTree_Map\<close> models ordered maps as sorted association lists; hash maps and
  concurrent maps use it too, where no result depends on their iteration order. Logs enter decoded: which
  event a log is comes from the generated bindings.

  \<^bold>\<open>Theories.\<close>
  \<open>Full_Math\<close>, \<open>Bit_Math\<close>, \<open>Tick_Math\<close>, \<open>Sqrt_Price_Math\<close>: the integer mathematics of \<^verbatim>\<open>src/v3\<close>, function by
  function, with the exact values, roundings and domains.
  \<open>Tick_Map\<close>, \<open>Swap_Math\<close>, \<open>Swap_Loop\<close>: \<^verbatim>\<open>tick.rs\<close> and \<^verbatim>\<open>swap_math.rs\<close>; the swap loop is a partial function,
  proved to end and to stay within its limit and amount.
  \<open>V3_Pool\<close>, \<open>V3_Liquidity\<close>, \<open>V3_Quotes\<close>: \<^verbatim>\<open>pool.rs\<close>; the tick map and liquidity refine the history of
  liquidity changes.
  \<open>V2_Pool\<close>, \<open>V2_Quotes\<close>: \<^verbatim>\<open>src/v2/pool.rs\<close>. \<open>LB_Math\<close>, \<open>LB_Pool\<close>, \<open>LB_Events\<close>, \<open>LB_Quotes\<close>: \<^verbatim>\<open>src/lb\<close>.
  \<open>Erc4626\<close>: \<^verbatim>\<open>src/erc4626\<close>.
  \<open>Pool_Interface\<close> holds what the collector relies on of a pool as locales, which every pool type
  interprets; \<open>Any_Pool\<close> is the dispatch over the pool types and interprets them for it; \<open>Registry\<close> is the
  registry with its reachable states.
  \<open>Event_Queue\<close>: \<^verbatim>\<open>collector/event_queue.rs\<close>. \<open>Event_Processor\<close>: \<^verbatim>\<open>collector/event_processor.rs\<close>; the grouped
  application, the confirmed and the pending mode are compared with applying logs one by one.
  \<open>Timestamps\<close>, \<open>Provider\<close>: \<^verbatim>\<open>collector/utils.rs\<close> and the retry loops. \<open>Block_Batches\<close>, \<open>Block_Source\<close>: the
  polling sources of \<^verbatim>\<open>collector/block_source.rs\<close>. \<open>Fee_Reader\<close>: \<^verbatim>\<open>collector/fee_reader.rs\<close>.
  \<open>Updater\<close>: the loop of \<^verbatim>\<open>collector/unified_pool_updater.rs\<close> over any block source, with the contract of a
  source as a locale; \<open>Polling\<close> interprets it for the two polling sources, so that an updater over either
  keeps the pools in step with the chain. \<open>Settler\<close>: the websocket source's block settler.
  \<open>Websocket\<close>: the websocket source. \<open>Feed_Rounds\<close>, \<open>Gap_Fill\<close>, \<open>Websocket_Step\<close> and \<open>Websocket_Run\<close> show that the
  updater over it applies the chain's logs in order and once each, whatever its feed loses: what the queue holds
  between two drains, what a gap fill brings back, what bootstrap applies, and the turns after it.
  \<open>V2_Factories\<close>, \<open>LB_Factories\<close>: the tables of known factories (\<^verbatim>\<open>src/v2/factories.rs\<close>,
  \<^verbatim>\<open>src/lb/factories.rs\<close>), with what their lookups find.
  \<open>Fetch_Base\<close>, \<open>V2_Fetch\<close>, \<open>V3_Fetch\<close>, \<open>LB_Fetch\<close>: the \<^verbatim>\<open>fetcher.rs\<close> of each kind: the protocol and the fee told apart by
  the calls a contract answers, the ticks and bins found in its bitmaps; a fetch from honest answers
  gives the pool the chain holds.
  \<open>Pool_Fetch\<close>: \<^verbatim>\<open>collector/pool_fetcher.rs\<close> and the in-memory fetch of \<^verbatim>\<open>collector/handle.rs\<close>: the kind of each address,
  chunks and retries; the pools gained are those asked for, of the kind found.
  \<open>Handle\<close>: the rest of \<^verbatim>\<open>collector/handle.rs\<close>, \<^verbatim>\<open>bootstrap.rs\<close> and \<^verbatim>\<open>config.rs\<close>: starting, stopping, removing and
  adding pools; old and new pools reach the restarted cursor with each block's logs applied once.
  \<open>Replay\<close>: \<^verbatim>\<open>collector/replay.rs\<close>, which gives back the events the sources apply.
  \<open>Feed_Progress\<close>: what a feed of \<^verbatim>\<open>collector/websocket_listener.rs\<close> has delivered, and the gaps it notes.

  \<^bold>\<open>Parameters.\<close> The RPC node is an argument: what it answers to each attempt at a call. What is assumed of it
  (it answers sooner or later, with the matching logs of the range in chain order) is a named hypothesis.
  The multicalls of a fetch are arguments too, a record of answers for each attempt at an address, and so are
  \<^verbatim>\<open>keccak256\<close>, where the bins are found in a pair's storage, and the wall clock, where an operation reads it.

  \<^bold>\<open>Bounds.\<close> Structural recursion and measures everywhere but in the loops that may not end: the swap loop, the
  bin walk, the stable iteration, the retry loop, the latest-block batch loop, the wait for the node's
  head and the bootstrap's fetches are partial functions, and where they end is a theorem.

  \<^bold>\<open>Not modelled.\<close> The generated bindings (ABI encoding and decoding of calls and logs), the client's own
  connections (the HTTP provider, the websocket connection, its heartbeat and reconnection delays), token names and
  symbols, floating-point prices and fees, formatting, logging and metrics, waits, and the task scheduling
  itself (an operation under a lock is one step).
\<close>

end
